(* ===== verification/Prelude.thy ===== *)
theory Prelude
  imports Main "HOL-Library.Word"
begin

text \<open>
  Shared vocabulary of the development: the machine integers of the Rust code, byte
  buffers, the result type with an explicit panic, the cursor operations of the
  \<open>bytes\<close> buffers, the random byte source, and the list and word lemmas every
  component uses.  Big-endian encodings are proved to be inverse to each other here
  once, so that the components only rewrite with them.
\<close>

unbundle bit_operations_syntax

named_theorems wire_simps "lengths and layouts of serialised fields"

section \<open>Machine integers and buffers\<close>

type_synonym u8 = "8 word"
type_synonym u16 = "16 word"
type_synonym u32 = "32 word"
type_synonym u64 = "64 word"
type_synonym bytes = "u8 list"

text \<open>
  A Rust call ends in a value, in the error branch of its \<open>Result\<close>, or in a panic
  (out-of-range slice, cursor read past the end, failed \<open>unwrap\<close>).
\<close>

datatype ('e, 'a) result = Ok 'a | Err 'e | Panic

fun bind_result :: "('e, 'a) result \<Rightarrow> ('a \<Rightarrow> ('e, 'b) result) \<Rightarrow> ('e, 'b) result" where
  "bind_result (Ok x) k = k x"
| "bind_result (Err e) k = Err e"
| "bind_result Panic k = Panic"

fun map_err :: "('e \<Rightarrow> 'f) \<Rightarrow> ('e, 'a) result \<Rightarrow> ('f, 'a) result" where
  "map_err f (Ok x) = Ok x"
| "map_err f (Err e) = Err (f e)"
| "map_err f Panic = Panic"

section \<open>Big-endian fields\<close>

definition be16 :: "u16 \<Rightarrow> bytes" where
  "be16 w = [ucast (drop_bit 8 w), ucast w]"

definition be32 :: "u32 \<Rightarrow> bytes" where
  "be32 w = [ucast (drop_bit 24 w), ucast (drop_bit 16 w), ucast (drop_bit 8 w), ucast w]"

definition be64 :: "u64 \<Rightarrow> bytes" where
  "be64 w = [ucast (drop_bit 56 w), ucast (drop_bit 48 w), ucast (drop_bit 40 w),
             ucast (drop_bit 32 w), ucast (drop_bit 24 w), ucast (drop_bit 16 w),
             ucast (drop_bit 8 w), ucast w]"

definition from_be :: "bytes \<Rightarrow> 'a::len word" where
  "from_be bs = foldl (\<lambda>acc b. push_bit 8 acc OR ucast b) 0 bs"

text \<open>
  The proofs go through the numeric reading: \<open>nat_be\<close> writes a number in base 256 and
  \<open>be_val\<close> reads it.
\<close>

fun nat_be :: "nat \<Rightarrow> nat \<Rightarrow> bytes" where
  "nat_be 0 x = []"
| "nat_be (Suc n) x = nat_be n (x div 256) @ [of_nat x]"

lemma nat_be_Suc_numeral: "nat_be (numeral k) x = nat_be (pred_numeral k) (x div 256) @ [of_nat x]"
  by (subst numeral_eq_Suc) (rule nat_be.simps(2))

lemma nat_be_one: "nat_be (Suc 0) x = [of_nat x]"
  by simp

definition be_val :: "bytes \<Rightarrow> nat" where
  "be_val bs = foldl (\<lambda>a b. a * 256 + unat b) 0 bs"

lemma be_val_Nil [simp]: "be_val [] = 0"
  by (simp add: be_val_def)

lemma be_val_snoc [simp]: "be_val (bs @ [b]) = be_val bs * 256 + unat b"
  by (simp add: be_val_def)

lemma length_nat_be [simp]: "length (nat_be n x) = n"
  by (induction n arbitrary: x) auto

lemma unat_u8_of_nat: "unat (of_nat x :: u8) = x mod 256"
  by (simp add: unat_of_nat)

lemma be_val_nat_be: "be_val (nat_be n x) = x mod 256 ^ n"
proof (induction n arbitrary: x)
  case (Suc n)
  have "be_val (nat_be (Suc n) x) = (x div 256 mod 256 ^ n) * 256 + x mod 256"
    by (simp add: Suc unat_u8_of_nat)
  also have "\<dots> = x mod (256 * 256 ^ n)"
    by (simp add: mod_mult2_eq)
  finally show ?case by simp
qed simp

lemma nat_be_be_val: "nat_be (length bs) (be_val bs) = bs"
proof (induction bs rule: rev_induct)
  case (snoc b bs)
  have "unat b < 256"
    using unsigned_less [where 'a = nat, of b] by simp
  then have "(be_val bs * 256 + unat b) div 256 = be_val bs"
    by simp
  moreover have "(of_nat (be_val bs * 256 + unat b) :: u8) = b"
    by (simp add: word_eq_iff_unsigned [where 'a = nat] unat_u8_of_nat \<open>unat b < 256\<close>
        del: of_nat_add of_nat_mult)
  ultimately show ?case
    using snoc by (simp del: of_nat_add of_nat_mult)
qed simp

lemma be_val_bound: "be_val bs < 256 ^ length bs"
  by (metis be_val_nat_be mod_less_divisor nat_be_be_val zero_less_numeral zero_less_power)

lemma shift_or_add: "push_bit 8 (a :: 'a::len word) OR ucast (b :: u8) = a * 256 + ucast b"
proof -
  have "push_bit 8 a AND (ucast b :: 'a word) = 0"
    by (rule bit_word_eqI) (auto simp: bit_simps dest: bit_imp_le_length)
  then have "push_bit 8 a OR ucast b = push_bit 8 a + (ucast b :: 'a word)"
    by (simp add: disjunctive_add_eq_or)
  then show ?thesis
    by (simp add: push_bit_eq_mult)
qed

lemma from_be_of_nat: "from_be bs = of_nat (be_val bs)"
proof (induction bs rule: rev_induct)
  case Nil
  show ?case by (simp add: from_be_def)
next
  case (snoc b bs)
  have "from_be (bs @ [b]) = push_bit 8 (from_be bs :: 'a word) OR ucast b"
    by (simp add: from_be_def)
  also have "\<dots> = of_nat (be_val bs) * 256 + ucast b"
    by (simp only: shift_or_add snoc)
  finally show ?case
    by simp
qed

lemma ucast_drop_bit_u8: "(ucast (drop_bit n (w :: 'a::len word)) :: u8) = of_nat (unat w div 2 ^ n)"
proof -
  have "unat (drop_bit n w) = unat w div 2 ^ n"
    by (subst unsigned_drop_bit_eq) (simp add: drop_bit_eq_div take_bit_nat_eq_self)
  then show ?thesis
    by (metis of_nat_unat)
qed

lemma ucast_u8: "(ucast (w :: 'a::len word) :: u8) = of_nat (unat w)"
  by simp

lemma nat_be_numerals:
  "nat_be 2 x = [of_nat (x div 2 ^ 8), of_nat x]"
  "nat_be 4 x = [of_nat (x div 2 ^ 24), of_nat (x div 2 ^ 16), of_nat (x div 2 ^ 8), of_nat x]"
  "nat_be 8 x = [of_nat (x div 2 ^ 56), of_nat (x div 2 ^ 48), of_nat (x div 2 ^ 40),
     of_nat (x div 2 ^ 32), of_nat (x div 2 ^ 24), of_nat (x div 2 ^ 16), of_nat (x div 2 ^ 8),
     of_nat x]"
  by (simp_all add: nat_be_Suc_numeral nat_be_one div_mult2_eq [symmetric] del: nat_be.simps(2))

lemma be16_nat_be: "be16 w = nat_be 2 (unat w)"
  unfolding be16_def ucast_drop_bit_u8 unfolding ucast_u8 nat_be_numerals by simp

lemma be32_nat_be: "be32 w = nat_be 4 (unat w)"
  unfolding be32_def ucast_drop_bit_u8 unfolding ucast_u8 nat_be_numerals by simp

lemma be64_nat_be: "be64 w = nat_be 8 (unat w)"
  unfolding be64_def ucast_drop_bit_u8 unfolding ucast_u8 nat_be_numerals by simp

lemmas be_nat_be = be16_nat_be be32_nat_be be64_nat_be

lemma length_be16 [simp, wire_simps]: "length (be16 w) = 2"
  by (simp add: be16_def)

lemma length_be32 [simp, wire_simps]: "length (be32 w) = 4"
  by (simp add: be32_def)

lemma length_be64 [simp, wire_simps]: "length (be64 w) = 8"
  by (simp add: be64_def)

lemma of_nat_unat_mod: "2 ^ LENGTH('a) = k \<Longrightarrow> of_nat (unat (w :: 'a::len word) mod k) = w"
  using unsigned_less [where 'a = nat, of w] by simp

lemma from_be_be16 [simp]: "from_be (be16 w) = w"
  by (simp add: from_be_of_nat be16_nat_be be_val_nat_be of_nat_unat_mod)

lemma from_be_be32 [simp]: "from_be (be32 w) = w"
  by (simp add: from_be_of_nat be32_nat_be be_val_nat_be of_nat_unat_mod)

lemma from_be_be64 [simp]: "from_be (be64 w) = w"
  by (simp add: from_be_of_nat be64_nat_be be_val_nat_be of_nat_unat_mod)

lemma be16_from_be [simp]: "length bs = 2 \<Longrightarrow> be16 (from_be bs) = bs"
  using be_val_bound [of bs] nat_be_be_val [of bs]
  by (simp add: from_be_of_nat be16_nat_be unat_of_nat)

lemma be32_from_be [simp]: "length bs = 4 \<Longrightarrow> be32 (from_be bs) = bs"
  using be_val_bound [of bs] nat_be_be_val [of bs]
  by (simp add: from_be_of_nat be32_nat_be unat_of_nat)

lemma be64_inj [simp]: "be64 a = be64 b \<longleftrightarrow> a = b"
  by (metis from_be_be64)

lemma be16_inj [simp]: "be16 a = be16 b \<longleftrightarrow> a = b"
  by (metis from_be_be16)

lemma be32_inj [simp]: "be32 a = be32 b \<longleftrightarrow> a = b"
  by (metis from_be_be32)

lemma unat_of_nat_u8 [simp]: "n < 256 \<Longrightarrow> unat (of_nat n :: u8) = n"
  by (simp add: unat_of_nat)

lemma unat_of_nat_u16 [simp]: "n < 65536 \<Longrightarrow> unat (of_nat n :: u16) = n"
  by (simp add: unat_of_nat)

lemma unat_of_nat_u16_mod: "unat (of_nat n :: u16) = n mod 65536"
  by (simp add: unat_of_nat)

lemma of_nat_u16_mod: "(of_nat (n mod 65536) :: u16) = of_nat n"
  by (simp add: word_eq_iff_unsigned [where 'a = nat] unat_of_nat)

lemma unat_u16_less [simp]: "unat (w :: u16) < 65536"
  using unsigned_less [where 'a = nat, of w] by simp

lemma unat_u8_less [simp]: "unat (w :: u8) < 256"
  using unsigned_less [where 'a = nat, of w] by simp

section \<open>Cursor operations of the byte buffers\<close>

text \<open>
  The reads of \<open>bytes::Buf\<close> that the parsers use.  \<open>None\<close> is the panic these methods
  raise when the buffer is too short; \<open>slice_get\<close> is the checked \<open>get(a..b)\<close> of a slice.
\<close>

fun get_u8 :: "bytes \<Rightarrow> (u8 \<times> bytes) option" where
  "get_u8 [] = None"
| "get_u8 (b # bs) = Some (b, bs)"

definition get_u16 :: "bytes \<Rightarrow> (u16 \<times> bytes) option" where
  "get_u16 bs = (if length bs < 2 then None else Some (from_be (take 2 bs), drop 2 bs))"

definition split_to :: "nat \<Rightarrow> bytes \<Rightarrow> (bytes \<times> bytes) option" where
  "split_to n bs = (if n \<le> length bs then Some (take n bs, drop n bs) else None)"

definition advance_cursor :: "nat \<Rightarrow> bytes \<Rightarrow> bytes option" where
  "advance_cursor n bs = (if n \<le> length bs then Some (drop n bs) else None)"

definition slice_get :: "nat \<Rightarrow> nat \<Rightarrow> 'a list \<Rightarrow> 'a list option" where
  "slice_get a b xs = (if a \<le> b \<and> b \<le> length xs then Some (take (b - a) (drop a xs)) else None)"

lemma get_u16_append [simp]: "get_u16 (be16 w @ bs) = Some (w, bs)"
  by (simp add: get_u16_def)

lemma split_to_append [simp]: "split_to (length xs) (xs @ ys) = Some (xs, ys)"
  by (simp add: split_to_def)

lemma get_u16_None_iff: "get_u16 bs = None \<longleftrightarrow> length bs < 2"
  by (simp add: get_u16_def)

lemma get_u16_Some_iff:
  "get_u16 bs = Some (w, rest) \<longleftrightarrow> bs = be16 w @ rest"
proof
  assume "get_u16 bs = Some (w, rest)"
  then have "2 \<le> length bs" "w = from_be (take 2 bs)" "rest = drop 2 bs"
    by (auto simp: get_u16_def split: if_splits)
  then show "bs = be16 w @ rest" by simp
qed simp

lemma split_to_Some_iff:
  "split_to n bs = Some (a, b) \<longleftrightarrow> bs = a @ b \<and> length a = n"
  by (auto simp: split_to_def)

section \<open>Random bytes\<close>

text \<open>
  The operating-system and thread generators are an input of the model: an infinite
  sequence of bytes.  \<open>fill_bytes n\<close> takes the next \<open>n\<close> of them and returns the rest.
\<close>

type_synonym rng = "nat \<Rightarrow> u8"

definition fill_bytes :: "nat \<Rightarrow> rng \<Rightarrow> bytes \<times> rng" where
  "fill_bytes n r = (map r [0..<n], \<lambda>i. r (i + n))"

lemma length_fill_bytes [simp]: "length (fst (fill_bytes n r)) = n"
  by (simp add: fill_bytes_def)

lemma fill_bytes_0 [simp]: "fill_bytes 0 r = ([], r)"
  by (simp add: fill_bytes_def)

section \<open>Prefixes of buffers\<close>

text \<open>Cutting a buffer that starts with a known block.\<close>

lemma take_append_exact [simp]: "length xs = n \<Longrightarrow> take n (xs @ ys) = xs"
  by simp

lemma drop_append_exact [simp]: "length xs = n \<Longrightarrow> drop n (xs @ ys) = ys"
  by simp

lemma take_drop_mid: "length xs = n \<Longrightarrow> length ys = m \<Longrightarrow> take m (drop n (xs @ ys @ zs)) = ys"
  by simp

lemma take_drop_split3: "take p xs @ take q (drop p xs) @ drop (p + q) xs = xs"
  by (metis append_take_drop_id drop_drop add.commute)

lemma concat_map_length: "length (concat (map f xs)) = sum_list (map (\<lambda>x. length (f x)) xs)"
  by (induction xs) auto

end
