(* ===== verification/Errors.thy ===== *)
theory Errors
  imports Prelude
begin

text \<open>
  The protocol error of \<open>engine/src/errors.rs\<close>: what failed (\<open>ErrorStage\<close>, with its static
  message), what the caller must do about it (\<open>ErrorAction\<close>) and the raw bytes kept for a
  redirect.  Logging is modelled by the event that is emitted.
\<close>

datatype error_action = Wait | Redirect | Drop

datatype error_stage =
    StageTls string
  | StageHandshake string
  | StageApplicationData string

record tls_error =
  err_stage :: error_stage
  err_action :: error_action
  err_data :: bytes

definition tls_error_new :: "error_stage \<Rightarrow> error_action \<Rightarrow> bytes \<Rightarrow> tls_error" where
  "tls_error_new stage action data =
     \<lparr>err_stage = stage, err_action = action, err_data = data\<rparr>"

datatype log_level = LevelTrace | LevelError

text \<open>
  The emitted event: level, stage name, the first eight bytes of the data (\<open>None\<close> is the
  text ``No data'') with the flag for the trailing dots, and the message.
\<close>

record log_event =
  ev_level :: log_level
  ev_stage :: string
  ev_preview :: "(bytes \<times> bool) option"
  ev_message :: string

fun stage_name :: "error_stage \<Rightarrow> string" where
  "stage_name (StageTls m) = ''TLS''"
| "stage_name (StageHandshake m) = ''Handshake''"
| "stage_name (StageApplicationData m) = ''AppData''"

fun stage_message :: "error_stage \<Rightarrow> string" where
  "stage_message (StageTls m) = m"
| "stage_message (StageHandshake m) = m"
| "stage_message (StageApplicationData m) = m"

definition log_error :: "tls_error \<Rightarrow> log_event" where
  "log_error e =
     \<lparr>ev_level = (case err_action e of Wait \<Rightarrow> LevelTrace | Redirect \<Rightarrow> LevelError | Drop \<Rightarrow> LevelError),
      ev_stage = stage_name (err_stage e),
      ev_preview = (if err_data e \<noteq> []
                    then Some (take (min (length (err_data e)) 8) (err_data e), 8 < length (err_data e))
                    else None),
      ev_message = stage_message (err_stage e)\<rparr>"

definition execute_strategy :: "tls_error \<Rightarrow> log_event \<times> error_action" where
  "execute_strategy e = (log_error e, err_action e)"

definition drop_error :: "error_stage \<Rightarrow> tls_error" where
  "drop_error stage = tls_error_new stage Drop []"

lemma drop_error_action [simp]: "err_action (drop_error s) = Drop"
  by (simp add: drop_error_def tls_error_new_def)

text \<open>
  Only an error that asks to wait is logged quietly, whatever its stage, and at most eight
  bytes of its data reach the log.
\<close>

lemma log_error_level_iff: "ev_level (log_error e) = LevelTrace \<longleftrightarrow> err_action e = Wait"
  by (cases "err_action e") (auto simp: log_error_def)

lemma log_error_preview_bound:
  "ev_preview (log_error e) = Some (p, dots) \<Longrightarrow>
     length p \<le> 8 \<and> (\<exists>rest. err_data e = p @ rest \<and> (dots \<longleftrightarrow> rest \<noteq> []))"
  by (auto simp: log_error_def split: if_splits intro!: exI [of _ "drop 8 (err_data e)"])

section \<open>Application errors\<close>

text \<open>
  \<open>AppError\<close> of \<open>logger/src/error.rs\<close>.  The messages shown to the user are the five Russian
  literals the modelled code uses, named here by constructors; the log messages are kept as
  the code has them.
\<close>

datatype user_msg =
    MsgMaskingError \<comment> \<open>Oshibka maskirovki\<close>
  | MsgEncryptionError \<comment> \<open>Oshibka shifrovaniya\<close>
  | MsgFailure \<comment> \<open>Sboj\<close>
  | MsgKeyError \<comment> \<open>Oshibka klyuchej\<close>
  | MsgConfigError \<comment> \<open>Oshibka konfiguratsii\<close>

record app_error =
  ap_code :: string
  ap_user_msg :: user_msg
  ap_internal_msg :: string
  ap_metadata :: "(string \<times> string) list"
  ap_cause :: "string option"

definition err_auth_failed :: string where
  "err_auth_failed = ''AUTH_FAILED''"

definition err_net_tls_tamper :: string where
  "err_net_tls_tamper = ''NET_TLS_TAMPER''"

definition app_error_new :: "string \<Rightarrow> user_msg \<Rightarrow> string \<Rightarrow> app_error" where
  "app_error_new code user_msg internal_msg =
     \<lparr>ap_code = code, ap_user_msg = user_msg, ap_internal_msg = internal_msg,
      ap_metadata = [], ap_cause = None\<rparr>"

text \<open>Inserting a key of the hash map replaces its value.\<close>

definition with_context :: "app_error \<Rightarrow> string \<Rightarrow> string \<Rightarrow> app_error" where
  "with_context e key value =
     e\<lparr>ap_metadata := (key, value) # filter (\<lambda>(k, v). k \<noteq> key) (ap_metadata e)\<rparr>"

definition with_cause :: "app_error \<Rightarrow> string \<Rightarrow> app_error" where
  "with_cause e err = e\<lparr>ap_cause := Some err\<rparr>"

definition display_app_error :: "app_error \<Rightarrow> string" where
  "display_app_error e = ''['' @ ap_code e @ ''] '' @ ap_internal_msg e"

lemma map_of_with_context:
  "map_of (ap_metadata (with_context e k v)) = (map_of (ap_metadata e))(k \<mapsto> v)"
proof -
  have "map_of (filter (\<lambda>(k', v'). k' \<noteq> k) xs) x = (if x = k then None else map_of xs x)"
    for xs :: "(string \<times> string) list" and x
    by (induction xs) auto
  then show ?thesis
    by (simp add: with_context_def fun_eq_iff)
qed

text \<open>Decimal numbers in messages.\<close>

fun show_nat :: "nat \<Rightarrow> string" where
  "show_nat n =
     (if n < 10 then [char_of (48 + n)] else show_nat (n div 10) @ [char_of (48 + n mod 10)])"

declare show_nat.simps [simp del]

end
