(* ===== verification/Crypto.thy ===== *)
theory Crypto
  imports Errors
begin

text \<open>
  The cryptographic crates the code calls (\<open>chacha20poly1305\<close>, \<open>hmac\<close>, \<open>hkdf\<close>,
  \<open>sha2\<close>, \<open>x25519_dalek\<close>) are parameters of the model: a record of functions that every
  definition using them takes as an argument.  What the code relies on is stated here as
  named laws; a toy instance shows that the laws can hold together.
\<close>

section \<open>Primitives as a parameter\<close>

record crypto =
  aead_seal :: "bytes \<Rightarrow> bytes \<Rightarrow> bytes \<Rightarrow> bytes \<Rightarrow> bytes option"
    \<comment> \<open>key, nonce, associated data, plaintext; \<open>None\<close> is an encryption error\<close>
  aead_open :: "bytes \<Rightarrow> bytes \<Rightarrow> bytes \<Rightarrow> bytes \<Rightarrow> bytes option"
    \<comment> \<open>key, nonce, associated data, ciphertext with tag; \<open>None\<close> is a failed check\<close>
  hmac_sha256 :: "bytes \<Rightarrow> bytes \<Rightarrow> bytes"
    \<comment> \<open>key, message\<close>
  hkdf_extract :: "bytes \<Rightarrow> bytes \<Rightarrow> bytes"
    \<comment> \<open>salt, input key material\<close>
  hkdf_expand :: "bytes \<Rightarrow> bytes \<Rightarrow> nat \<Rightarrow> bytes option"
    \<comment> \<open>pseudo-random key, label, length; \<open>None\<close> is an invalid length\<close>
  x25519_base :: "bytes \<Rightarrow> bytes"
    \<comment> \<open>private scalar to public point\<close>
  x25519 :: "bytes \<Rightarrow> bytes \<Rightarrow> bytes"
    \<comment> \<open>private scalar, public point\<close>

section \<open>The laws the code relies on\<close>

text \<open>Opening what was sealed under the same key, nonce and associated data gives the plaintext
  back, and the ciphertext is sixteen bytes longer.\<close>

definition aead_correct :: "crypto \<Rightarrow> bool" where
  "aead_correct P \<longleftrightarrow> (\<forall>k n a p c. aead_seal P k n a p = Some c \<longrightarrow>
     aead_open P k n a c = Some p \<and> length c = length p + 16)"

text \<open>Sealing only fails beyond the length limit of ChaCha20 (\<open>2^32 - 1\<close> blocks of 64 bytes).\<close>

definition aead_total :: "crypto \<Rightarrow> bool" where
  "aead_total P \<longleftrightarrow> (\<forall>k n a p. length p < 64 * (2 ^ 32 - 1) \<longrightarrow> aead_seal P k n a p \<noteq> None)"

text \<open>A ciphertext that opens is the one sealing produces: the tag is a function of the rest.\<close>

definition aead_exact :: "crypto \<Rightarrow> bool" where
  "aead_exact P \<longleftrightarrow> (\<forall>k n a p c. aead_open P k n a c = Some p \<longrightarrow> aead_seal P k n a p = Some c)"

definition hmac_32 :: "crypto \<Rightarrow> bool" where
  "hmac_32 P \<longleftrightarrow> (\<forall>k m. length (hmac_sha256 P k m) = 32)"

text \<open>HKDF-SHA256: a 32-byte extract, and an expand of exactly the asked length up to 255 blocks.\<close>

definition hkdf_lengths :: "crypto \<Rightarrow> bool" where
  "hkdf_lengths P \<longleftrightarrow>
     (\<forall>salt ikm. length (hkdf_extract P salt ikm) = 32) \<and>
     (\<forall>prk info n. n \<le> 255 * 32 \<longrightarrow> (\<exists>okm. hkdf_expand P prk info n = Some okm \<and> length okm = n))"

text \<open>Diffie-Hellman: both sides compute the same point.\<close>

definition dh_commutes :: "crypto \<Rightarrow> bool" where
  "dh_commutes P \<longleftrightarrow> (\<forall>a b. x25519 P a (x25519_base P b) = x25519 P b (x25519_base P a))"

definition x25519_32 :: "crypto \<Rightarrow> bool" where
  "x25519_32 P \<longleftrightarrow>
     (\<forall>a. length (x25519_base P a) = 32) \<and> (\<forall>a b. length (x25519 P a b) = 32)"

lemma aead_correctD:
  "aead_correct P \<Longrightarrow> aead_seal P k n a p = Some c \<Longrightarrow> aead_open P k n a c = Some p"
  "aead_correct P \<Longrightarrow> aead_seal P k n a p = Some c \<Longrightarrow> length c = length p + 16"
  by (simp_all add: aead_correct_def)

lemma aead_totalD:
  assumes "aead_total P" "length p < 64 * (2 ^ 32 - 1)"
  obtains c where "aead_seal P k n a p = Some c"
  using assms unfolding aead_total_def by (metis not_None_eq)

lemma hkdf_expand_Some:
  assumes "hkdf_lengths P" "n \<le> 255 * 32"
  obtains okm where "hkdf_expand P prk info n = Some okm" "length okm = n"
  using assms unfolding hkdf_lengths_def by blast

section \<open>A toy instance\<close>

text \<open>
  Not the real primitives: concrete functions that satisfy every law, used to evaluate the
  witnesses.  The tag depends on key, nonce and associated data, so that opening under
  another nonce fails.
\<close>

definition pad_to :: "nat \<Rightarrow> bytes \<Rightarrow> bytes" where
  "pad_to n bs = take n (bs @ replicate n 0)"

definition toy_tag :: "bytes \<Rightarrow> bytes \<Rightarrow> bytes \<Rightarrow> bytes" where
  "toy_tag k n a = pad_to 16 (drop 4 n @ take 4 k @ take 4 a)"

definition toy_crypto :: crypto where
  "toy_crypto =
     \<lparr>aead_seal = (\<lambda>k n a p. Some (p @ toy_tag k n a)),
      aead_open = (\<lambda>k n a c.
        let m = length c - 16
        in if 16 \<le> length c \<and> drop m c = toy_tag k n a then Some (take m c) else None),
      hmac_sha256 = (\<lambda>k m. pad_to 32 (m @ k)),
      hkdf_extract = (\<lambda>salt ikm. pad_to 32 (ikm @ salt)),
      hkdf_expand = (\<lambda>prk info n. if n \<le> 8160 then Some (pad_to n (info @ prk)) else None),
      x25519_base = pad_to 32,
      x25519 = (\<lambda>a b. map2 (+) (pad_to 32 a) (pad_to 32 b))\<rparr>"

lemma length_pad_to [simp]: "length (pad_to n bs) = n"
  by (simp add: pad_to_def)

lemma length_toy_tag [simp]: "length (toy_tag k n a) = 16"
  by (simp add: toy_tag_def)

lemma pad_to_idem [simp]: "pad_to n (pad_to n bs) = pad_to n bs"
  by (simp add: pad_to_def)

lemma map2_plus_commute: "map2 (+) (xs :: bytes) ys = map2 (+) ys xs"
proof (induction xs arbitrary: ys)
  case (Cons x xs)
  then show ?case
    by (cases ys) (simp_all add: add.commute)
qed simp

lemma toy_crypto_laws:
  "aead_correct toy_crypto" "aead_total toy_crypto" "aead_exact toy_crypto" "hmac_32 toy_crypto"
  "hkdf_lengths toy_crypto" "dh_commutes toy_crypto" "x25519_32 toy_crypto"
proof -
  show "aead_exact toy_crypto"
    by (auto simp: aead_exact_def toy_crypto_def Let_def split: if_splits)
       (metis append_take_drop_id)
  show "dh_commutes toy_crypto"
    by (simp add: dh_commutes_def toy_crypto_def map2_plus_commute)
qed (simp_all add: aead_correct_def aead_total_def hmac_32_def hkdf_lengths_def x25519_32_def
      toy_crypto_def)

lemma toy_open_None:
  assumes "16 \<le> length c" "4 < length n" "c ! (length c - 16) \<noteq> n ! 4"
  shows "aead_open toy_crypto k n a c = None"
proof -
  have "drop (length c - 16) c ! 0 = c ! (length c - 16)"
    using assms(1) by simp
  moreover have "toy_tag k n a ! 0 = n ! 4"
    using assms(2) by (simp add: toy_tag_def pad_to_def nth_append)
  ultimately have "drop (length c - 16) c \<noteq> toy_tag k n a"
    using assms(3) by metis
  then show ?thesis
    by (simp add: toy_crypto_def Let_def)
qed

end
