(* ===== verification/Chacha.thy ===== *)
theory Chacha
  imports Crypto
begin

text \<open>
  The one-directional cipher of \<open>engine/src/crypto/chacha.rs\<close> behind the trait of
  \<open>engine/src/crypto/aead.rs\<close>: a nonce is the base IV with the frame counter xor-ed into
  its last eight bytes, the counter advances with every frame and is rolled back when a
  decryption fails.  The locale \<open>aead_packer\<close> is the trait's contract; from it follows that
  two streams that start in step stay in step.  Nonces of one direction never repeat.
\<close>

section \<open>Nonces\<close>

record nonce_state =
  ns_counter :: u64
  ns_base_iv :: bytes

definition nonce_state_new :: "bytes \<Rightarrow> nonce_state" where
  "nonce_state_new base_iv = \<lparr>ns_counter = 0, ns_base_iv = base_iv\<rparr>"

text \<open>The loop \<open>for i in 0..8 { iv[i + 4] ^= counter_bytes[i] }\<close>.\<close>

definition xor_counter :: "bytes \<Rightarrow> u64 \<Rightarrow> bytes" where
  "xor_counter base_iv counter =
     foldl (\<lambda>iv i. iv[i + 4 := (iv ! (i + 4)) XOR (be64 counter ! i)]) base_iv [0..<8]"

definition next_nonce :: "nonce_state \<Rightarrow> bytes \<times> nonce_state" where
  "next_nonce s =
     (xor_counter (ns_base_iv s) (ns_counter s), s\<lparr>ns_counter := ns_counter s + 1\<rparr>)"

text \<open>Dropping the state erases the IV.\<close>

definition nonce_state_drop :: "nonce_state \<Rightarrow> nonce_state" where
  "nonce_state_drop s = s\<lparr>ns_base_iv := replicate (length (ns_base_iv s)) 0\<rparr>"

section \<open>Streams\<close>

record chacha_stream =
  cs_key :: bytes
  cs_state :: nonce_state

definition chacha_stream_new :: "bytes \<Rightarrow> bytes \<Rightarrow> chacha_stream" where
  "chacha_stream_new key iv = \<lparr>cs_key = key, cs_state = nonce_state_new iv\<rparr>"

definition chacha_encrypt ::
  "crypto \<Rightarrow> chacha_stream \<Rightarrow> bytes \<Rightarrow> (unit, bytes) result \<times> chacha_stream" where
  "chacha_encrypt P s data =
     (let (nonce, st) = next_nonce (cs_state s);
          s' = s\<lparr>cs_state := st\<rparr>
      in case aead_seal P (cs_key s) nonce nonce data of
           Some c \<Rightarrow> (Ok c, s')
         | None \<Rightarrow> (Err (), s'))"

definition chacha_decrypt ::
  "crypto \<Rightarrow> chacha_stream \<Rightarrow> bytes \<Rightarrow> (unit, bytes) result \<times> chacha_stream" where
  "chacha_decrypt P s data =
     (let saved_counter = ns_counter (cs_state s);
          (nonce, st) = next_nonce (cs_state s);
          s' = s\<lparr>cs_state := st\<rparr>
      in case aead_open P (cs_key s) nonce nonce data of
           Some p \<Rightarrow> (Ok p, s')
         | None \<Rightarrow> (Err (), s'\<lparr>cs_state := st\<lparr>ns_counter := saved_counter\<rparr>\<rparr>))"

record chacha_cipher =
  cc_tx :: chacha_stream
  cc_rx :: chacha_stream

definition chacha_cipher_new :: chacha_cipher where
  "chacha_cipher_new =
     \<lparr>cc_tx = chacha_stream_new (replicate 32 0) (replicate 12 0),
      cc_rx = chacha_stream_new (replicate 32 0) (replicate 12 0)\<rparr>"

definition chacha_set_keys ::
  "chacha_cipher \<Rightarrow> bytes \<Rightarrow> bytes \<Rightarrow> bytes \<Rightarrow> bytes \<Rightarrow> chacha_cipher" where
  "chacha_set_keys c w_key w_iv r_key r_iv =
     c\<lparr>cc_tx := chacha_stream_new w_key w_iv, cc_rx := chacha_stream_new r_key r_iv\<rparr>"

definition chacha_split :: "chacha_cipher \<Rightarrow> chacha_stream \<times> chacha_stream" where
  "chacha_split c = (cc_rx c, cc_tx c)"

section \<open>The trait's contract\<close>

text \<open>Run one operation over a list of buffers, stopping at the first error.\<close>

fun run_all :: "('s \<Rightarrow> bytes \<Rightarrow> (unit, bytes) result \<times> 's) \<Rightarrow> 's \<Rightarrow> bytes list \<Rightarrow> (bytes list \<times> 's) option"
where
  "run_all f s [] = Some ([], s)"
| "run_all f s (x # xs) =
     (case f s x of
        (Ok y, s') \<Rightarrow> map_option (\<lambda>(ys, t). (y # ys, t)) (run_all f s' xs)
      | _ \<Rightarrow> None)"

locale aead_packer =
  fixes encrypt decrypt :: "'s \<Rightarrow> bytes \<Rightarrow> (unit, bytes) result \<times> 's"
    and in_sync :: "'s \<Rightarrow> 's \<Rightarrow> bool"
  assumes opens: "in_sync tx rx \<Longrightarrow> encrypt tx p = (Ok c, tx') \<Longrightarrow>
             \<exists>rx'. decrypt rx c = (Ok p, rx') \<and> in_sync tx' rx'"
    and overhead: "in_sync tx rx \<Longrightarrow> encrypt tx p = (Ok c, tx') \<Longrightarrow> length c = length p + 16"
    and rollback: "decrypt rx c = (Err e, rx') \<Longrightarrow> rx' = rx"
begin

lemma opens_all:
  "in_sync tx rx \<Longrightarrow> run_all encrypt tx ps = Some (cs, tx') \<Longrightarrow>
     \<exists>rx'. run_all decrypt rx cs = Some (ps, rx') \<and> in_sync tx' rx'"
proof (induction ps arbitrary: tx rx cs)
  case (Cons p ps)
  from Cons.prems(2) obtain c t cs0 where e: "encrypt tx p = (Ok c, t)"
    and r: "run_all encrypt t ps = Some (cs0, tx')" and cs: "cs = c # cs0"
    by (auto split: prod.splits result.splits)
  from opens [OF Cons.prems(1) e] obtain u where u: "decrypt rx c = (Ok p, u)" "in_sync t u"
    by blast
  from Cons.IH [OF u(2) r] u(1) show ?case
    by (auto simp: cs)
qed simp

text \<open>A rejected buffer does not disturb the stream: the next genuine one still opens.\<close>

lemma opens_after_reject:
  assumes "in_sync tx rx" "decrypt rx bad = (Err e, rx')" "encrypt tx p = (Ok c, tx')"
  shows "\<exists>rx''. decrypt rx' c = (Ok p, rx'') \<and> in_sync tx' rx''"
  using opens [OF assms(1,3)] rollback [OF assms(2)] by simp

end

definition stream_sync :: "crypto \<Rightarrow> chacha_stream \<Rightarrow> chacha_stream \<Rightarrow> bool" where
  "stream_sync P tx rx \<longleftrightarrow> aead_correct P \<and> tx = rx"

interpretation chacha: aead_packer "chacha_encrypt P" "chacha_decrypt P" "stream_sync P" for P
proof
  fix tx rx p c tx'
  assume S: "stream_sync P tx rx" and E: "chacha_encrypt P tx p = (Ok c, tx')"
  then show "\<exists>rx'. chacha_decrypt P rx c = (Ok p, rx') \<and> stream_sync P tx' rx'"
    by (auto simp: chacha_encrypt_def chacha_decrypt_def stream_sync_def split_beta Let_def
        dest: aead_correctD(1) split: option.splits)
  from S E show "length c = length p + 16"
    by (auto simp: chacha_encrypt_def stream_sync_def split_beta Let_def
        dest: aead_correctD(2) split: option.splits)
next
  fix rx c e rx'
  assume "chacha_decrypt P rx c = (Err e, rx')"
  then show "rx' = rx"
    by (auto simp: chacha_decrypt_def next_nonce_def Let_def split: option.splits)
qed

lemma chacha_encrypt_total:
  assumes "aead_total P" "length p < 64 * (2 ^ 32 - 1)"
  obtains c where "chacha_encrypt P s p = (Ok c, s\<lparr>cs_state := snd (next_nonce (cs_state s))\<rparr>)"
proof -
  obtain c where "aead_seal P (cs_key s) (fst (next_nonce (cs_state s))) (fst (next_nonce (cs_state s))) p
      = Some c"
    using assms by (rule aead_totalD)
  then show thesis
    using that by (simp add: chacha_encrypt_def split_beta Let_def)
qed

text \<open>Property C20 (stream_roundtrip): whatever sequence of buffers one side encrypts, a receiver
  with the same key, IV and counter decrypts to the same sequence and ends with the same
  counter.\<close>

theorem stream_roundtrip:
  assumes "aead_correct P" and "run_all (chacha_encrypt P) s ps = Some (cs, s')"
  shows "run_all (chacha_decrypt P) s cs = Some (ps, s')"
  using chacha.opens_all [of P s s ps cs s'] assms by (auto simp: stream_sync_def)

lemma stream_roundtrip_witness:
  "run_all (chacha_decrypt toy_crypto) (chacha_stream_new (replicate 32 5) (replicate 12 9))
     [[1, 2] @ toy_tag (replicate 32 5) (xor_counter (replicate 12 9) 0) (xor_counter (replicate 12 9) 0),
      [3] @ toy_tag (replicate 32 5) (xor_counter (replicate 12 9) 1) (xor_counter (replicate 12 9) 1)] =
   Some ([[1, 2], [3]], \<lparr>cs_key = replicate 32 5, cs_state = \<lparr>ns_counter = 2, ns_base_iv = replicate 12 9\<rparr>\<rparr>)"
  by (rule stream_roundtrip [OF toy_crypto_laws(1)])
     (simp add: chacha_encrypt_def toy_crypto_def chacha_stream_new_def nonce_state_new_def next_nonce_def)

text \<open>A buffer that fails authentication changes nothing in
  the receiving stream, so the genuine frame that was meant for this position still opens.\<close>

theorem reject_keeps_stream:
  assumes "aead_correct P" and "chacha_decrypt P s bad = (Err e, s1)"
    and "chacha_encrypt P s p = (Ok c, s2)"
  shows "s1 = s \<and> chacha_decrypt P s1 c = (Ok p, s2)"
  using chacha.opens_after_reject [of P s s bad e s1 p c s2] chacha.rollback [OF assms(2)] assms
  by (auto simp: stream_sync_def)

lemma reject_keeps_stream_witness:
  "chacha_stream_new (replicate 32 5) (replicate 12 9) = chacha_stream_new (replicate 32 5) (replicate 12 9) \<and>
   chacha_decrypt toy_crypto (chacha_stream_new (replicate 32 5) (replicate 12 9))
     ([7] @ toy_tag (replicate 32 5) (xor_counter (replicate 12 9) 0) (xor_counter (replicate 12 9) 0)) =
   (Ok [7], \<lparr>cs_key = replicate 32 5, cs_state = \<lparr>ns_counter = 1, ns_base_iv = replicate 12 9\<rparr>\<rparr>)"
  by (rule reject_keeps_stream [OF toy_crypto_laws(1), where bad = "[]" and e = "()"])
     (simp_all add: chacha_encrypt_def chacha_decrypt_def toy_crypto_def chacha_stream_new_def
       nonce_state_new_def next_nonce_def)

section \<open>Nonces never repeat\<close>

text \<open>The nonces of the first \<open>n\<close> frames of a direction.\<close>

fun nonce_trace :: "nat \<Rightarrow> nonce_state \<Rightarrow> bytes list" where
  "nonce_trace 0 s = []"
| "nonce_trace (Suc n) s = (case next_nonce s of (nonce, s') \<Rightarrow> nonce # nonce_trace n s')"

lemma xor_counter_layout:
  assumes "length iv = 12"
  shows "xor_counter iv c = take 4 iv @ map2 (XOR) (drop 4 iv) (be64 c)"
proof -
  obtain a b c1 d e f g h i j k l where "iv = [a, b, c1, d, e, f, g, h, i, j, k, l]"
    using assms by (auto simp: length_Suc_conv eval_nat_numeral)
  then show ?thesis
    by (simp add: xor_counter_def be64_def upt_rec)
qed

lemma map2_xor_cancel:
  "length xs = length ys \<Longrightarrow> map2 (XOR) (xs :: bytes) (map2 (XOR) xs ys) = ys"
  by (induction xs ys rule: list_induct2) (simp_all flip: xor.assoc)

lemma xor_counter_inj:
  assumes "length iv = 12" "xor_counter iv c = xor_counter iv d"
  shows "c = d"
proof -
  have cancel: "map2 (XOR) (drop 4 iv) (map2 (XOR) (drop 4 iv) (be64 x)) = be64 x" for x
    by (rule map2_xor_cancel) (simp add: assms(1))
  have "map2 (XOR) (drop 4 iv) (be64 c) = map2 (XOR) (drop 4 iv) (be64 d)"
    using assms by (simp add: xor_counter_layout)
  then have "be64 c = be64 d"
    by (metis cancel)
  then show ?thesis
    by simp
qed

lemma nonce_trace_map:
  "nonce_trace n s = map (\<lambda>i. xor_counter (ns_base_iv s) (ns_counter s + of_nat i)) [0..<n]"
proof (induction n arbitrary: s)
  case (Suc n)
  have "map f [0..<Suc n] = f 0 # map (\<lambda>i. f (Suc i)) [0..<n]" for f :: "nat \<Rightarrow> bytes"
    by (simp add: upt_conv_Cons map_Suc_upt [symmetric] del: upt_Suc)
  then show ?case
    by (simp add: Suc next_nonce_def ac_simps del: upt_Suc)
qed simp

lemma of_nat_u64_inj:
  "i < 2 ^ 64 \<Longrightarrow> j < 2 ^ 64 \<Longrightarrow> (of_nat i :: u64) = of_nat j \<longleftrightarrow> i = j"
  by (simp add: word_of_nat_eq_iff take_bit_nat_eq_self)

text \<open>Property C35 (nonces_distinct): with a 12-byte IV, no two of the first \<open>2^64\<close> frames of a
  direction use the same nonce.\<close>

theorem nonces_distinct:
  assumes "length iv = 12" and "n \<le> 2 ^ 64"
  shows "distinct (nonce_trace n (nonce_state_new iv))"
proof -
  have "inj_on (\<lambda>i. xor_counter iv (of_nat i)) (set [0..<n])"
  proof (rule inj_onI)
    fix i j
    assume "i \<in> set [0..<n]" "j \<in> set [0..<n]" "xor_counter iv (of_nat i) = xor_counter iv (of_nat j)"
    then have "(of_nat i :: u64) = of_nat j" "i < 2 ^ 64" "j < 2 ^ 64"
      using assms xor_counter_inj by auto
    then show "i = j"
      using of_nat_u64_inj by blast
  qed
  then show ?thesis
    by (simp add: nonce_trace_map nonce_state_new_def distinct_map)
qed

lemma nonces_distinct_witness:
  "distinct (nonce_trace 3 (nonce_state_new (replicate 12 7)))"
  by (rule nonces_distinct) simp_all

end
