(* ===== verification/Session_Auth.thy ===== *)
theory Session_Auth
  imports Crypto
begin

text \<open>
  The time-window tags of \<open>SessionAuth\<close> in \<open>engine/src/crypto/session.rs\<close> with the constants
  of \<open>engine/src/net_consts.rs\<close>.  The clock is an argument (\<open>now\<close>, in seconds).  The locale
  \<open>window_check\<close> is what both verifiers promise: they accept exactly the tags of the steps
  in the window; what follows about clock skew is proved once for both.
\<close>

section \<open>Constants and tags\<close>

definition auth_time_step :: nat where
  "auth_time_step = 60"

definition auth_window_size :: nat where
  "auth_window_size = 2"

definition protocol_version_nrxp :: u8 where
  "protocol_version_nrxp = 3"

definition protocol_version_anonymous :: u8 where
  "protocol_version_anonymous = 2"

definition min_version_for_static_dh :: u8 where
  "min_version_for_static_dh = 3"

lemma auth_consts [simp]:
  "auth_time_step = 60" "auth_window_size = 2" "protocol_version_nrxp = 3"
  "protocol_version_anonymous = 2" "min_version_for_static_dh = 3"
  by (simp_all add: auth_time_step_def auth_window_size_def protocol_version_nrxp_def
      protocol_version_anonymous_def min_version_for_static_dh_def)

text \<open>A clock before the epoch reads as 0 (\<open>unwrap_or_default\<close>).\<close>

definition now_unix_secs :: "u64 option \<Rightarrow> u64" where
  "now_unix_secs since_epoch = (case since_epoch of Some s \<Rightarrow> s | None \<Rightarrow> 0)"

record session_auth =
  sa_auth_key :: bytes

definition session_auth_new :: "bytes \<Rightarrow> session_auth" where
  "session_auth_new key = \<lparr>sa_auth_key = key\<rparr>"

definition compute_tag :: "crypto \<Rightarrow> bytes \<Rightarrow> u64 \<Rightarrow> bytes" where
  "compute_tag P secret step = take 16 (hmac_sha256 P secret (be64 step))"

definition current_step :: "u64 \<Rightarrow> u64" where
  "current_step now = now div of_nat auth_time_step"

definition generate_current_tag :: "crypto \<Rightarrow> session_auth \<Rightarrow> u64 \<Rightarrow> bytes" where
  "generate_current_tag P a now = compute_tag P (sa_auth_key a) (current_step now)"

text \<open>The ASCII bytes of a literal such as \<open>b"nrxp-handshake-v3"\<close>.\<close>

definition ascii :: "string \<Rightarrow> bytes" where
  "ascii s = map of_char s"

definition compute_handshake_tag :: "crypto \<Rightarrow> bytes \<Rightarrow> u64 \<Rightarrow> bytes \<Rightarrow> bytes \<Rightarrow> bytes" where
  "compute_handshake_tag P secret step random peer_public =
     take 16 (hmac_sha256 P secret
       (ascii ''nrxp-handshake-v3'' @ be64 step @ random @ peer_public))"

definition generate_handshake_tag ::
  "crypto \<Rightarrow> session_auth \<Rightarrow> u64 \<Rightarrow> bytes \<Rightarrow> bytes \<Rightarrow> bytes" where
  "generate_handshake_tag P a now random peer_public =
     compute_handshake_tag P (sa_auth_key a) (current_step now) random peer_public"

section \<open>The window and the two verifiers\<close>

text \<open>
  The steps of the loop \<open>step.saturating_sub(W) ..= step.saturating_add(W)\<close>.  The comparison
  \<open>ct_eq\<close> of the \<open>subtle\<close> crate is equality of the byte strings; the accumulation over all
  candidates is kept as the code has it.
\<close>

definition auth_window :: "u64 \<Rightarrow> u64 list" where
  "auth_window cur =
     map of_nat [unat cur - auth_window_size ..< Suc (min (unat cur + auth_window_size) (2 ^ 64 - 1))]"

definition verify_handshake_tag ::
  "crypto \<Rightarrow> session_auth \<Rightarrow> u64 \<Rightarrow> bytes \<Rightarrow> bytes \<Rightarrow> bytes \<Rightarrow> bool" where
  "verify_handshake_tag P a now received random peer_public =
     foldl (\<lambda>matched step.
         matched \<or> compute_handshake_tag P (sa_auth_key a) step random peer_public = received)
       False (auth_window (current_step now))"

datatype auth_event =
    AuthTimeOffset u64 u64
  | AuthMismatch u64

definition verify_tag ::
  "crypto \<Rightarrow> session_auth \<Rightarrow> u64 \<Rightarrow> bytes \<Rightarrow> bool \<times> auth_event option" where
  "verify_tag P a now received =
     (let cur = current_step now;
          (matched, matched_step) =
            foldl (\<lambda>(matched, matched_step) step.
                let eq = (compute_tag P (sa_auth_key a) step = received);
                    take_it = (eq \<and> \<not> matched)
                in (matched \<or> eq, if take_it then step else matched_step))
              (False, 0) (auth_window cur)
      in if matched
         then (True, if matched_step \<noteq> cur then Some (AuthTimeOffset cur matched_step) else None)
         else (False, Some (AuthMismatch cur)))"

section \<open>What the window contains\<close>

lemma unat_current_step: "unat (current_step now) = unat now div 60"
  by (simp add: current_step_def unat_div_distrib)

lemma current_step_bound: "unat (current_step now) + 2 < 2 ^ 64"
  using unsigned_less [where 'a = nat, of now] by (simp add: unat_current_step)

lemma auth_window_mem:
  assumes "unat cur + 2 < 2 ^ 64"
  shows "s \<in> set (auth_window cur) \<longleftrightarrow> unat cur \<le> unat s + 2 \<and> unat s \<le> unat cur + 2"
proof
  assume "s \<in> set (auth_window cur)"
  then obtain k where k: "s = of_nat k" "k \<in> set [unat cur - 2 ..< Suc (min (unat cur + 2) (2 ^ 64 - 1))]"
    unfolding auth_window_def set_map auth_consts by blast
  then have "unat cur - 2 \<le> k" "k \<le> unat cur + 2"
    unfolding set_upt atLeastLessThan_iff less_Suc_eq_le by linarith+
  moreover from this have "unat s = k"
    using assms k(1) by (simp add: unat_of_nat)
  ultimately show "unat cur \<le> unat s + 2 \<and> unat s \<le> unat cur + 2"
    by simp
next
  assume s: "unat cur \<le> unat s + 2 \<and> unat s \<le> unat cur + 2"
  then have "unat s \<in> set [unat cur - 2 ..< Suc (min (unat cur + 2) (2 ^ 64 - 1))]"
    using unsigned_less [where 'a = nat, of s] by auto
  then have "of_nat (unat s) \<in> set (auth_window cur)"
    unfolding auth_window_def set_map auth_consts by (rule imageI)
  then show "s \<in> set (auth_window cur)"
    by simp
qed

lemma length_auth_window:
  assumes "2 \<le> unat cur" "unat cur + 2 < 2 ^ 64"
  shows "length (auth_window cur) = 5"
  using assms by (simp add: auth_window_def)

lemma foldl_disj: "foldl (\<lambda>m x. m \<or> P x) b xs \<longleftrightarrow> b \<or> (\<exists>x. x \<in> set xs \<and> P x)"
  by (induction xs arbitrary: b) auto

text \<open>The accumulated pair: whether some candidate matched, and the first one that did.\<close>

definition first_match :: "('a \<Rightarrow> bool) \<Rightarrow> 'a list \<Rightarrow> 'a option" where
  "first_match P xs = List.find P xs"

lemma foldl_first_match:
  "foldl (\<lambda>(m, k) x. (m \<or> P x, if P x \<and> \<not> m then x else k)) (m, k) xs =
     (if m then (True, k)
      else case List.find P xs of None \<Rightarrow> (False, k) | Some x \<Rightarrow> (True, x))"
  by (induction xs arbitrary: m k) auto

lemma verify_tag_find:
  "verify_tag P a now received =
     (case List.find (\<lambda>s. compute_tag P (sa_auth_key a) s = received) (auth_window (current_step now)) of
        None \<Rightarrow> (False, Some (AuthMismatch (current_step now)))
      | Some s \<Rightarrow> (True, if s \<noteq> current_step now then Some (AuthTimeOffset (current_step now) s) else None))"
  using foldl_first_match [of "\<lambda>s. compute_tag P (sa_auth_key a) s = received" False 0
      "auth_window (current_step now)"]
  by (auto simp: verify_tag_def Let_def split: option.splits)

section \<open>The contract of a window check\<close>

locale window_check =
  fixes tag :: "u64 \<Rightarrow> bytes"
    and check :: "u64 \<Rightarrow> bytes \<Rightarrow> bool"
  assumes check_iff: "check now t \<longleftrightarrow> (\<exists>s. s \<in> set (auth_window (current_step now)) \<and> tag s = t)"
begin

lemma accepts_window:
  "check now t \<longleftrightarrow>
     (\<exists>s. unat now div 60 \<le> unat s + 2 \<and> unat s \<le> unat now div 60 + 2 \<and> t = tag s)"
  using auth_window_mem [OF current_step_bound, of _ now]
  by (auto simp: check_iff unat_current_step)

text \<open>Clocks that are at most two minutes apart never reject each other.\<close>

lemma accepts_skew:
  assumes "unat sent \<le> unat now + 120" "unat now \<le> unat sent + 120"
  shows "check now (tag (current_step sent))"
proof -
  have "unat now div 60 \<le> (unat sent + 120) div 60" "unat sent div 60 \<le> (unat now + 120) div 60"
    using assms by (simp_all only: div_le_mono)
  then have "unat now div 60 \<le> unat (current_step sent) + 2"
    "unat (current_step sent) \<le> unat now div 60 + 2"
    by (simp_all add: unat_current_step)
  then show ?thesis
    by (auto simp: accepts_window)
qed

text \<open>A tag from more than three minutes away is only accepted if it collides with one inside.\<close>

lemma rejects_stale:
  assumes "unat now + 180 \<le> unat sent \<or> unat sent + 180 \<le> unat now"
    and "check now (tag (current_step sent))"
  shows "\<exists>s. s \<noteq> current_step sent \<and> tag s = tag (current_step sent)"
proof -
  obtain s where s: "unat now div 60 \<le> unat s + 2" "unat s \<le> unat now div 60 + 2"
    "tag s = tag (current_step sent)"
    using assms(2) by (auto simp: accepts_window)
  have "(unat now + 180) div 60 \<le> unat sent div 60 \<or> (unat sent + 180) div 60 \<le> unat now div 60"
    using assms(1) by (auto simp only: div_le_mono)
  with s(1,2) have "unat s \<noteq> unat (current_step sent)"
    by (auto simp: unat_current_step)
  then have "s \<noteq> current_step sent"
    by blast
  with s(3) show ?thesis
    by blast
qed

end

interpretation frame_tag: window_check "compute_tag P (sa_auth_key a)" "\<lambda>now t. fst (verify_tag P a now t)" for P a
proof
  fix now t
  show "fst (verify_tag P a now t) \<longleftrightarrow>
      (\<exists>s. s \<in> set (auth_window (current_step now)) \<and> compute_tag P (sa_auth_key a) s = t)"
    by (auto simp: verify_tag_find find_Some_iff find_None_iff in_set_conv_nth split: option.splits)
qed

interpretation hello_tag:
  window_check "\<lambda>s. compute_handshake_tag P (sa_auth_key a) s random pub"
    "\<lambda>now t. verify_handshake_tag P a now t random pub" for P a random pub
  by unfold_locales (auto simp: verify_handshake_tag_def foldl_disj)

section \<open>Properties\<close>

text \<open>Property C27 (verify_tag_window): a frame tag is accepted exactly when it is the tag of one of
  the steps at most two away from the current one; the loop over all candidates, with its
  accumulator, loses none and adds none.\<close>

theorem verify_tag_window:
  "fst (verify_tag P a now t) \<longleftrightarrow>
     (\<exists>s. unat now div 60 \<le> unat s + 2 \<and> unat s \<le> unat now div 60 + 2 \<and>
        t = compute_tag P (sa_auth_key a) s)"
  by (rule frame_tag.accepts_window)

text \<open>The tag a client puts into its hello is accepted by a node
  with the same key whose clock is at most two minutes off, for the same random and key
  share.\<close>

theorem handshake_tag_skew:
  assumes "unat sent \<le> unat now + 120" and "unat now \<le> unat sent + 120"
  shows "verify_handshake_tag P a now (generate_handshake_tag P a sent random pub) random pub"
  unfolding generate_handshake_tag_def using assms by (rule hello_tag.accepts_skew)

lemma handshake_tag_skew_witness:
  "verify_handshake_tag toy_crypto \<lparr>sa_auth_key = [1, 2]\<rparr> 1000
     (generate_handshake_tag toy_crypto \<lparr>sa_auth_key = [1, 2]\<rparr> 1100 [3] [4]) [3] [4]"
  by (rule handshake_tag_skew) simp_all

text \<open>A hello tag made three minutes or more away from the node's
  clock is refused, unless the truncated HMAC gives the same tag for another step.\<close>

theorem handshake_tag_stale:
  assumes "unat now + 180 \<le> unat sent \<or> unat sent + 180 \<le> unat now"
    and "\<And>s. compute_handshake_tag P (sa_auth_key a) s random pub =
               generate_handshake_tag P a sent random pub \<Longrightarrow> s = current_step sent"
  shows "\<not> verify_handshake_tag P a now (generate_handshake_tag P a sent random pub) random pub"
  using hello_tag.rejects_stale [OF assms(1), of P a random pub] assms(2)
  unfolding generate_handshake_tag_def by blast

lemma toy_handshake_tag_inj:
  "compute_handshake_tag (toy_crypto\<lparr>hmac_sha256 := \<lambda>k m. drop 17 m @ replicate 24 0\<rparr>) k s [] [] =
   compute_handshake_tag (toy_crypto\<lparr>hmac_sha256 := \<lambda>k m. drop 17 m @ replicate 24 0\<rparr>) k t [] [] \<Longrightarrow> s = t"
  by (simp add: compute_handshake_tag_def ascii_def)

lemma handshake_tag_stale_witness:
  "\<not> verify_handshake_tag (toy_crypto\<lparr>hmac_sha256 := \<lambda>k m. drop 17 m @ replicate 24 0\<rparr>)
     \<lparr>sa_auth_key = [1]\<rparr> 1000
     (generate_handshake_tag (toy_crypto\<lparr>hmac_sha256 := \<lambda>k m. drop 17 m @ replicate 24 0\<rparr>)
        \<lparr>sa_auth_key = [1]\<rparr> 1180 [] []) [] []"
proof (rule handshake_tag_stale)
  show "unat (1000 :: u64) + 180 \<le> unat (1180 :: u64) \<or> unat (1180 :: u64) + 180 \<le> unat (1000 :: u64)"
    by simp
qed (auto simp: generate_handshake_tag_def dest: toy_handshake_tag_inj)

end
