(* ===== verification/Datagram_Keys.thy ===== *)
theory Datagram_Keys
  imports Session_Auth
begin

text \<open>
  Key expansion (\<open>engine/src/crypto/hkdf.rs\<close>) and the key material of the datagram leg
  (\<open>engine/src/crypto/datagram_keys.rs\<close>): one one-way chain per direction.  The locale
  \<open>ratchet\<close> is what the datagram engine relies on: peeking at the next epoch shows exactly
  what advancing will produce.  \<open>None\<close> stands for a failed \<open>expect\<close>; the lemmas show that it
  never happens on 32-byte chains.
\<close>

section \<open>HKDF\<close>

text \<open>The state of the expander is its 32-byte pseudo-random key.\<close>

definition extract_key :: "crypto \<Rightarrow> bytes \<Rightarrow> bytes \<Rightarrow> bytes \<times> bytes" where
  "extract_key P salt ikm = (let prk = hkdf_extract P salt ikm in (prk, prk))"

text \<open>\<open>Hkdf::from_prk\<close> refuses a key shorter than the hash.\<close>

definition hkdf_from_prk :: "bytes \<Rightarrow> bytes option" where
  "hkdf_from_prk prk = (if 32 \<le> length prk then Some prk else None)"

definition expand_key :: "crypto \<Rightarrow> nat \<Rightarrow> bytes \<Rightarrow> bytes \<Rightarrow> (string, bytes) result" where
  "expand_key P n extracted_key mark =
     (case hkdf_expand P extracted_key mark n of
        Some okm \<Rightarrow> Ok okm
      | None \<Rightarrow> Err ''invalid number of blocks, too large output'')"

definition expect :: "('e, 'a) result \<Rightarrow> 'a option" where
  "expect r = (case r of Ok x \<Rightarrow> Some x | _ \<Rightarrow> None)"

lemma hkdf_sizes: "(32::nat) \<le> 255 * 32" "(12::nat) \<le> 255 * 32" "(16::nat) \<le> 255 * 32"
  by simp_all

lemma expand_key_ok:
  assumes "hkdf_lengths P" "n \<le> 255 * 32"
  obtains okm where "expand_key P n prk mark = Ok okm" "expect (expand_key P n prk mark) = Some okm"
    "length okm = n"
  using assms
proof (rule hkdf_expand_Some [where prk = prk and info = mark])
  fix okm
  assume "hkdf_expand P prk mark n = Some okm" "length okm = n"
  then show thesis
    using that by (simp add: expand_key_def expect_def)
qed

section \<open>The ratchet of one direction\<close>

record epoch_keys =
  ek_epoch_id :: u8
  ek_key :: bytes
  ek_salt :: bytes

record key_ratchet =
  kr_chain :: bytes
  kr_epoch_id :: u8

definition ratchet_from_root :: "bytes \<Rightarrow> key_ratchet" where
  "ratchet_from_root chain0 = \<lparr>kr_chain = chain0, kr_epoch_id = 0\<rparr>"

definition derive_epoch :: "crypto \<Rightarrow> bytes \<Rightarrow> u8 \<Rightarrow> epoch_keys option" where
  "derive_epoch P chain epoch_id =
     Option.bind (hkdf_from_prk chain) (\<lambda>hk.
     Option.bind (expect (expand_key P 32 hk (ascii ''dgram-epoch-key''))) (\<lambda>key.
     Option.bind (expect (expand_key P 12 hk (ascii ''dgram-epoch-salt''))) (\<lambda>salt.
       Some \<lparr>ek_epoch_id = epoch_id, ek_key = key, ek_salt = salt\<rparr>)))"

definition step_chain :: "crypto \<Rightarrow> bytes \<Rightarrow> bytes option" where
  "step_chain P chain =
     Option.bind (hkdf_from_prk chain) (\<lambda>hk. expect (expand_key P 32 hk (ascii ''dgram-epoch-next'')))"

definition ratchet_current :: "crypto \<Rightarrow> key_ratchet \<Rightarrow> epoch_keys option" where
  "ratchet_current P r = derive_epoch P (kr_chain r) (kr_epoch_id r)"

definition ratchet_peek_next :: "crypto \<Rightarrow> key_ratchet \<Rightarrow> epoch_keys option" where
  "ratchet_peek_next P r =
     Option.bind (step_chain P (kr_chain r)) (\<lambda>next_chain. derive_epoch P next_chain (kr_epoch_id r + 1))"

definition ratchet_advance :: "crypto \<Rightarrow> key_ratchet \<Rightarrow> (epoch_keys \<times> key_ratchet) option" where
  "ratchet_advance P r =
     Option.bind (step_chain P (kr_chain r)) (\<lambda>next_chain.
       let r' = r\<lparr>kr_epoch_id := kr_epoch_id r + 1, kr_chain := next_chain\<rparr>
       in map_option (\<lambda>k. (k, r')) (ratchet_current P r'))"

section \<open>The contract of a ratchet\<close>

locale ratchet =
  fixes inv :: "'s \<Rightarrow> bool"
    and epoch :: "'s \<Rightarrow> u8"
    and current peek_next :: "'s \<Rightarrow> 'k option"
    and advance :: "'s \<Rightarrow> ('k \<times> 's) option"
    and key_epoch :: "'k \<Rightarrow> u8"
  assumes current_ok: "inv s \<Longrightarrow> \<exists>k. current s = Some k \<and> key_epoch k = epoch s"
    and advance_ok: "inv s \<Longrightarrow> \<exists>k s'. advance s = Some (k, s') \<and> inv s' \<and> current s' = Some k \<and>
           epoch s' = epoch s + 1"
    and peek_ok: "inv s \<Longrightarrow> peek_next s = map_option fst (advance s)"
begin

fun advance_n :: "nat \<Rightarrow> 's \<Rightarrow> 's option" where
  "advance_n 0 s = Some s"
| "advance_n (Suc n) s = Option.bind (advance s) (\<lambda>(k, s'). advance_n n s')"

lemma advance_n_ok:
  "inv s \<Longrightarrow> \<exists>s'. advance_n n s = Some s' \<and> inv s' \<and> epoch s' = epoch s + of_nat n"
proof (induction n arbitrary: s)
  case (Suc n)
  from advance_ok [OF Suc.prems] obtain k t where t: "advance s = Some (k, t)" "inv t"
    "epoch t = epoch s + 1"
    by blast
  with Suc.IH [of t] show ?case
    by (auto simp: add.assoc)
qed simp

lemma advance_n_keys:
  assumes "inv s"
  shows "\<exists>s' k. advance_n n s = Some s' \<and> current s' = Some k \<and> key_epoch k = epoch s + of_nat n"
  using advance_n_ok [OF assms, of n] current_ok by metis

lemma peek_then_advance:
  assumes "inv s"
  shows "\<exists>k s'. peek_next s = Some k \<and> advance s = Some (k, s') \<and> current s' = Some k \<and>
    key_epoch k = epoch s + 1 \<and> inv s'"
  using advance_ok [OF assms] peek_ok [OF assms] current_ok by force

end

definition ratchet_wf :: "crypto \<Rightarrow> key_ratchet \<Rightarrow> bool" where
  "ratchet_wf P r \<longleftrightarrow> hkdf_lengths P \<and> length (kr_chain r) = 32"

definition keys_wf :: "epoch_keys \<Rightarrow> bool" where
  "keys_wf k \<longleftrightarrow> length (ek_key k) = 32 \<and> length (ek_salt k) = 12"

lemma derive_epoch_ok:
  assumes "hkdf_lengths P" "length chain = 32"
  obtains k where "derive_epoch P chain e = Some k" "ek_epoch_id k = e" "keys_wf k"
proof -
  obtain key where key: "expect (expand_key P 32 chain (ascii ''dgram-epoch-key'')) = Some key" "length key = 32"
    by (rule expand_key_ok [OF assms(1) hkdf_sizes(1)])
  obtain salt where "expect (expand_key P 12 chain (ascii ''dgram-epoch-salt'')) = Some salt" "length salt = 12"
    by (rule expand_key_ok [OF assms(1) hkdf_sizes(2)])
  with key that assms(2) show thesis
    by (simp add: derive_epoch_def hkdf_from_prk_def keys_wf_def)
qed

lemma step_chain_ok:
  assumes "hkdf_lengths P" "length chain = 32"
  obtains c where "step_chain P chain = Some c" "length c = 32"
proof -
  obtain c where "expect (expand_key P 32 chain (ascii ''dgram-epoch-next'')) = Some c" "length c = 32"
    by (rule expand_key_ok [OF assms(1) hkdf_sizes(1)])
  with that assms(2) show thesis
    by (simp add: step_chain_def hkdf_from_prk_def)
qed

interpretation key_chain:
  ratchet "ratchet_wf P" kr_epoch_id "ratchet_current P" "ratchet_peek_next P" "ratchet_advance P" ek_epoch_id for P
proof
  fix r
  assume wf: "ratchet_wf P r"
  then show "\<exists>k. ratchet_current P r = Some k \<and> ek_epoch_id k = kr_epoch_id r"
    using derive_epoch_ok [of P "kr_chain r" "kr_epoch_id r"]
    unfolding ratchet_wf_def ratchet_current_def by metis
  obtain c where c: "step_chain P (kr_chain r) = Some c" "length c = 32"
    using wf step_chain_ok unfolding ratchet_wf_def by blast
  obtain k where k: "derive_epoch P c (kr_epoch_id r + 1) = Some k"
    using wf c(2) derive_epoch_ok unfolding ratchet_wf_def by blast
  from c k wf show "\<exists>k s'. ratchet_advance P r = Some (k, s') \<and> ratchet_wf P s' \<and>
      ratchet_current P s' = Some k \<and> kr_epoch_id s' = kr_epoch_id r + 1"
    by (simp add: ratchet_advance_def ratchet_current_def ratchet_wf_def)
  from c k show "ratchet_peek_next P r = map_option fst (ratchet_advance P r)"
    by (simp add: ratchet_peek_next_def ratchet_advance_def ratchet_current_def)
qed

section \<open>The material of a leg\<close>

record dgram_keys =
  dk_leg_token :: bytes
  dk_tx :: key_ratchet
  dk_rx :: key_ratchet
  dk_hp_key_tx :: bytes
  dk_hp_key_rx :: bytes

definition derive_from_root :: "crypto \<Rightarrow> bytes \<Rightarrow> bool \<Rightarrow> dgram_keys option" where
  "derive_from_root P root is_initiator =
     Option.bind (hkdf_from_prk root) (\<lambda>hk.
     Option.bind (expect (expand_key P 16 hk (ascii ''dgram-leg-token''))) (\<lambda>leg_token.
     Option.bind (expect (expand_key P 32 hk (ascii ''dgram-chain-c2s''))) (\<lambda>c2s0.
     Option.bind (expect (expand_key P 32 hk (ascii ''dgram-chain-s2c''))) (\<lambda>s2c0.
     Option.bind (expect (expand_key P 32 hk (ascii ''dgram-hp-c2s''))) (\<lambda>hp_c2s.
     Option.bind (expect (expand_key P 32 hk (ascii ''dgram-hp-s2c''))) (\<lambda>hp_s2c.
       let (tx0, rx0) = (if is_initiator then (c2s0, s2c0) else (s2c0, c2s0));
           (hp_tx, hp_rx) = (if is_initiator then (hp_c2s, hp_s2c) else (hp_s2c, hp_c2s))
       in Some \<lparr>dk_leg_token = leg_token, dk_tx = ratchet_from_root tx0, dk_rx = ratchet_from_root rx0,
                dk_hp_key_tx = hp_tx, dk_hp_key_rx = hp_rx\<rparr>))))))"

definition tx_epoch_id :: "dgram_keys \<Rightarrow> u8" where
  "tx_epoch_id m = kr_epoch_id (dk_tx m)"

definition tx_current :: "crypto \<Rightarrow> dgram_keys \<Rightarrow> epoch_keys option" where
  "tx_current P m = ratchet_current P (dk_tx m)"

definition tx_advance :: "crypto \<Rightarrow> dgram_keys \<Rightarrow> (epoch_keys \<times> dgram_keys) option" where
  "tx_advance P m = map_option (\<lambda>(k, r). (k, m\<lparr>dk_tx := r\<rparr>)) (ratchet_advance P (dk_tx m))"

definition rx_epoch_id :: "dgram_keys \<Rightarrow> u8" where
  "rx_epoch_id m = kr_epoch_id (dk_rx m)"

definition rx_current :: "crypto \<Rightarrow> dgram_keys \<Rightarrow> epoch_keys option" where
  "rx_current P m = ratchet_current P (dk_rx m)"

definition rx_peek_next :: "crypto \<Rightarrow> dgram_keys \<Rightarrow> epoch_keys option" where
  "rx_peek_next P m = ratchet_peek_next P (dk_rx m)"

definition rx_advance :: "crypto \<Rightarrow> dgram_keys \<Rightarrow> (epoch_keys \<times> dgram_keys) option" where
  "rx_advance P m = map_option (\<lambda>(k, r). (k, m\<lparr>dk_rx := r\<rparr>)) (ratchet_advance P (dk_rx m))"

definition dgram_keys_wf :: "crypto \<Rightarrow> dgram_keys \<Rightarrow> bool" where
  "dgram_keys_wf P m \<longleftrightarrow> ratchet_wf P (dk_tx m) \<and> ratchet_wf P (dk_rx m)"

lemma derive_from_root_parts:
  assumes "hkdf_lengths P" "length root = 32"
  obtains token c2s s2c hp_c hp_s where
    "\<And>i. derive_from_root P root i =
       Some \<lparr>dk_leg_token = token,
             dk_tx = ratchet_from_root (if i then c2s else s2c), dk_rx = ratchet_from_root (if i then s2c else c2s),
             dk_hp_key_tx = (if i then hp_c else hp_s), dk_hp_key_rx = (if i then hp_s else hp_c)\<rparr>"
    "length token = 16" "length c2s = 32" "length s2c = 32" "length hp_c = 32" "length hp_s = 32"
proof -
  have hk: "hkdf_from_prk root = Some root"
    using assms(2) by (simp add: hkdf_from_prk_def)
  have e: "\<exists>okm. expect (expand_key P n root mark) = Some okm \<and> length okm = n" if "n \<le> 255 * 32" for n mark
    using expand_key_ok [OF assms(1) that] by metis
  obtain token where 1: "expect (expand_key P 16 root (ascii ''dgram-leg-token'')) = Some token" "length token = 16"
    using e [of 16] by force
  obtain c2s where 2: "expect (expand_key P 32 root (ascii ''dgram-chain-c2s'')) = Some c2s" "length c2s = 32"
    using e [of 32] by force
  obtain s2c where 3: "expect (expand_key P 32 root (ascii ''dgram-chain-s2c'')) = Some s2c" "length s2c = 32"
    using e [of 32] by force
  obtain hp_c where 4: "expect (expand_key P 32 root (ascii ''dgram-hp-c2s'')) = Some hp_c" "length hp_c = 32"
    using e [of 32] by force
  obtain hp_s where 5: "expect (expand_key P 32 root (ascii ''dgram-hp-s2c'')) = Some hp_s" "length hp_s = 32"
    using e [of 32] by force
  show thesis
    by (rule that [of token c2s s2c hp_c hp_s]) (use hk 1 2 3 4 5 in \<open>simp_all add: derive_from_root_def\<close>)
qed

text \<open>From the same root both roles derive their material without
  failing; the leg token is the same, what one side sends with the other receives with, in
  both directions, and both chains are 32 bytes long.\<close>

lemma root_mirrored:
  assumes "hkdf_lengths P" and "length root = 32"
  shows "\<exists>c s. derive_from_root P root True = Some c \<and> derive_from_root P root False = Some s \<and>
    dk_leg_token c = dk_leg_token s \<and> length (dk_leg_token c) = 16 \<and>
    dk_tx c = dk_rx s \<and> dk_rx c = dk_tx s \<and>
    dk_hp_key_tx c = dk_hp_key_rx s \<and> dk_hp_key_rx c = dk_hp_key_tx s \<and>
    dgram_keys_wf P c \<and> dgram_keys_wf P s"
  using assms
  by (rule derive_from_root_parts)
     (simp add: assms(1) dgram_keys_wf_def ratchet_wf_def ratchet_from_root_def)

text \<open>The keys the receiver peeks at are exactly the keys it has after
  advancing, for the epoch one further; neither step can fail, and the material stays well
  formed.\<close>

theorem peek_is_next:
  assumes "dgram_keys_wf P m"
  shows "\<exists>k m'. rx_peek_next P m = Some k \<and> rx_advance P m = Some (k, m') \<and> rx_current P m' = Some k \<and>
    ek_epoch_id k = rx_epoch_id m + 1 \<and> dk_tx m' = dk_tx m \<and> dgram_keys_wf P m'"
proof -
  obtain k r where *: "ratchet_peek_next P (dk_rx m) = Some k" "ratchet_advance P (dk_rx m) = Some (k, r)"
    "ratchet_current P r = Some k" "ek_epoch_id k = kr_epoch_id (dk_rx m) + 1" "ratchet_wf P r"
    using key_chain.peek_then_advance [of P "dk_rx m"] assms unfolding dgram_keys_wf_def by blast
  then show ?thesis
    using assms
    by (intro exI [of _ k] exI [of _ "m\<lparr>dk_rx := r\<rparr>"])
       (simp add: rx_peek_next_def rx_advance_def rx_current_def rx_epoch_id_def dgram_keys_wf_def)
qed

definition demo_keys :: dgram_keys where
  "demo_keys = \<lparr>dk_leg_token = replicate 16 0, dk_tx = ratchet_from_root (replicate 32 1),
     dk_rx = ratchet_from_root (replicate 32 2), dk_hp_key_tx = [], dk_hp_key_rx = []\<rparr>"

lemma demo_keys_wf: "dgram_keys_wf toy_crypto demo_keys"
  by (simp add: demo_keys_def dgram_keys_wf_def ratchet_wf_def ratchet_from_root_def toy_crypto_laws)

lemma peek_is_next_witness:
  "\<exists>k m'. rx_peek_next toy_crypto demo_keys = Some k \<and> rx_advance toy_crypto demo_keys = Some (k, m') \<and>
    rx_current toy_crypto m' = Some k \<and> ek_epoch_id k = rx_epoch_id demo_keys + 1 \<and>
    dk_tx m' = dk_tx demo_keys \<and> dgram_keys_wf toy_crypto m'"
  by (rule peek_is_next [OF demo_keys_wf])

end
