(* ===== verification/Wire_Types.thy ===== *)
theory Wire_Types
  imports Errors
begin

text \<open>
  The TLS wire constants and enumerations of \<open>engine/src/tlseng/types.rs\<close> and
  \<open>consts.rs\<close>, and the 24-bit integer of \<open>engine/src/utils/u24.rs\<close>.  The lemmas show
  that every code is read back as the value it was written from, and which ids are GREASE.
\<close>

section \<open>Record, version and hello types\<close>

datatype content_type = ChangeCipherSpec | Handshake | ApplicationData | Alert

fun content_type_code :: "content_type \<Rightarrow> u8" where
  "content_type_code ChangeCipherSpec = 0x14"
| "content_type_code Handshake = 0x16"
| "content_type_code ApplicationData = 0x17"
| "content_type_code Alert = 0x15"

definition content_type_try_from :: "u8 \<Rightarrow> (string, content_type) result" where
  "content_type_try_from value =
     (if value = 0x14 then Ok ChangeCipherSpec
      else if value = 0x16 then Ok Handshake
      else if value = 0x17 then Ok ApplicationData
      else if value = 0x15 then Ok Alert
      else Err ''This is not ContentType'')"

datatype protocol_version = Tls10 | Tls12 | Tls13

fun protocol_version_code :: "protocol_version \<Rightarrow> u16" where
  "protocol_version_code Tls10 = 0x0301"
| "protocol_version_code Tls12 = 0x0303"
| "protocol_version_code Tls13 = 0x0304"

definition protocol_version_try_from :: "u16 \<Rightarrow> (string, protocol_version) result" where
  "protocol_version_try_from value =
     (if value = 0x0301 then Ok Tls10
      else if value = 0x0303 then Ok Tls12
      else if value = 0x0304 then Ok Tls13
      else Err ''This is not Protocol Version'')"

datatype hello_type = HelloClient | HelloServer

fun hello_type_code :: "hello_type \<Rightarrow> u8" where
  "hello_type_code HelloClient = 0x01"
| "hello_type_code HelloServer = 0x02"

definition hello_type_try_from :: "u8 \<Rightarrow> (string, hello_type) result" where
  "hello_type_try_from value =
     (if value = 0x01 then Ok HelloClient
      else if value = 0x02 then Ok HelloServer
      else Err ''This is not Hello header'')"

lemma content_type_try_from_code [simp]: "content_type_try_from (content_type_code t) = Ok t"
  by (cases t) (simp_all add: content_type_try_from_def)

lemma content_type_try_from_Ok: "content_type_try_from b = Ok t \<Longrightarrow> b = content_type_code t"
  by (auto simp: content_type_try_from_def split: if_splits)

lemma content_type_code_inj [simp]: "content_type_code a = content_type_code b \<longleftrightarrow> a = b"
  by (metis content_type_try_from_code result.inject(1))

lemma protocol_version_try_from_code [simp]:
  "protocol_version_try_from (protocol_version_code v) = Ok v"
  by (cases v) (simp_all add: protocol_version_try_from_def)

lemma protocol_version_try_from_Ok:
  "protocol_version_try_from w = Ok v \<Longrightarrow> w = protocol_version_code v"
  by (auto simp: protocol_version_try_from_def split: if_splits)

lemma hello_type_try_from_code [simp]: "hello_type_try_from (hello_type_code t) = Ok t"
  by (cases t) (simp_all add: hello_type_try_from_def)

lemma try_from_not_panic [simp]:
  "content_type_try_from b \<noteq> Panic" "protocol_version_try_from w \<noteq> Panic"
  "hello_type_try_from b \<noteq> Panic"
  by (simp_all add: content_type_try_from_def protocol_version_try_from_def hello_type_try_from_def)

section \<open>Fixed constants\<close>

definition handshake_type_client_hello :: u8 where "handshake_type_client_hello = 0x01"
definition handshake_type_server_hello :: u8 where "handshake_type_server_hello = 0x02"
definition type_host_name :: u8 where "type_host_name = 0x00"
definition psk_dhe_ke_mode :: u8 where "psk_dhe_ke_mode = 0x01"
definition cert_compression_brotli :: u16 where "cert_compression_brotli = 0x0002"
definition ocsp_status_type :: u8 where "ocsp_status_type = 0x01"

lemmas tls_const_defs = handshake_type_client_hello_def handshake_type_server_hello_def
  type_host_name_def psk_dhe_ke_mode_def cert_compression_brotli_def ocsp_status_type_def

section \<open>Groups, signatures and versions\<close>

definition group_x25519 :: u16 where "group_x25519 = 0x001d"
definition group_secp256r1 :: u16 where "group_secp256r1 = 0x0017"
definition group_secp384r1 :: u16 where "group_secp384r1 = 0x0018"
definition group_secp521r1 :: u16 where "group_secp521r1 = 0x0019"
definition group_x25519_mlkem768 :: u16 where "group_x25519_mlkem768 = 0x11ec"

lemmas group_defs = group_x25519_def group_secp256r1_def group_secp384r1_def
  group_secp521r1_def group_x25519_mlkem768_def

text \<open>\<open>TlsGroups\<close>: the group sets the profiles refer to.\<close>

definition groups_chromium :: "u16 list" where
  "groups_chromium = [group_x25519, group_secp256r1]"
definition groups_chromium_pq :: "u16 list" where
  "groups_chromium_pq = [group_x25519_mlkem768, group_x25519]"
definition groups_modern :: "u16 list" where
  "groups_modern = [group_x25519, group_secp256r1]"
definition groups_firefox :: "u16 list" where
  "groups_firefox = [group_x25519, group_secp256r1, group_secp521r1]"
definition groups_safari :: "u16 list" where
  "groups_safari = [group_x25519, group_secp256r1]"

definition sig_ecdsa_secp256r1_sha256 :: u16 where "sig_ecdsa_secp256r1_sha256 = 0x0403"
definition sig_rsa_pss_rsae_sha256 :: u16 where "sig_rsa_pss_rsae_sha256 = 0x0804"
definition sig_rsa_pkcs1_sha256 :: u16 where "sig_rsa_pkcs1_sha256 = 0x0401"
definition sig_ecdsa_secp384r1_sha384 :: u16 where "sig_ecdsa_secp384r1_sha384 = 0x0503"
definition sig_rsa_pss_rsae_sha384 :: u16 where "sig_rsa_pss_rsae_sha384 = 0x0805"
definition sig_rsa_pkcs1_sha384 :: u16 where "sig_rsa_pkcs1_sha384 = 0x0501"
definition sig_rsa_pss_rsae_sha512 :: u16 where "sig_rsa_pss_rsae_sha512 = 0x0806"
definition sig_mldsa44 :: u16 where "sig_mldsa44 = 0x0904"

definition signatures_chrome_pq :: "u16 list" where
  "signatures_chrome_pq = [sig_mldsa44, sig_ecdsa_secp256r1_sha256, sig_rsa_pss_rsae_sha256]"

definition signatures_browser_standard :: "u16 list" where
  "signatures_browser_standard =
     [sig_ecdsa_secp256r1_sha256, sig_rsa_pss_rsae_sha256, sig_rsa_pkcs1_sha256,
      sig_ecdsa_secp384r1_sha384, sig_rsa_pss_rsae_sha384, sig_rsa_pkcs1_sha384,
      sig_rsa_pss_rsae_sha512]"

definition version_tls_1_3 :: u16 where "version_tls_1_3 = 0x0304"
definition version_tls_1_2 :: u16 where "version_tls_1_2 = 0x0303"
definition versions_tls_13_only :: "u16 list" where "versions_tls_13_only = [version_tls_1_3]"
definition versions_modern :: "u16 list" where "versions_modern = [version_tls_1_3, version_tls_1_2]"

definition tls_versions_max :: "u16 list \<Rightarrow> protocol_version" where
  "tls_versions_max vs =
     (if version_tls_1_3 \<in> set vs then Tls13
      else if version_tls_1_2 \<in> set vs then Tls12
      else Tls10)"

text \<open>Versions are ordered by their codes; the highest one of a list is the greatest version it
  names, or the oldest when it names none.\<close>

instantiation protocol_version :: linorder
begin

definition less_eq_protocol_version :: "protocol_version \<Rightarrow> protocol_version \<Rightarrow> bool" where
  "less_eq_protocol_version v w \<longleftrightarrow> protocol_version_code v \<le> protocol_version_code w"

definition less_protocol_version :: "protocol_version \<Rightarrow> protocol_version \<Rightarrow> bool" where
  "less_protocol_version v w \<longleftrightarrow> protocol_version_code v < protocol_version_code w"

instance
proof
  fix v w :: protocol_version
  assume "v \<le> w" "w \<le> v"
  then have "protocol_version_code v = protocol_version_code w"
    by (simp add: less_eq_protocol_version_def)
  then show "v = w"
    by (cases v; cases w) simp_all
qed (auto simp: less_eq_protocol_version_def less_protocol_version_def)

end

lemma finite_versions: "finite (A :: protocol_version set)"
proof -
  have "v \<in> {Tls10, Tls12, Tls13}" for v
    by (cases v) simp_all
  then have "A \<subseteq> {Tls10, Tls12, Tls13}"
    by blast
  then show ?thesis
    by (rule finite_subset) simp
qed

lemma tls_versions_max_greatest:
  "tls_versions_max vs = Max (insert Tls10 {v. protocol_version_code v \<in> set vs})"
proof (rule sym, rule Max_eqI)
  have order: "v \<le> Tls13" "Tls10 \<le> v" "v \<le> Tls12 \<longleftrightarrow> v \<noteq> Tls13" "v \<le> Tls10 \<longleftrightarrow> v = Tls10" for v
    by (cases v; simp add: less_eq_protocol_version_def)+
  show "v \<le> tls_versions_max vs" if "v \<in> insert Tls10 {v. protocol_version_code v \<in> set vs}" for v
    using that order(1,2) order(3,4) [of v] unfolding tls_versions_max_def version_tls_1_2_def version_tls_1_3_def
    by (cases v) simp_all
  show "tls_versions_max vs \<in> insert Tls10 {v. protocol_version_code v \<in> set vs}"
    by (simp add: tls_versions_max_def version_tls_1_2_def version_tls_1_3_def)
qed (rule finite_versions)

section \<open>Extension ids\<close>

definition ext_sni :: u16 where "ext_sni = 0x0000"
definition ext_status_request :: u16 where "ext_status_request = 0x0005"
definition ext_supported_groups :: u16 where "ext_supported_groups = 0x000a"
definition ext_ec_point_formats :: u16 where "ext_ec_point_formats = 0x000b"
definition ext_signature_algorithms :: u16 where "ext_signature_algorithms = 0x000d"
definition ext_alpn :: u16 where "ext_alpn = 0x0010"
definition ext_sct :: u16 where "ext_sct = 0x0012"
definition ext_padding :: u16 where "ext_padding = 0x0015"
definition ext_ems :: u16 where "ext_ems = 0x0017"
definition ext_compress_cert :: u16 where "ext_compress_cert = 0x001b"
definition ext_delegated_credential :: u16 where "ext_delegated_credential = 0x0022"
definition ext_session_ticket :: u16 where "ext_session_ticket = 0x0023"
definition ext_supported_versions :: u16 where "ext_supported_versions = 0x002b"
definition ext_psk_modes :: u16 where "ext_psk_modes = 0x002d"
definition ext_key_share :: u16 where "ext_key_share = 0x0033"
definition ext_alps :: u16 where "ext_alps = 0x44cd"
definition ext_ech :: u16 where "ext_ech = 0xfe0d"
definition ext_renegotiation_info :: u16 where "ext_renegotiation_info = 0xff01"
definition grease_slot_first :: u16 where "grease_slot_first = 0x0a0a"
definition grease_slot_last :: u16 where "grease_slot_last = 0x2a2a"

lemmas ext_defs = ext_sni_def ext_status_request_def ext_supported_groups_def
  ext_ec_point_formats_def ext_signature_algorithms_def ext_alpn_def ext_sct_def ext_padding_def
  ext_ems_def ext_compress_cert_def ext_delegated_credential_def ext_session_ticket_def
  ext_supported_versions_def ext_psk_modes_def ext_key_share_def ext_alps_def ext_ech_def
  ext_renegotiation_info_def grease_slot_first_def grease_slot_last_def

definition is_grease :: "u16 \<Rightarrow> bool" where
  "is_grease i =
     (if i AND 0x0f0f \<noteq> 0x0a0a then False
      else i AND 0xff = drop_bit 8 i)"

section \<open>Extension orders\<close>

definition order_chromium_131 :: "u16 list" where
  "order_chromium_131 = [0xaaaa, ext_sni, ext_supported_groups, ext_signature_algorithms,
     ext_key_share, ext_supported_versions, ext_padding]"

definition order_chrome_140 :: "u16 list" where
  "order_chrome_140 = [grease_slot_first, ext_sni, ext_supported_groups, ext_key_share,
     ext_supported_versions, ext_signature_algorithms, grease_slot_last]"

definition order_edge_130 :: "u16 list" where
  "order_edge_130 = [0x1a1a, ext_sni, ext_supported_groups, ext_signature_algorithms,
     ext_key_share, ext_supported_versions, 0x3a3a, ext_padding]"

definition order_firefox_133 :: "u16 list" where
  "order_firefox_133 = [ext_sni, ext_renegotiation_info, ext_supported_groups, ext_key_share,
     ext_supported_versions, ext_signature_algorithms]"

definition order_safari_17 :: "u16 list" where
  "order_safari_17 = [ext_sni, ext_renegotiation_info, ext_supported_groups, ext_key_share,
     ext_supported_versions]"

lemmas order_defs = order_chromium_131_def order_chrome_140_def order_edge_130_def
  order_firefox_133_def order_safari_17_def

section \<open>24-bit lengths\<close>

text \<open>\<open>U24::from_u32\<close> drops the high byte; \<open>get_u24\<close> reads three bytes.\<close>

definition u24_from_u32 :: "u32 \<Rightarrow> bytes" where
  "u24_from_u32 value = drop 1 (be32 value)"

definition u24_to_u32 :: "bytes \<Rightarrow> u32" where
  "u24_to_u32 b = from_be (0 # b)"

definition u24_from_slice :: "bytes \<Rightarrow> u32 option" where
  "u24_from_slice s =
     (if 3 \<le> length s then Some (from_be [0, s ! 0, s ! 1, s ! 2]) else None)"

definition get_u24 :: "bytes \<Rightarrow> (u32 \<times> bytes) option" where
  "get_u24 bs =
     Option.bind (get_u8 bs) (\<lambda>(b1, bs1).
     Option.bind (get_u8 bs1) (\<lambda>(b2, bs2).
     Option.bind (get_u8 bs2) (\<lambda>(b3, bs3).
       Some (push_bit 16 (ucast b1) OR push_bit 8 (ucast b2) OR ucast b3, bs3))))"

lemma length_u24 [simp, wire_simps]: "length (u24_from_u32 v) = 3"
  by (simp add: u24_from_u32_def)

lemma get_u24_bytes: "get_u24 (a # b # c # rest) = Some (from_be [a, b, c], rest)"
  by (simp add: get_u24_def from_be_def push_bit_or or.assoc)

lemma get_u24_None_iff: "get_u24 bs = None \<longleftrightarrow> length bs < 3"
  by (cases bs rule: get_u8.cases; cases "tl bs" rule: get_u8.cases; cases "tl (tl bs)" rule: get_u8.cases)
     (auto simp: get_u24_def)

lemma u24_value: "unat v < 2 ^ 24 \<Longrightarrow> get_u24 (u24_from_u32 v @ rest) = Some (v, rest)"
proof -
  assume v: "unat v < 2 ^ 24"
  obtain a b c where abc: "u24_from_u32 v = [a, b, c]"
    by (simp add: u24_from_u32_def be32_def)
  have "be_val (u24_from_u32 v) = unat v mod 256 ^ 3"
  proof -
    have "u24_from_u32 v = nat_be 3 (unat v)"
      by (simp add: u24_from_u32_def be32_nat_be nat_be_numerals nat_be_Suc_numeral nat_be_one
          div_mult2_eq [symmetric] del: nat_be.simps(2))
    then show ?thesis
      by (simp only: be_val_nat_be)
  qed
  then have "from_be (u24_from_u32 v) = v"
    using v by (simp add: from_be_of_nat)
  then show ?thesis
    by (simp add: abc get_u24_bytes)
qed

end
