(* ===== verification/Extension_Stack.thy ===== *)
theory Extension_Stack
  imports Errors Wire_Types
begin

text \<open>
  Reading TLS extensions: \<open>Extension\<close>, \<open>ExtensionStack\<close> and its parser in
  \<open>engine/src/tlseng/extension.rs\<close>, with the lookup of the key share and of the server name.
  The lemmas show that the parser accepts exactly the concatenations of well-formed
  extensions, gives each of them back, and never panics on any input.
\<close>

section \<open>Extensions\<close>

record extension =
  ex_etype :: u16
  ex_elen :: u16
  ex_data :: bytes

definition extension_new :: "u16 \<Rightarrow> bytes \<Rightarrow> extension" where
  "extension_new etype data = \<lparr>ex_etype = etype, ex_elen = of_nat (length data), ex_data = data\<rparr>"

type_synonym extension_stack = "extension list"

definition find_by_type :: "u16 \<Rightarrow> extension_stack \<Rightarrow> bytes option" where
  "find_by_type etype exts = map_option ex_data (List.find (\<lambda>e. ex_etype e = etype) exts)"

text \<open>\<open>std::str::from_utf8\<close>: the well-formed byte sequences of UTF-8.\<close>

definition utf8_cont :: "u8 \<Rightarrow> bool" where
  "utf8_cont b \<longleftrightarrow> 0x80 \<le> b \<and> b \<le> 0xBF"

fun valid_utf8 :: "bytes \<Rightarrow> bool" where
  "valid_utf8 [] = True"
| "valid_utf8 (b # bs) =
     (if b < 0x80 then valid_utf8 bs
      else if 0xC2 \<le> b \<and> b \<le> 0xDF
      then (case bs of c # cs \<Rightarrow> utf8_cont c \<and> valid_utf8 cs | [] \<Rightarrow> False)
      else if 0xE0 \<le> b \<and> b \<le> 0xEF
      then (case bs of
              c # d # cs \<Rightarrow>
                (if b = 0xE0 then 0xA0 \<le> c \<and> c \<le> 0xBF
                 else if b = 0xED then 0x80 \<le> c \<and> c \<le> 0x9F
                 else utf8_cont c) \<and> utf8_cont d \<and> valid_utf8 cs
            | _ \<Rightarrow> False)
      else if 0xF0 \<le> b \<and> b \<le> 0xF4
      then (case bs of
              c # d # e # cs \<Rightarrow>
                (if b = 0xF0 then 0x90 \<le> c \<and> c \<le> 0xBF
                 else if b = 0xF4 then 0x80 \<le> c \<and> c \<le> 0x8F
                 else utf8_cont c) \<and> utf8_cont d \<and> utf8_cont e \<and> valid_utf8 cs
            | _ \<Rightarrow> False)
      else False)"

definition stack_server_name :: "extension_stack \<Rightarrow> bytes option" where
  "stack_server_name exts =
     Option.bind (find_by_type ext_sni exts) (\<lambda>data.
       if length data < 2 then None
       else
         let list_len = unat (from_be [data ! 0, data ! 1] :: u16)
         in Option.bind (slice_get 2 (2 + list_len) data) (\<lambda>lst.
              if length lst < 3 \<or> lst ! 0 \<noteq> type_host_name then None
              else
                let name_len = unat (from_be [lst ! 1, lst ! 2] :: u16)
                in Option.bind (slice_get 3 (3 + name_len) lst) (\<lambda>name_bytes.
                     if valid_utf8 name_bytes then Some name_bytes else None)))"

section \<open>The parser\<close>

text \<open>The length-summing loop \<open>while offset + 4 <= data_len\<close>.\<close>

function ext_walk :: "bytes \<Rightarrow> nat \<Rightarrow> nat" where
  "ext_walk bs offset =
     (if offset + 4 \<le> length bs
      then ext_walk bs (offset + (4 + unat (from_be [bs ! (offset + 2), bs ! (offset + 3)] :: u16)))
      else offset)"
  by auto
termination
  by (relation "measure (\<lambda>(bs, offset). length bs - offset)") auto

declare ext_walk.simps [simp del]

definition stack_can_parse :: "bytes \<Rightarrow> bool" where
  "stack_can_parse bs \<longleftrightarrow> ext_walk bs 0 \<le> length bs"

text \<open>The extracting loop \<open>while bytes.remaining() >= 4\<close>; \<open>None\<close> is a panic of \<open>split_to\<close>.\<close>

function read_extensions :: "bytes \<Rightarrow> extension_stack option \<times> bytes" where
  "read_extensions bs =
     (if 4 \<le> length bs
      then (case get_u16 bs of
              None \<Rightarrow> (None, bs)
            | Some (etype, bs1) \<Rightarrow>
                (case get_u16 bs1 of
                   None \<Rightarrow> (None, bs1)
                 | Some (elen, bs2) \<Rightarrow>
                     (case split_to (unat elen) bs2 of
                        None \<Rightarrow> (None, bs2)
                      | Some (data, bs3) \<Rightarrow>
                          (case read_extensions bs3 of
                             (None, rest) \<Rightarrow> (None, rest)
                           | (Some exts, rest) \<Rightarrow> (Some (extension_new etype data # exts), rest)))))
      else (Some [], bs))"
  by auto
termination
  by (relation "measure length") (auto simp: get_u16_Some_iff split_to_Some_iff dest!: sym [of "Some _"])

declare read_extensions.simps [simp del]

definition stack_parse :: "bytes \<Rightarrow> (tls_error, extension_stack option) result \<times> bytes" where
  "stack_parse bs =
     (let offset = ext_walk bs 0
      in if length bs < offset then (Ok None, bs)
         else if offset \<noteq> length bs
         then (Err (tls_error_new (StageTls ''Malformed extension stack: trailing data'') Drop []), bs)
         else (case read_extensions bs of
                 (Some exts, rest) \<Rightarrow> (Ok (Some exts), rest)
               | (None, rest) \<Rightarrow> (Panic, rest)))"

section \<open>Layout\<close>

text \<open>One extension as it is written: \<open>type | len | data\<close>.\<close>

definition extension_bytes :: "u16 \<Rightarrow> bytes \<Rightarrow> bytes" where
  "extension_bytes etype data = be16 etype @ be16 (of_nat (length data)) @ data"

definition stack_bytes :: "extension_stack \<Rightarrow> bytes" where
  "stack_bytes exts = concat (map (\<lambda>e. extension_bytes (ex_etype e) (ex_data e)) exts)"

definition extension_wf :: "extension \<Rightarrow> bool" where
  "extension_wf e \<longleftrightarrow> length (ex_data e) < 65536 \<and> ex_elen e = of_nat (length (ex_data e))"

lemma length_extension_bytes [simp, wire_simps]: "length (extension_bytes t d) = 4 + length d"
  by (simp add: extension_bytes_def)

text \<open>The walk restarted after a prefix.\<close>

lemma ext_walk_drop:
  "offset \<le> length bs \<Longrightarrow> ext_walk bs offset = offset + ext_walk (drop offset bs) 0"
proof (induction "length bs - offset" arbitrary: bs offset rule: less_induct)
  case less
  show ?case
  proof (cases "offset + 4 \<le> length bs")
    case True
    let ?n = "4 + unat (from_be [bs ! (offset + 2), bs ! (offset + 3)] :: u16)"
    have w: "ext_walk bs offset = ext_walk bs (offset + ?n)"
      using True by (subst ext_walk.simps) simp
    have "4 \<le> length bs - offset"
      using True by simp
    then have d: "ext_walk (drop offset bs) 0 = ext_walk (drop offset bs) ?n"
      using True by (subst ext_walk.simps) (simp add: add.commute)
    show ?thesis
    proof (cases "offset + ?n \<le> length bs")
      case True2: True
      have "ext_walk bs (offset + ?n) = offset + ?n + ext_walk (drop (offset + ?n) bs) 0"
        using True True2 by (intro less.hyps) auto
      moreover have "ext_walk (drop offset bs) ?n = ?n + ext_walk (drop ?n (drop offset bs)) 0"
      proof (cases "offset = 0")
        case True
        then show ?thesis
          using calculation by simp
      next
        case False
        then show ?thesis
          using True True2 less.prems by (intro less.hyps) auto
      qed
      ultimately show ?thesis
        by (simp add: w d add.commute)
    next
      case False
      have "ext_walk bs (offset + ?n) = offset + ?n" "ext_walk (drop offset bs) ?n = ?n"
        using False by (subst ext_walk.simps; simp)+
      then show ?thesis
        by (simp add: w d)
    qed
  next
    case False
    then have "ext_walk bs offset = offset" "ext_walk (drop offset bs) 0 = 0"
      by (subst ext_walk.simps; simp)+
    then show ?thesis by simp
  qed
qed

lemma ext_walk_short: "length bs < 4 \<Longrightarrow> ext_walk bs 0 = 0"
  by (subst ext_walk.simps) simp

lemma ext_walk_header:
  "ext_walk (be16 t @ be16 n @ rest) 0 =
     4 + (if unat n \<le> length rest then unat n + ext_walk (drop (unat n) rest) 0 else unat n)"
proof -
  let ?bs = "be16 t @ be16 n @ rest"
  obtain a b where n: "be16 n = [a, b]"
    by (simp add: be16_def)
  then have "(from_be [a, b] :: u16) = n"
    by (metis from_be_be16)
  moreover have "?bs ! Suc (Suc 0) = a" "?bs ! 3 = b"
    by (simp_all add: nth_append n)
  ultimately have w: "ext_walk ?bs 0 = ext_walk ?bs (4 + unat n)"
    by (subst ext_walk.simps) simp
  show ?thesis
  proof (cases "unat n \<le> length rest")
    case True
    then show ?thesis
      using w ext_walk_drop [of "4 + unat n" ?bs] by simp
  next
    case False
    then have "ext_walk ?bs (4 + unat n) = 4 + unat n"
      by (subst ext_walk.simps) simp
    with w False show ?thesis
      by simp
  qed
qed

lemma extension_split:
  assumes "4 \<le> length bs"
  obtains t n rest where "bs = be16 t @ be16 n @ rest"
proof -
  have "bs = be16 (from_be (take 2 bs)) @ be16 (from_be (take 2 (drop 2 bs))) @ drop 4 bs"
    using assms take_drop_split3 [of 2 bs 2] by simp
  then show thesis
    by (rule that)
qed

lemma read_extensions_step:
  "read_extensions (be16 t @ be16 n @ rest) =
     (case split_to (unat n) rest of
        None \<Rightarrow> (None, rest)
      | Some (data, bs3) \<Rightarrow>
          (case read_extensions bs3 of
             (None, r) \<Rightarrow> (None, r)
           | (Some exts, r) \<Rightarrow> (Some (extension_new t data # exts), r)))"
  by (subst read_extensions.simps) simp

text \<open>If the walk ends exactly at the end, reading succeeds and inverts the layout.\<close>

lemma read_extensions_exact:
  "ext_walk bs 0 = length bs \<Longrightarrow>
     \<exists>exts. read_extensions bs = (Some exts, []) \<and> bs = stack_bytes exts \<and> list_all extension_wf exts"
proof (induction "length bs" arbitrary: bs rule: less_induct)
  case less
  show ?case
  proof (cases "4 \<le> length bs")
    case True
    then obtain t n rest where bs: "bs = be16 t @ be16 n @ rest"
      by (rule extension_split)
    with less.prems have fit: "unat n \<le> length rest"
      by (simp add: ext_walk_header split: if_splits)
    have "ext_walk (drop (unat n) rest) 0 = length (drop (unat n) rest)"
      using less.prems fit by (simp add: bs ext_walk_header)
    moreover have "length (drop (unat n) rest) < length bs"
      by (simp add: bs)
    ultimately obtain exts where IH: "read_extensions (drop (unat n) rest) = (Some exts, [])"
      "drop (unat n) rest = stack_bytes exts" "list_all extension_wf exts"
      using less.hyps by blast
    let ?d = "take (unat n) rest"
    have len: "length ?d = unat n"
      using fit by simp
    have "bs = stack_bytes (extension_new t ?d # exts)"
      using fit IH(2) by (simp add: bs stack_bytes_def extension_new_def extension_bytes_def)
         (metis append_take_drop_id)
    moreover have "read_extensions bs = (Some (extension_new t ?d # exts), [])"
      using fit IH(1) by (simp add: bs read_extensions_step split_to_def)
    moreover have "list_all extension_wf (extension_new t ?d # exts)"
      using IH(3) len by (simp add: extension_wf_def extension_new_def)
    ultimately show ?thesis
      by blast
  next
    case False
    with less.prems have "bs = []"
      by (simp add: ext_walk_short)
    then show ?thesis
      by (simp add: read_extensions.simps stack_bytes_def)
  qed
qed

lemma ext_walk_stack: "list_all extension_wf exts \<Longrightarrow> ext_walk (stack_bytes exts @ rest) 0 = length (stack_bytes exts) + ext_walk rest 0"
proof (induction exts)
  case (Cons e exts)
  then have "length (ex_data e) < 65536"
    by (simp add: extension_wf_def)
  with Cons show ?case
    using ext_walk_header [of "ex_etype e" "of_nat (length (ex_data e))" "ex_data e @ stack_bytes exts @ rest"]
    by (simp add: stack_bytes_def extension_bytes_def)
qed (simp add: stack_bytes_def)

lemma stack_bytes_inj:
  "list_all extension_wf xs \<Longrightarrow> list_all extension_wf ys \<Longrightarrow> stack_bytes xs = stack_bytes ys \<Longrightarrow> xs = ys"
proof (induction xs arbitrary: ys)
  case Nil
  then show ?case
    by (cases ys) (simp_all add: stack_bytes_def extension_bytes_def be16_def)
next
  case (Cons x xs)
  then obtain y ys' where ys: "ys = y # ys'"
    by (cases ys) (simp_all add: stack_bytes_def extension_bytes_def be16_def)
  have len: "length (ex_data x) < 65536" "length (ex_data y) < 65536"
    and el: "ex_elen x = of_nat (length (ex_data x))" "ex_elen y = of_nat (length (ex_data y))"
    using Cons.prems by (simp_all add: ys extension_wf_def)
  have eq: "be16 (ex_etype x) @ be16 (of_nat (length (ex_data x))) @ ex_data x @ stack_bytes xs =
      be16 (ex_etype y) @ be16 (of_nat (length (ex_data y))) @ ex_data y @ stack_bytes ys'"
    using Cons.prems(3) by (simp add: ys stack_bytes_def extension_bytes_def)
  then have t: "ex_etype x = ex_etype y" and n: "(of_nat (length (ex_data x)) :: u16) = of_nat (length (ex_data y))"
    and d: "ex_data x @ stack_bytes xs = ex_data y @ stack_bytes ys'"
    by (auto simp: append_eq_append_conv)
  from n len have "length (ex_data x) = length (ex_data y)"
    by (metis unat_of_nat_u16)
  with d have "ex_data x = ex_data y" "stack_bytes xs = stack_bytes ys'"
    by simp_all
  with Cons.IH [of ys'] Cons.prems t el show ?case
    by (simp add: ys)
qed

lemma stack_parse_stack_bytes:
  assumes "list_all extension_wf exts"
  shows "stack_parse (stack_bytes exts) = (Ok (Some exts), [])"
proof -
  have w: "ext_walk (stack_bytes exts) 0 = length (stack_bytes exts)"
    using ext_walk_stack [OF assms, of "[]"] by (simp add: ext_walk_short)
  obtain exts' where "read_extensions (stack_bytes exts) = (Some exts', [])"
    "stack_bytes exts = stack_bytes exts'" "list_all extension_wf exts'"
    using read_extensions_exact [OF w] by blast
  with stack_bytes_inj [OF assms] w show ?thesis
    by (simp add: stack_parse_def)
qed

section \<open>Properties\<close>

text \<open>The concatenation of any extensions whose data fits the 16-bit
  length field is read back as exactly these extensions, with nothing left.\<close>

theorem stack_roundtrip:
  assumes "list_all extension_wf exts"
  shows "stack_parse (stack_bytes exts) = (Ok (Some exts), [])"
  using assms by (rule stack_parse_stack_bytes)

lemma stack_roundtrip_witness:
  "stack_parse (stack_bytes [extension_new 0 [1, 2], extension_new 0x33 []]) =
    (Ok (Some [extension_new 0 [1, 2], extension_new 0x33 []]), [])"
  by (rule stack_roundtrip) (simp add: extension_wf_def extension_new_def)

text \<open>Property C32 (stack_parse_outcome): on any bytes the parser does not panic; it waits with the
  bytes untouched, reports trailing garbage with the action \<open>Drop\<close>, or returns extensions
  that spell out exactly the input.\<close>

theorem stack_parse_outcome:
  "case stack_parse bs of
     (Ok None, rest) \<Rightarrow> \<not> stack_can_parse bs \<and> rest = bs
   | (Ok (Some exts), rest) \<Rightarrow> stack_can_parse bs \<and> rest = [] \<and> bs = stack_bytes exts
   | (Err e, rest) \<Rightarrow> stack_can_parse bs \<and> err_action e = Drop \<and> rest = bs
   | (Panic, rest) \<Rightarrow> False"
proof (cases "ext_walk bs 0 = length bs")
  case True
  then obtain exts where "read_extensions bs = (Some exts, [])" "bs = stack_bytes exts"
    using read_extensions_exact by blast
  with True show ?thesis
    by (simp add: stack_parse_def stack_can_parse_def)
next
  case False
  then show ?thesis
    by (auto simp: stack_parse_def stack_can_parse_def tls_error_new_def Let_def)
qed

end
