(* ===== verification/Session_Keys.thy ===== *)
theory Session_Keys
  imports Chacha Datagram_Keys Extension_Stack
begin

text \<open>
  The key exchange of one side of the handshake: the ephemeral Diffie-Hellman pair
  (\<open>engine/src/crypto/ecdh.rs\<close>), the long-term credentials (\<open>engine/src/crypto/identity.rs\<close>)
  and \<open>SaltPair\<close> and \<open>SessionKeys\<close> of \<open>engine/src/crypto/session.rs\<close>.  The lemmas show that
  an honest exchange gives both sides mirrored keys and the same datagram root, that the
  ephemeral key is gone afterwards, that the key share is found by structure and not by
  content, and how versions, strictness and tags decide whether a client is let in.
\<close>

section \<open>Ephemeral keys\<close>

record ecdh =
  ec_public_key :: bytes
  ec_private_key :: "bytes option"

definition ecdh_new :: "crypto \<Rightarrow> rng \<Rightarrow> ecdh \<times> rng" where
  "ecdh_new P r =
     (let (secret, r') = fill_bytes 32 r
      in (\<lparr>ec_public_key = x25519_base P secret, ec_private_key = Some secret\<rparr>, r'))"

definition ecdh_dh :: "crypto \<Rightarrow> ecdh \<Rightarrow> bytes \<Rightarrow> bytes option" where
  "ecdh_dh P e public = map_option (\<lambda>secret. x25519 P secret public) (ec_private_key e)"

definition ecdh_burn :: "ecdh \<Rightarrow> ecdh" where
  "ecdh_burn e = e\<lparr>ec_private_key := None\<rparr>"

section \<open>Identities\<close>

text \<open>
  A key in a configuration is 64 hexadecimal digits.  The \<open>hex\<close> crate is a parameter: the
  decoder gives the bytes or a message.
\<close>

definition rust_whitespace :: "char \<Rightarrow> bool" where
  "rust_whitespace c \<longleftrightarrow> of_char c \<in> {9, 10, 11, 12, 13, 32, 133, 160 :: nat}"

definition trim :: "string \<Rightarrow> string" where
  "trim s = rev (dropWhile rust_whitespace (rev (dropWhile rust_whitespace s)))"

definition parse_key_hex :: "(string \<Rightarrow> (string, bytes) result) \<Rightarrow> string \<Rightarrow> string \<Rightarrow> (app_error, bytes) result" where
  "parse_key_hex hex_decode what value =
     (case hex_decode (trim value) of
        Err e \<Rightarrow> Err (app_error_new err_auth_failed MsgConfigError (what @ '': hex expected, '' @ e))
      | Panic \<Rightarrow> Panic
      | Ok raw \<Rightarrow>
          if length raw = 32 then Ok raw
          else Err (app_error_new err_auth_failed MsgConfigError
                 (what @ '': 32 bytes (64 hex characters) expected, got '' @ show_nat (length raw))))"

record peer_identity =
  pi_secret :: bytes
  pi_static_public :: bytes

record local_identity =
  li_secret :: bytes
  li_static_private :: bytes
  li_strict :: bool

datatype identity = IdPeer peer_identity | IdLocal local_identity

definition peer_identity_from_hex ::
  "(string \<Rightarrow> (string, bytes) result) \<Rightarrow> string \<Rightarrow> string \<Rightarrow> (app_error, peer_identity) result" where
  "peer_identity_from_hex hex_decode secret_hex public_hex =
     bind_result (parse_key_hex hex_decode ''nrxp_secret'' secret_hex) (\<lambda>secret.
     bind_result (parse_key_hex hex_decode ''nrxp_static_public'' public_hex) (\<lambda>public.
       Ok \<lparr>pi_secret = secret, pi_static_public = public\<rparr>))"

definition local_identity_from_hex ::
  "(string \<Rightarrow> (string, bytes) result) \<Rightarrow> string \<Rightarrow> string \<Rightarrow> bool \<Rightarrow> (app_error, local_identity) result" where
  "local_identity_from_hex hex_decode secret_hex private_hex strict =
     bind_result (parse_key_hex hex_decode ''nrxp_secret'' secret_hex) (\<lambda>secret.
     bind_result (parse_key_hex hex_decode ''nrxp_static_private'' private_hex) (\<lambda>private.
       Ok \<lparr>li_secret = secret, li_static_private = private, li_strict = strict\<rparr>))"

definition public_key_hex :: "crypto \<Rightarrow> (bytes \<Rightarrow> string) \<Rightarrow> local_identity \<Rightarrow> string" where
  "public_key_hex P hex_encode l = hex_encode (x25519_base P (li_static_private l))"

fun identity_drop :: "identity \<Rightarrow> identity" where
  "identity_drop (IdPeer p) = IdPeer (p\<lparr>pi_secret := replicate (length (pi_secret p)) 0\<rparr>)"
| "identity_drop (IdLocal l) = IdLocal (l\<lparr>li_secret := replicate (length (li_secret l)) 0\<rparr>)"

fun identity_secret :: "identity \<Rightarrow> bytes" where
  "identity_secret (IdPeer p) = pi_secret p"
| "identity_secret (IdLocal l) = li_secret l"

fun static_dh :: "crypto \<Rightarrow> identity \<Rightarrow> ecdh \<Rightarrow> bytes \<Rightarrow> bytes option" where
  "static_dh P (IdPeer p) e peer_ephemeral = ecdh_dh P e (pi_static_public p)"
| "static_dh P (IdLocal l) e peer_ephemeral = Some (x25519 P (li_static_private l) peer_ephemeral)"

fun identity_strict :: "identity \<Rightarrow> bool" where
  "identity_strict (IdPeer p) = True"
| "identity_strict (IdLocal l) = li_strict l"

section \<open>Salts\<close>

record salt_pair =
  sp_local :: bytes
  sp_remote :: bytes
  sp_initiator :: bool

definition salt_pair_new :: "bool \<Rightarrow> rng \<Rightarrow> salt_pair \<times> rng" where
  "salt_pair_new is_initiator r =
     (let (local_salt, r') = fill_bytes 32 r
      in (\<lparr>sp_local = local_salt, sp_remote = replicate 32 0, sp_initiator = is_initiator\<rparr>, r'))"

definition set_remote_salt :: "salt_pair \<Rightarrow> bytes \<Rightarrow> salt_pair" where
  "set_remote_salt s salt = s\<lparr>sp_remote := salt\<rparr>"

definition get_total :: "salt_pair \<Rightarrow> bytes" where
  "get_total s = (if sp_initiator s then sp_local s @ sp_remote s else sp_remote s @ sp_local s)"

section \<open>Session keys\<close>

type_synonym directional_keys = "bytes \<times> bytes \<times> bytes \<times> bytes"

record session_keys =
  sk_salt :: salt_pair
  sk_ecdh :: ecdh
  sk_auth_key :: bytes
  sk_current_aead :: "directional_keys option"
  sk_identity :: "identity option"
  sk_peer_version :: u8
  sk_datagram_root :: "bytes option"

definition session_keys_new :: "crypto \<Rightarrow> bool \<Rightarrow> rng \<Rightarrow> session_keys \<times> rng" where
  "session_keys_new P is_initiator r =
     (let (salt, r1) = salt_pair_new is_initiator r;
          (e, r2) = ecdh_new P r1
      in (\<lparr>sk_salt = salt, sk_ecdh = e, sk_auth_key = replicate 32 0, sk_current_aead = None,
           sk_identity = None, sk_peer_version = protocol_version_anonymous,
           sk_datagram_root = None\<rparr>, r2))"

definition with_identity :: "crypto \<Rightarrow> bool \<Rightarrow> identity \<Rightarrow> rng \<Rightarrow> session_keys \<times> rng" where
  "with_identity P is_initiator i r =
     (let (keys, r') = session_keys_new P is_initiator r
      in (keys\<lparr>sk_identity := Some i, sk_peer_version := protocol_version_nrxp\<rparr>, r'))"

definition claimed_version :: "session_keys \<Rightarrow> u8" where
  "claimed_version k =
     (if sk_identity k \<noteq> None then protocol_version_nrxp else protocol_version_anonymous)"

definition set_peer_version :: "session_keys \<Rightarrow> u8 \<Rightarrow> session_keys" where
  "set_peer_version k version = k\<lparr>sk_peer_version := version\<rparr>"

definition uses_static_dh :: "session_keys \<Rightarrow> bool" where
  "uses_static_dh k \<longleftrightarrow> sk_identity k \<noteq> None \<and> min_version_for_static_dh \<le> sk_peer_version k"

definition rejects_anonymous :: "session_keys \<Rightarrow> bool" where
  "rejects_anonymous k \<longleftrightarrow> (case sk_identity k of Some i \<Rightarrow> identity_strict i | None \<Rightarrow> False)"

definition public_key_bytes :: "session_keys \<Rightarrow> bytes" where
  "public_key_bytes k = ec_public_key (sk_ecdh k)"

definition keys_local_salt :: "session_keys \<Rightarrow> bytes" where
  "keys_local_salt k = sp_local (sk_salt k)"

definition is_initiator :: "session_keys \<Rightarrow> bool" where
  "is_initiator k = sp_initiator (sk_salt k)"

definition hello_tag_for :: "crypto \<Rightarrow> u64 \<Rightarrow> session_keys \<Rightarrow> bytes \<Rightarrow> bytes" where
  "hello_tag_for P now k random =
     (case sk_identity k of
        Some i \<Rightarrow> generate_handshake_tag P (session_auth_new (identity_secret i)) now random (public_key_bytes k)
      | None \<Rightarrow> generate_current_tag P (session_auth_new (sk_auth_key k)) now)"

definition check_hello_tag :: "crypto \<Rightarrow> u64 \<Rightarrow> session_keys \<Rightarrow> bytes \<Rightarrow> bytes \<Rightarrow> bytes \<Rightarrow> bool" where
  "check_hello_tag P now k received_tag random peer_public =
     (if uses_static_dh k then
        (case sk_identity k of
           None \<Rightarrow> False
         | Some i \<Rightarrow> verify_handshake_tag P (session_auth_new (identity_secret i)) now received_tag random peer_public)
      else if rejects_anonymous k then False
      else fst (verify_tag P (session_auth_new (sk_auth_key k)) now received_tag))"

text \<open>The getters that panic before the handshake.\<close>

definition get_aead_parameters :: "session_keys \<Rightarrow> directional_keys option" where
  "get_aead_parameters k = sk_current_aead k"

definition get_auth_key :: "session_keys \<Rightarrow> bytes" where
  "get_auth_key k = sk_auth_key k"

text \<open>The key has 32 bytes, so the slice of the first four is always there; \<open>hex::encode\<close> is a parameter.\<close>

definition auth_key_fingerprint :: "(bytes \<Rightarrow> string) \<Rightarrow> session_keys \<Rightarrow> string" where
  "auth_key_fingerprint hex_encode k = hex_encode (take 4 (sk_auth_key k))"

definition keys_datagram_root :: "session_keys \<Rightarrow> bytes option" where
  "keys_datagram_root k = sk_datagram_root k"

definition session_keys_drop :: "session_keys \<Rightarrow> session_keys" where
  "session_keys_drop k =
     (let zero = (\<lambda>bs :: bytes. replicate (length bs) 0)
      in k\<lparr>sk_auth_key := zero (sk_auth_key k),
           sk_current_aead := map_option (\<lambda>(a, b, c, d). (zero a, zero b, zero c, zero d)) (sk_current_aead k),
           sk_datagram_root := None\<rparr>)"

section \<open>The peer's key share\<close>

definition tamper :: "user_msg \<Rightarrow> string \<Rightarrow> app_error" where
  "tamper user_msg msg = app_error_new err_net_tls_tamper user_msg msg"

text \<open>The walk over the client's list of entries \<open>group(2) | key_len(2) | key\<close>.\<close>

function find_x25519 :: "bytes \<Rightarrow> nat \<Rightarrow> bytes option" where
  "find_x25519 lst off =
     (if off + 4 \<le> length lst
      then (let group = (from_be [lst ! off, lst ! (off + 1)] :: u16);
                key_len = unat (from_be [lst ! (off + 2), lst ! (off + 3)] :: u16);
                off1 = off + 4
            in case slice_get off1 (off1 + key_len) lst of
                 None \<Rightarrow> None
               | Some entry \<Rightarrow>
                   if group = group_x25519 \<and> key_len = 32 then Some entry
                   else find_x25519 lst (off1 + key_len))
      else None)"
  by auto
termination
  by (relation "measure (\<lambda>(lst, off). length lst - off)") auto

declare find_x25519.simps [simp del]

definition extract_peer_public :: "extension_stack \<Rightarrow> bool \<Rightarrow> (app_error, bytes) result" where
  "extract_peer_public exts is_server =
     (case find_by_type ext_key_share exts of
        None \<Rightarrow> Err (tamper MsgMaskingError ''No KeyShare extension found in handshake'')
      | Some dh_data \<Rightarrow>
          bind_result
            (if is_server then
               (if length dh_data < 2
                then Err (tamper MsgMaskingError (''Client KeyShare too short: '' @ show_nat (length dh_data)))
                else
                  let list_len = unat (from_be [dh_data ! 0, dh_data ! 1] :: u16)
                  in case slice_get 2 (2 + list_len) dh_data of
                       None \<Rightarrow> Err (tamper MsgMaskingError ''KeyShare list_len exceeds extension body'')
                     | Some lst \<Rightarrow>
                         (case find_x25519 lst 0 of
                            None \<Rightarrow> Err (tamper MsgMaskingError ''Could not find x25519 key in ClientHello'')
                          | Some key \<Rightarrow> Ok key))
             else
               (if length dh_data < 4 + 32 then Err (tamper MsgMaskingError ''Server KeyShare too short'')
                else
                  let key_len = unat (from_be [dh_data ! 2, dh_data ! 3] :: u16)
                  in if key_len \<noteq> 32
                     then Err (tamper MsgMaskingError (''Server KeyShare has unexpected key length '' @ show_nat key_len))
                     else Ok (take 32 (drop 4 dh_data))))
            (\<lambda>key_bytes.
               if list_all (\<lambda>x. x = 0) key_bytes
               then Err (tamper MsgEncryptionError ''Extracted remote public key is all ZEROS!'')
               else Ok key_bytes))"

section \<open>Deriving the keys\<close>

definition ikm_domain_v3 :: bytes where
  "ikm_domain_v3 = ascii ''nrxp-v3-static-dh''"

definition key_error :: "('e, 'a) result \<Rightarrow> ('e \<Rightarrow> string) \<Rightarrow> (app_error, 'a) result" where
  "key_error r show = map_err (\<lambda>e. tamper MsgKeyError (show e)) r"

text \<open>The input key material: the ephemeral result alone, or with the static one and the domain.\<close>

definition build_ikm :: "crypto \<Rightarrow> session_keys \<Rightarrow> bytes \<Rightarrow> (app_error, bytes) result" where
  "build_ikm P k public_key =
     (case ecdh_dh P (sk_ecdh k) public_key of
        None \<Rightarrow> Err (tamper MsgFailure ''No shared secret'')
      | Some ephemeral \<Rightarrow>
          if uses_static_dh k then
            (case sk_identity k of
               None \<Rightarrow> Panic
             | Some i \<Rightarrow>
                 (case static_dh P i (sk_ecdh k) public_key of
                    None \<Rightarrow> Err (tamper MsgFailure ''No static secret'')
                  | Some s \<Rightarrow> Ok (ephemeral @ s @ ikm_domain_v3)))
          else Ok ephemeral)"

definition generate_keys ::
  "crypto \<Rightarrow> session_keys \<Rightarrow> bytes \<Rightarrow> bool \<Rightarrow> (app_error, directional_keys) result \<times> session_keys" where
  "generate_keys P k public_key is_server =
     (case build_ikm P k public_key of
        Err e \<Rightarrow> (Err e, k)
      | Panic \<Rightarrow> (Panic, k)
      | Ok ikm \<Rightarrow>
          (let k1 = k\<lparr>sk_ecdh := ecdh_burn (sk_ecdh k)\<rparr>;
               (prk_bytes, hkdf) = extract_key P (get_total (sk_salt k1)) ikm;
               k2 = k1\<lparr>sk_datagram_root := Some prk_bytes\<rparr>;
               derive = (\<lambda>n mark. key_error (expand_key P n hkdf (ascii mark)) (\<lambda>e. e));
               all_keys =
                 bind_result (derive 32 ''client_aead'') (\<lambda>c_key.
                 bind_result (derive 12 ''client_iv'') (\<lambda>c_iv.
                 bind_result (derive 32 ''server_aead'') (\<lambda>s_key.
                 bind_result (derive 12 ''server_iv'') (\<lambda>s_iv.
                 bind_result (derive 32 ''auth_key'') (\<lambda>auth_key.
                   Ok (if is_server then (s_key, s_iv, c_key, c_iv) else (c_key, c_iv, s_key, s_iv), auth_key))))))
           in case all_keys of
                Ok (keys, auth_key) \<Rightarrow> (Ok keys, k2\<lparr>sk_auth_key := auth_key, sk_current_aead := Some keys\<rparr>)
              | Err e \<Rightarrow> (Err e, k2)
              | Panic \<Rightarrow> (Panic, k2)))"

definition update_keys ::
  "crypto \<Rightarrow> session_keys \<Rightarrow> bytes \<Rightarrow> extension_stack \<Rightarrow> bool \<Rightarrow>
     (app_error, directional_keys) result \<times> session_keys" where
  "update_keys P k salt exts is_server =
     (let k1 = k\<lparr>sk_salt := set_remote_salt (sk_salt k) salt\<rparr>
      in case extract_peer_public exts is_server of
           Err e \<Rightarrow> (Err e, k1)
         | Panic \<Rightarrow> (Panic, k1)
         | Ok public_key \<Rightarrow> generate_keys P k1 public_key is_server)"

text \<open>\<open>DatagramKeyMaterial::derive\<close>.\<close>

definition derive_leg :: "crypto \<Rightarrow> session_keys \<Rightarrow> dgram_keys option" where
  "derive_leg P k = Option.bind (keys_datagram_root k) (\<lambda>root. derive_from_root P root (is_initiator k))"

section \<open>The key schedule\<close>

text \<open>The output of one expansion from a pseudo-random key, and the keys of one side.\<close>

definition okm :: "crypto \<Rightarrow> bytes \<Rightarrow> nat \<Rightarrow> string \<Rightarrow> bytes" where
  "okm P prk n mark = the (hkdf_expand P prk (ascii mark) n)"

definition schedule :: "crypto \<Rightarrow> bytes \<Rightarrow> bool \<Rightarrow> directional_keys" where
  "schedule P prk is_server =
     (let c = (okm P prk 32 ''client_aead'', okm P prk 12 ''client_iv'');
          s = (okm P prk 32 ''server_aead'', okm P prk 12 ''server_iv'')
      in if is_server then (fst s, snd s, fst c, snd c) else (fst c, snd c, fst s, snd s))"

definition prk_of :: "crypto \<Rightarrow> session_keys \<Rightarrow> bytes \<Rightarrow> bytes" where
  "prk_of P k ikm = hkdf_extract P (get_total (sk_salt k)) ikm"

lemma expand_key_okm:
  "hkdf_lengths P \<Longrightarrow> n \<le> 255 * 32 \<Longrightarrow> expand_key P n prk (ascii mark) = Ok (okm P prk n mark)"
proof -
  assume "hkdf_lengths P" "n \<le> 255 * 32"
  then obtain bs where "hkdf_expand P prk (ascii mark) n = Some bs"
    by (rule hkdf_expand_Some)
  then show ?thesis
    by (simp add: expand_key_def okm_def)
qed

lemma generate_keys_ok:
  assumes "hkdf_lengths P" "build_ikm P k pub = Ok ikm"
  shows "generate_keys P k pub is_server =
    (Ok (schedule P (prk_of P k ikm) is_server),
     k\<lparr>sk_ecdh := ecdh_burn (sk_ecdh k), sk_datagram_root := Some (prk_of P k ikm),
       sk_auth_key := okm P (prk_of P k ikm) 32 ''auth_key'',
       sk_current_aead := Some (schedule P (prk_of P k ikm) is_server)\<rparr>)"
  using assms(2)
  by (simp add: generate_keys_def extract_key_def Let_def key_error_def expand_key_okm [OF assms(1)]
      schedule_def prk_of_def)

text \<open>Whatever goes wrong before the derivation is reported with the tamper code.\<close>

lemma extract_peer_public_error:
  "case extract_peer_public exts is_server of
     Ok key \<Rightarrow> True
   | Err e \<Rightarrow> ap_code e = err_net_tls_tamper
   | Panic \<Rightarrow> False"
  by (auto simp: extract_peer_public_def tamper_def app_error_new_def Let_def
      split: option.splits if_splits)

lemma update_keys_burnt:
  assumes "ec_private_key (sk_ecdh k) = None"
  shows "\<exists>e. fst (update_keys P k salt exts is_server) = Err e \<and> ap_code e = err_net_tls_tamper"
  using extract_peer_public_error [of exts is_server] assms
  by (auto simp: update_keys_def generate_keys_def build_ikm_def ecdh_dh_def tamper_def app_error_new_def
      split: result.splits)

lemma update_keys_burns:
  assumes "fst (update_keys P k salt exts is_server) = Ok keys"
  shows "ec_private_key (sk_ecdh (snd (update_keys P k salt exts is_server))) = None"
  using assms
  by (auto simp: update_keys_def generate_keys_def Let_def ecdh_burn_def split: result.splits prod.splits)

text \<open>What a side has already told its peer is not changed by a derivation.\<close>

lemma update_keys_keeps:
  "keys_local_salt (snd (update_keys P k salt exts is_server)) = keys_local_salt k"
  "public_key_bytes (snd (update_keys P k salt exts is_server)) = public_key_bytes k"
  by (auto simp: update_keys_def generate_keys_def Let_def keys_local_salt_def public_key_bytes_def
      set_remote_salt_def ecdh_burn_def split: result.split prod.split)

text \<open>A derivation never panics, and changes the keys only when it succeeds.\<close>

lemma update_keys_result:
  "case update_keys P k salt exts is_server of
     (Ok keys, k') \<Rightarrow> ec_private_key (sk_ecdh k') = None \<and> sk_current_aead k' = Some keys
   | (Err e, k') \<Rightarrow> sk_current_aead k' = sk_current_aead k \<and> sk_auth_key k' = sk_auth_key k
   | (Panic, k') \<Rightarrow> False"
proof -
  have expand: "key_error (expand_key P n h m) f \<noteq> Panic" for n h m f
    by (simp add: expand_key_def key_error_def split: option.split)
  have bind: "bind_result x f = Panic \<longleftrightarrow> x = Panic \<or> (\<exists>y. x = Ok y \<and> f y = Panic)"
    for x :: "(app_error, 'x) result" and f :: "'x \<Rightarrow> (app_error, 'y) result"
    by (cases x) auto
  have "build_ikm P k' pub \<noteq> Panic" for k' pub
    by (auto simp: build_ikm_def uses_static_dh_def split: option.split)
  moreover have "extract_peer_public exts is_server \<noteq> Panic"
    using extract_peer_public_error [of exts is_server] by auto
  ultimately show ?thesis
    by (auto simp: update_keys_def generate_keys_def Let_def ecdh_burn_def bind expand
        split: result.split prod.split)
qed

section \<open>Walking the key shares\<close>

definition key_share_entry :: "u16 \<times> bytes \<Rightarrow> bytes" where
  "key_share_entry e = be16 (fst e) @ be16 (of_nat (length (snd e))) @ snd e"

definition other_entry :: "u16 \<times> bytes \<Rightarrow> bool" where
  "other_entry e \<longleftrightarrow> length (snd e) < 65536 \<and> \<not> (fst e = group_x25519 \<and> length (snd e) = 32)"

lemma length_key_share_entry [simp]: "length (key_share_entry (g, d)) = 4 + length d"
  by (simp add: key_share_entry_def)

lemma be16_pair: "be16 w = [a, b] \<Longrightarrow> (from_be [a, b] :: u16) = w"
  by (metis from_be_be16)

lemma find_x25519_entry:
  assumes "off = length front" "length d < 65536"
  shows "find_x25519 (front @ key_share_entry (g, d) @ rest) off =
    (if g = group_x25519 \<and> length d = 32 then Some d
     else find_x25519 (front @ key_share_entry (g, d) @ rest) (off + 4 + length d))"
proof -
  obtain a b where g: "be16 g = [a, b]"
    by (simp add: be16_def)
  obtain c e where n: "be16 (of_nat (length d)) = [c, e]"
    by (simp add: be16_def)
  let ?l = "front @ key_share_entry (g, d) @ rest"
  have entry: "?l = front @ [a, b, c, e] @ d @ rest"
    by (simp add: key_share_entry_def g n)
  have "?l ! off = a" "?l ! (off + 1) = b" "?l ! (off + 2) = c" "?l ! (off + 3) = e"
    by (simp_all add: entry assms(1) nth_append)
  moreover have "slice_get (off + 4) (off + 4 + length d) ?l = Some d"
    by (simp add: slice_get_def entry assms(1))
  moreover have "off + 4 \<le> length ?l"
    by (simp add: entry assms(1))
  ultimately show ?thesis
    using assms(2) be16_pair [OF g] be16_pair [OF n]
    by (subst find_x25519.simps) (simp add: Let_def)
qed

lemma find_x25519_walk:
  assumes "list_all other_entry before" "length key = 32"
  shows "find_x25519 (front @ concat (map key_share_entry before) @ key_share_entry (group_x25519, key) @ after)
    (length front) = Some key"
  using assms(1)
proof (induction before arbitrary: front)
  case Nil
  then show ?case
    using find_x25519_entry [of "length front" front key group_x25519 after] assms(2) by simp
next
  case (Cons e before)
  obtain g d where e: "e = (g, d)"
    by (cases e)
  let ?rest = "concat (map key_share_entry before) @ key_share_entry (group_x25519, key) @ after"
  have "length d < 65536" "\<not> (g = group_x25519 \<and> length d = 32)"
    using Cons.prems by (simp_all add: e other_entry_def)
  then have "find_x25519 (front @ key_share_entry (g, d) @ ?rest) (length front) =
      find_x25519 (front @ key_share_entry (g, d) @ ?rest) (length front + 4 + length d)"
    using find_x25519_entry [of "length front" front d g ?rest] by (metis (no_types))
  also have "\<dots> = Some key"
    using Cons.IH [of "front @ key_share_entry (g, d)"] Cons.prems by (simp add: add.assoc)
  finally show ?case
    by (simp add: e)
qed

lemma extract_listed:
  assumes "list_all other_entry before" and "length key = 32" and "\<not> list_all (\<lambda>x. x = 0) key"
    and "entries = concat (map key_share_entry before) @ key_share_entry (group_x25519, key) @ after"
    and "length entries < 65536"
    and "find_by_type ext_key_share exts = Some (be16 (of_nat (length entries)) @ entries)"
  shows "extract_peer_public exts True = Ok key"
proof -
  obtain a b where n: "be16 (of_nat (length entries)) = [a, b]"
    by (simp add: be16_def)
  have "find_x25519 entries 0 = Some key"
    using find_x25519_walk [OF assms(1,2), of "[]" after] by (simp add: assms(4))
  moreover have "slice_get 2 (2 + length entries) (a # b # entries) = Some entries"
    by (simp add: slice_get_def)
  ultimately show ?thesis
    using assms(3,5,6) be16_pair [OF n] by (simp add: extract_peer_public_def n Let_def)
qed

section \<open>An honest exchange\<close>

text \<open>
  Both sides as the constructors make them, before any key update: an ephemeral pair whose
  private half is still there, opposite roles, and credentials that belong together when the
  static exchange is used.
\<close>

definition fresh_pair :: "crypto \<Rightarrow> ecdh \<Rightarrow> bool" where
  "fresh_pair P e \<longleftrightarrow> (\<exists>a. ec_private_key e = Some a \<and> ec_public_key e = x25519_base P a)"

definition credentials_match :: "crypto \<Rightarrow> session_keys \<Rightarrow> session_keys \<Rightarrow> bool" where
  "credentials_match P c s \<longleftrightarrow>
     uses_static_dh c = uses_static_dh s \<and>
     (uses_static_dh c \<longrightarrow>
        (\<exists>p l. sk_identity c = Some (IdPeer p) \<and> sk_identity s = Some (IdLocal l) \<and>
           pi_static_public p = x25519_base P (li_static_private l)))"

definition honest_pair :: "crypto \<Rightarrow> session_keys \<Rightarrow> session_keys \<Rightarrow> bool" where
  "honest_pair P c s \<longleftrightarrow>
     fresh_pair P (sk_ecdh c) \<and> fresh_pair P (sk_ecdh s) \<and> is_initiator c \<and> \<not> is_initiator s \<and>
     credentials_match P c s"

lemma fresh_constructors:
  "fresh_pair P (sk_ecdh (fst (session_keys_new P i r)))"
  "fresh_pair P (sk_ecdh (fst (with_identity P i idn r)))"
  "is_initiator (fst (session_keys_new P i r)) = i"
  "is_initiator (fst (with_identity P i idn r)) = i"
  by (simp_all add: session_keys_new_def with_identity_def salt_pair_new_def ecdh_new_def fresh_pair_def
      is_initiator_def case_prod_beta Let_def)

lemma honest_ikm:
  assumes "dh_commutes P" "honest_pair P c s"
  obtains ikm where "build_ikm P c (public_key_bytes s) = Ok ikm" "build_ikm P s (public_key_bytes c) = Ok ikm"
proof -
  obtain a b where k: "ec_private_key (sk_ecdh c) = Some a" "ec_public_key (sk_ecdh c) = x25519_base P a"
    "ec_private_key (sk_ecdh s) = Some b" "ec_public_key (sk_ecdh s) = x25519_base P b"
    using assms(2) by (auto simp: honest_pair_def fresh_pair_def)
  have dh: "x25519 P y (x25519_base P x) = x25519 P x (x25519_base P y)" for x y
    using assms(1) by (simp add: dh_commutes_def)
  show thesis
  proof (cases "uses_static_dh c")
    case True
    then obtain p l where "sk_identity c = Some (IdPeer p)" "sk_identity s = Some (IdLocal l)"
      "pi_static_public p = x25519_base P (li_static_private l)" "uses_static_dh s"
      using assms(2) by (auto simp: honest_pair_def credentials_match_def)
    with True k that dh [of a b] dh [of a "li_static_private l"] show thesis
      by (simp add: build_ikm_def ecdh_dh_def public_key_bytes_def)
  next
    case False
    then have "\<not> uses_static_dh s"
      using assms(2) by (simp add: honest_pair_def credentials_match_def)
    with False k that dh [of a b] show thesis
      by (simp add: build_ikm_def ecdh_dh_def public_key_bytes_def)
  qed
qed

lemma build_ikm_salt: "build_ikm P (k\<lparr>sk_salt := x\<rparr>) pub = build_ikm P k pub"
  by (simp add: build_ikm_def uses_static_dh_def cong: option.case_cong if_cong)

lemma update_keys_ok:
  assumes "hkdf_lengths P" "extract_peer_public exts is_server = Ok pub" "build_ikm P k pub = Ok ikm"
    and "prk = hkdf_extract P (get_total (set_remote_salt (sk_salt k) salt)) ikm"
  shows "update_keys P k salt exts is_server =
    (Ok (schedule P prk is_server),
     k\<lparr>sk_salt := set_remote_salt (sk_salt k) salt, sk_ecdh := ecdh_burn (sk_ecdh k),
       sk_datagram_root := Some prk, sk_auth_key := okm P prk 32 ''auth_key'',
       sk_current_aead := Some (schedule P prk is_server)\<rparr>)"
  using generate_keys_ok [OF assms(1), of "k\<lparr>sk_salt := set_remote_salt (sk_salt k) salt\<rparr>" pub ikm is_server] assms
  by (simp add: update_keys_def build_ikm_salt prk_of_def)

text \<open>Both sides run the same schedule from one pseudo-random key.\<close>

lemma honest_update:
  assumes "hkdf_lengths P" "dh_commutes P" "honest_pair P c s"
    and "extract_peer_public server_exts False = Ok (public_key_bytes s)"
    and "extract_peer_public client_exts True = Ok (public_key_bytes c)"
  obtains prk c' s' where "length prk = 32"
    "update_keys P c (keys_local_salt s) server_exts False = (Ok (schedule P prk False), c')"
    "update_keys P s (keys_local_salt c) client_exts True = (Ok (schedule P prk True), s')"
    "sk_auth_key c' = sk_auth_key s'" "sk_datagram_root c' = Some prk" "sk_datagram_root s' = Some prk"
    "is_initiator c'" "\<not> is_initiator s'"
    "ec_private_key (sk_ecdh c') = None" "ec_private_key (sk_ecdh s') = None"
    "sk_current_aead s' = Some (schedule P prk True)"
proof -
  obtain ikm where ikm: "build_ikm P c (public_key_bytes s) = Ok ikm" "build_ikm P s (public_key_bytes c) = Ok ikm"
    using honest_ikm [OF assms(2,3)] .
  define prk where "prk = hkdf_extract P (keys_local_salt c @ keys_local_salt s) ikm"
  have role: "sp_initiator (sk_salt c)" "\<not> sp_initiator (sk_salt s)"
    using assms(3) by (simp_all add: honest_pair_def is_initiator_def)
  have salts: "prk = hkdf_extract P (get_total (set_remote_salt (sk_salt c) (keys_local_salt s))) ikm"
    "prk = hkdf_extract P (get_total (set_remote_salt (sk_salt s) (keys_local_salt c))) ikm"
    using role by (simp_all add: prk_def get_total_def set_remote_salt_def keys_local_salt_def)
  have len: "length prk = 32"
    using assms(1) by (simp add: prk_def hkdf_lengths_def)
  show thesis
    by (rule that [OF len update_keys_ok [OF assms(1,4) ikm(1) salts(1)] update_keys_ok [OF assms(1,5) ikm(2) salts(2)]])
       (simp_all add: role is_initiator_def set_remote_salt_def ecdh_burn_def)
qed

text \<open>Credentials that belong together at the tag check.\<close>

definition admissible :: "session_keys \<Rightarrow> session_keys \<Rightarrow> bool" where
  "admissible c s \<longleftrightarrow>
     (case sk_identity c of
        Some i \<Rightarrow> (\<exists>j. sk_identity s = Some j \<and> identity_secret i = identity_secret j)
      | None \<Rightarrow> \<not> rejects_anonymous s \<and> sk_auth_key c = sk_auth_key s)"

lemma honest_check:
  assumes "admissible c s"
    and "unat sent \<le> unat now + 120" and "unat now \<le> unat sent + 120"
  shows "check_hello_tag P now (set_peer_version s (claimed_version c)) (hello_tag_for P sent c random) random
    (public_key_bytes c)"
proof (cases "sk_identity c")
  case None
  then have "fst (verify_tag P (session_auth_new (sk_auth_key s)) now
      (generate_current_tag P (session_auth_new (sk_auth_key s)) sent))"
    using frame_tag.accepts_skew [OF assms(2,3), of P "session_auth_new (sk_auth_key s)"]
    by (simp add: generate_current_tag_def)
  with None assms(1) show ?thesis
    by (simp add: check_hello_tag_def hello_tag_for_def set_peer_version_def claimed_version_def
        uses_static_dh_def admissible_def rejects_anonymous_def)
next
  case (Some i)
  then obtain j where "sk_identity s = Some j" "identity_secret i = identity_secret j"
    using assms(1) by (auto simp: admissible_def)
  moreover have "verify_handshake_tag P (session_auth_new (identity_secret i)) now
      (generate_handshake_tag P (session_auth_new (identity_secret i)) sent random (public_key_bytes c))
      random (public_key_bytes c)"
    unfolding generate_handshake_tag_def by (rule hello_tag.accepts_skew [OF assms(2,3)])
  ultimately show ?thesis
    using Some by (simp add: check_hello_tag_def hello_tag_for_def set_peer_version_def claimed_version_def
        uses_static_dh_def)
qed

section \<open>Properties\<close>

text \<open>When each side takes the other's salt and key share, both
  derivations succeed; what the client writes with is what the server reads with and the
  other way round, both hold the same tag key and the same 32-byte datagram root, and no
  ephemeral private key is left on either side.\<close>

theorem exchange_agrees:
  assumes "hkdf_lengths P" and "dh_commutes P" and "honest_pair P c s"
    and "extract_peer_public server_exts False = Ok (public_key_bytes s)"
    and "extract_peer_public client_exts True = Ok (public_key_bytes c)"
  shows "\<exists>k iv k' iv' c' s' root.
    update_keys P c (keys_local_salt s) server_exts False = (Ok (k, iv, k', iv'), c') \<and>
    update_keys P s (keys_local_salt c) client_exts True = (Ok (k', iv', k, iv), s') \<and>
    get_auth_key c' = get_auth_key s' \<and>
    keys_datagram_root c' = Some root \<and> keys_datagram_root s' = Some root \<and> length root = 32 \<and>
    ec_private_key (sk_ecdh c') = None \<and> ec_private_key (sk_ecdh s') = None"
  using assms
  by (rule honest_update) (simp add: schedule_def Let_def get_auth_key_def keys_datagram_root_def)

definition demo_client_keys :: session_keys where
  "demo_client_keys = fst (with_identity toy_crypto True (IdPeer \<lparr>pi_secret = [7], pi_static_public = x25519_base toy_crypto [9]\<rparr>) (\<lambda>i. 1))"

definition demo_server_keys :: session_keys where
  "demo_server_keys = fst (with_identity toy_crypto False (IdLocal \<lparr>li_secret = [7], li_static_private = [9], li_strict = True\<rparr>) (\<lambda>i. 2))"

definition demo_server_share :: extension_stack where
  "demo_server_share = [extension_new ext_key_share ([0, 0x1d, 0, 32] @ replicate 32 2)]"

definition demo_client_share :: extension_stack where
  "demo_client_share = [extension_new ext_key_share ([0, 36, 0, 0x1d, 0, 32] @ replicate 32 1)]"

lemma demo_honest: "honest_pair toy_crypto demo_client_keys demo_server_keys"
  unfolding honest_pair_def
  by (simp add: demo_client_keys_def demo_server_keys_def fresh_constructors)
     (simp add: credentials_match_def uses_static_dh_def with_identity_def case_prod_beta)

lemma demo_shares:
  "extract_peer_public demo_server_share False = Ok (public_key_bytes demo_server_keys)"
  "extract_peer_public demo_client_share True = Ok (public_key_bytes demo_client_keys)"
  by code_simp+

lemma exchange_agrees_witness:
  "\<exists>k iv k' iv' c' s' root.
    update_keys toy_crypto demo_client_keys (keys_local_salt demo_server_keys) demo_server_share False =
      (Ok (k, iv, k', iv'), c') \<and>
    update_keys toy_crypto demo_server_keys (keys_local_salt demo_client_keys) demo_client_share True =
      (Ok (k', iv', k, iv), s') \<and>
    get_auth_key c' = get_auth_key s' \<and>
    keys_datagram_root c' = Some root \<and> keys_datagram_root s' = Some root \<and> length root = 32 \<and>
    ec_private_key (sk_ecdh c') = None \<and> ec_private_key (sk_ecdh s') = None"
  by (rule exchange_agrees [OF toy_crypto_laws(5,6) demo_honest demo_shares])

text \<open>After the same exchange both sides can derive the material of a
  datagram leg; the leg token is the same and every sending chain and header key of one side
  is the receiving one of the other.\<close>

theorem exchange_leg:
  assumes "hkdf_lengths P" and "dh_commutes P" and "honest_pair P c s"
    and "extract_peer_public server_exts False = Ok (public_key_bytes s)"
    and "extract_peer_public client_exts True = Ok (public_key_bytes c)"
  shows "\<exists>lc ls.
    derive_leg P (snd (update_keys P c (keys_local_salt s) server_exts False)) = Some lc \<and>
    derive_leg P (snd (update_keys P s (keys_local_salt c) client_exts True)) = Some ls \<and>
    dk_leg_token lc = dk_leg_token ls \<and> dk_tx lc = dk_rx ls \<and> dk_rx lc = dk_tx ls \<and>
    dk_hp_key_tx lc = dk_hp_key_rx ls \<and> dk_hp_key_rx lc = dk_hp_key_tx ls \<and>
    dgram_keys_wf P lc \<and> dgram_keys_wf P ls"
  using assms
proof (rule honest_update)
  fix prk c' s'
  assume "length (prk :: bytes) = 32"
    and *: "update_keys P c (keys_local_salt s) server_exts False = (Ok (schedule P prk False), c')"
    "update_keys P s (keys_local_salt c) client_exts True = (Ok (schedule P prk True), s')"
    "sk_datagram_root c' = Some prk" "sk_datagram_root s' = Some prk" "is_initiator c'" "\<not> is_initiator s'"
  then obtain lc ls where "derive_from_root P prk True = Some lc" "derive_from_root P prk False = Some ls"
    "dk_leg_token lc = dk_leg_token ls" "dk_tx lc = dk_rx ls" "dk_rx lc = dk_tx ls"
    "dk_hp_key_tx lc = dk_hp_key_rx ls" "dk_hp_key_rx lc = dk_hp_key_tx ls"
    "dgram_keys_wf P lc" "dgram_keys_wf P ls"
    using root_mirrored [OF assms(1)] by blast
  with * show ?thesis
    by (simp add: derive_leg_def keys_datagram_root_def)
qed

lemma exchange_leg_witness:
  "\<exists>lc ls.
    derive_leg toy_crypto (snd (update_keys toy_crypto demo_client_keys (keys_local_salt demo_server_keys) demo_server_share False)) = Some lc \<and>
    derive_leg toy_crypto (snd (update_keys toy_crypto demo_server_keys (keys_local_salt demo_client_keys) demo_client_share True)) = Some ls \<and>
    dk_leg_token lc = dk_leg_token ls \<and> dk_tx lc = dk_rx ls \<and> dk_rx lc = dk_tx ls \<and>
    dk_hp_key_tx lc = dk_hp_key_rx ls \<and> dk_hp_key_rx lc = dk_hp_key_tx ls \<and>
    dgram_keys_wf toy_crypto lc \<and> dgram_keys_wf toy_crypto ls"
  by (rule exchange_leg [OF toy_crypto_laws(5,6) demo_honest demo_shares])

text \<open>After a successful derivation every further attempt
  of the same side fails with the tamper code, for any salt, key share and role.\<close>

theorem ephemeral_key_used_once:
  assumes "fst (update_keys P k salt exts is_server) = Ok keys"
  shows "\<exists>e. fst (update_keys P (snd (update_keys P k salt exts is_server)) salt' exts' is_server') = Err e \<and>
    ap_code e = err_net_tls_tamper"
  using update_keys_burns [OF assms] by (rule update_keys_burnt)

lemma ephemeral_key_used_once_witness:
  "\<exists>e. fst (update_keys toy_crypto
       (snd (update_keys toy_crypto demo_client_keys (keys_local_salt demo_server_keys) demo_server_share False))
       [] demo_server_share False) = Err e \<and> ap_code e = err_net_tls_tamper"
proof -
  obtain keys where
    "fst (update_keys toy_crypto demo_client_keys (keys_local_salt demo_server_keys) demo_server_share False) = Ok keys"
    using honest_update [OF toy_crypto_laws(5,6) demo_honest demo_shares] by (metis fst_conv)
  then show ?thesis
    by (rule ephemeral_key_used_once)
qed

text \<open>In the list of a client hello the x25519 key is found
  whatever the entries before it contain (other groups, GREASE, post-quantum filler, even
  bytes that look like an x25519 header) and whatever bytes follow it.\<close>

theorem key_share_by_structure:
  assumes "list_all other_entry before" and "length key = 32" and "\<not> list_all (\<lambda>x. x = 0) key"
    and "entries = concat (map key_share_entry before) @ key_share_entry (group_x25519, key) @ after"
    and "length entries < 65536"
    and "find_by_type ext_key_share exts = Some (be16 (of_nat (length entries)) @ entries)"
  shows "extract_peer_public exts True = Ok key"
  using assms by (rule extract_listed)

lemma key_share_by_structure_witness:
  "extract_peer_public
     [extension_new ext_key_share
        (be16 46 @ key_share_entry (0x11ec, [0, 0x1d, 0, 32]) @ key_share_entry (group_x25519, replicate 32 5) @ [9, 9])] True
   = Ok (replicate 32 5)"
  by (rule key_share_by_structure
        [where before = "[(0x11ec, [0, 0x1d, 0, 32])]" and after = "[9, 9]", OF _ _ _ refl])
     (simp_all add: other_entry_def find_by_type_def extension_new_def list_all_iff)

text \<open>The tag of a client is accepted by a node with the same
  credential whose clock is at most two minutes off, for the random and the key share the
  client sent; and so is the tag of an anonymous client by a node that does not insist on
  credentials.\<close>

theorem honest_hello_accepted:
  assumes "admissible c s"
    and "unat sent \<le> unat now + 120" and "unat now \<le> unat sent + 120"
  shows "check_hello_tag P now (set_peer_version s (claimed_version c)) (hello_tag_for P sent c random) random
    (public_key_bytes c)"
  using assms by (rule honest_check)

lemma honest_hello_accepted_witness:
  "check_hello_tag toy_crypto 1000 (set_peer_version demo_server_keys (claimed_version demo_client_keys))
     (hello_tag_for toy_crypto 1090 demo_client_keys [1, 2]) [1, 2] (public_key_bytes demo_client_keys)"
  by (rule honest_hello_accepted)
     (simp_all add: admissible_def demo_client_keys_def demo_server_keys_def with_identity_def case_prod_beta)

text \<open>A node that insists on credentials accepts no tag of
  a client that claims an older protocol version, not even one it would have made itself.\<close>

theorem strict_refuses_downgrade:
  assumes "rejects_anonymous s" and "version < min_version_for_static_dh"
  shows "\<not> check_hello_tag P now (set_peer_version s version) tag random peer_public"
  using assms
  by (auto simp: check_hello_tag_def set_peer_version_def uses_static_dh_def rejects_anonymous_def
      split: option.splits dest: leD)

lemma strict_refuses_downgrade_witness:
  "\<not> check_hello_tag toy_crypto 1000 (set_peer_version demo_server_keys 2)
     (generate_current_tag toy_crypto (session_auth_new (replicate 32 0)) 1000) [] []"
  by (rule strict_refuses_downgrade)
     (simp_all add: rejects_anonymous_def demo_server_keys_def with_identity_def case_prod_beta)

end
