(* ===== verification/Mlkem.thy ===== *)
theory Mlkem
  imports Prelude
begin

text \<open>
  The post-quantum filler of the key share, \<open>engine/src/tlseng/mlkem.rs\<close>: 768 coefficients
  below the modulus drawn by rejection, packed twelve bits each, and 64 random bytes.  The
  rejection loop may run for ever on a bad generator, so it is a partial function; the
  lemmas show that it returns whenever the generator keeps offering acceptable words, that
  the packing is inverted by the decoder a peer would run, and that every coefficient passes
  its modulus check.
\<close>

section \<open>Sizes\<close>

definition mlkem_q :: u16 where "mlkem_q = 3329"
definition mlkem_n :: nat where "mlkem_n = 256"
definition mlkem_k :: nat where "mlkem_k = 3"
definition t_hat_len :: nat where "t_hat_len = mlkem_k * mlkem_n * 12 div 8"
definition rho_len :: nat where "rho_len = 32"
definition ml_kem_768_ek_len :: nat where "ml_kem_768_ek_len = t_hat_len + rho_len"
definition x25519_pk_len :: nat where "x25519_pk_len = 32"
definition x25519_mlkem768_share_len :: nat where
  "x25519_mlkem768_share_len = ml_kem_768_ek_len + x25519_pk_len"

lemma mlkem_sizes [simp]:
  "mlkem_q = 3329" "mlkem_n = 256" "mlkem_k = 3" "t_hat_len = 1152" "x25519_mlkem768_share_len = 1216"
  by (simp_all add: mlkem_q_def mlkem_n_def mlkem_k_def t_hat_len_def rho_len_def ml_kem_768_ek_len_def
      x25519_pk_len_def x25519_mlkem768_share_len_def)

section \<open>Packing\<close>

text \<open>Pairs of coefficients are written over chunks of three bytes; what is left stays.\<close>

fun byte_encode_12 :: "u16 list \<Rightarrow> bytes \<Rightarrow> bytes" where
  "byte_encode_12 (a # b # coeffs) (_ # _ # _ # out) =
     (let a' = ucast a :: u32; b' = ucast b :: u32
      in ucast (a' AND 0xff) #
         ucast ((drop_bit 8 a' AND 0x0f) OR push_bit 4 (b' AND 0x0f)) #
         ucast (drop_bit 4 b' AND 0xff) # byte_encode_12 coeffs out)"
| "byte_encode_12 coeffs out = out"

fun byte_decode_12 :: "bytes \<Rightarrow> u16 list" where
  "byte_decode_12 (c0 # c1 # c2 # rest) =
     (let b0 = ucast c0; b1 = ucast c1; b2 = ucast c2 :: u16
      in (b0 OR push_bit 8 (b1 AND 0x0f)) # (drop_bit 4 b1 OR push_bit 4 b2) # byte_decode_12 rest)"
| "byte_decode_12 _ = []"

section \<open>Drawing coefficients\<close>

text \<open>The closure \<open>next_u16\<close>: a buffer of random bytes, refilled when it is used up.\<close>

record entropy =
  en_buf :: bytes
  en_cursor :: nat
  en_rng :: rng

definition next_u16 :: "entropy \<Rightarrow> u16 \<times> entropy" where
  "next_u16 st =
     (let st1 = (if length (en_buf st) < en_cursor st + 2
                 then (let (buf, r) = fill_bytes (length (en_buf st)) (en_rng st)
                       in st\<lparr>en_buf := buf, en_cursor := 0, en_rng := r\<rparr>)
                 else st);
          c = en_cursor st1
      in (from_be [en_buf st1 ! (c + 1), en_buf st1 ! c], st1\<lparr>en_cursor := c + 2\<rparr>))"

partial_function (option) sample_coefficient :: "entropy \<Rightarrow> (u16 \<times> entropy) option" where
  "sample_coefficient st =
     (let (w, st') = next_u16 st; v = w AND 0x0fff
      in if v < mlkem_q then Some (v, st') else sample_coefficient st')"

fun sample_coefficients :: "nat \<Rightarrow> entropy \<Rightarrow> (u16 list \<times> entropy) option" where
  "sample_coefficients 0 st = Some ([], st)"
| "sample_coefficients (Suc n) st =
     Option.bind (sample_coefficient st) (\<lambda>(c, st').
     map_option (\<lambda>(cs, st''). (c # cs, st'')) (sample_coefficients n st'))"

definition sample_x25519_mlkem768_share :: "rng \<Rightarrow> (bytes \<times> rng) option" where
  "sample_x25519_mlkem768_share r =
     (let (buf, r1) = fill_bytes (mlkem_k * mlkem_n * 4) r
      in Option.bind (sample_coefficients (mlkem_k * mlkem_n) \<lparr>en_buf = buf, en_cursor = 0, en_rng = r1\<rparr>)
           (\<lambda>(coeffs, st).
              let head = byte_encode_12 coeffs (replicate t_hat_len 0);
                  (tail, r2) = fill_bytes (x25519_mlkem768_share_len - t_hat_len) (en_rng st)
              in Some (head @ tail, r2)))"

section \<open>The packing is inverted\<close>

lemma low_masks:
  "(x :: 'a::len word) AND 0xff = take_bit 8 x" "x AND 0x0f = take_bit 4 x" "x AND 0x0fff = take_bit 12 x"
  by (simp_all add: take_bit_eq_mask mask_eq_exp_minus_1)

lemma low_bit:
  assumes "w < (4096 :: u16)" "bit w n"
  shows "n < 12"
proof -
  have "w = take_bit 12 w"
    using assms(1) by (simp add: word_eq_iff_unsigned [where 'a = nat] word_less_nat_alt take_bit_eq_mod unat_mod_distrib)
  then show ?thesis
    using assms(2) by (metis bit_take_bit_iff)
qed

lemma pack_pair:
  assumes "a < 4096" "b < 4096"
  shows "byte_decode_12 (byte_encode_12 (a # b # cs) (x # y # z # out)) =
    a # b # byte_decode_12 (byte_encode_12 cs out)"
  unfolding byte_encode_12.simps byte_decode_12.simps Let_def low_masks list.inject
  by (intro conjI refl bit_word_eqI)
     (auto simp: bit_simps dest: low_bit [OF assms(1)] low_bit [OF assms(2)])

lemma length_encode [simp]: "length (byte_encode_12 cs out) = length out"
  by (induction cs out rule: byte_encode_12.induct) (simp_all add: Let_def)

lemma pack_roundtrip:
  assumes "length out = 3 * n" "length cs = 2 * n" "list_all (\<lambda>c. c < 4096) cs"
  shows "byte_decode_12 (byte_encode_12 cs out) = cs"
  using assms
proof (induction n arbitrary: cs out)
  case (Suc n)
  obtain a b cs' where cs: "cs = a # b # cs'"
    using Suc.prems(2) by (cases cs; cases "tl cs") auto
  obtain x y z out' where out: "out = x # y # z # out'"
    using Suc.prems(1) by (cases out; cases "tl out"; cases "tl (tl out)") auto
  show ?case
    using Suc.IH [of out' cs'] Suc.prems pack_pair [of a b cs' x y z out'] by (simp add: cs out)
qed simp

section \<open>What the generator has to offer\<close>

text \<open>The sixteen-bit words in the order the closure reads them, from the position of a state.\<close>

definition word_at :: "rng \<Rightarrow> nat \<Rightarrow> u16" where
  "word_at r p = from_be [r (p + 1), r p]"

definition acceptable :: "rng \<Rightarrow> nat \<Rightarrow> bool" where
  "acceptable r p \<longleftrightarrow> word_at r p AND 0x0fff < mlkem_q"

definition entropy_at :: "rng \<Rightarrow> nat \<Rightarrow> entropy \<Rightarrow> bool" where
  "entropy_at r p st \<longleftrightarrow>
     (\<exists>base len. 2 \<le> len \<and> even len \<and> en_buf st = map r [base..<base + len] \<and>
        en_rng st = (\<lambda>i. r (i + (base + len))) \<and> en_cursor st \<le> len \<and> even (en_cursor st) \<and>
        p = base + en_cursor st)"

lemma fill_shift: "fill_bytes n (\<lambda>i. r (i + k)) = (map r [k..<k + n], \<lambda>i. r (i + (k + n)))"
  by (auto simp: fill_bytes_def add.assoc add.commute add.left_commute intro: nth_equalityI)

lemma next_u16_at:
  assumes "entropy_at r p st"
  obtains st' where "next_u16 st = (word_at r p, st')" "entropy_at r (p + 2) st'"
proof -
  obtain base len where st: "2 \<le> len" "even len" "en_buf st = map r [base..<base + len]"
    "en_rng st = (\<lambda>i. r (i + (base + len)))" "en_cursor st \<le> len" "even (en_cursor st)" "p = base + en_cursor st"
    using assms unfolding entropy_at_def by blast
  show thesis
  proof (cases "len < en_cursor st + 2")
    case True
    then have "en_cursor st = len"
      using st(1,2,5,6) by presburger
    then have "next_u16 st = (word_at r p,
        st\<lparr>en_buf := map r [p..<p + len], en_cursor := Suc (Suc 0), en_rng := \<lambda>i. r (i + (p + len))\<rparr>)"
      using st True
      by (simp add: next_u16_def Let_def fill_shift word_at_def)
    then show thesis
      by (rule that) (use st \<open>en_cursor st = len\<close> in \<open>auto simp: entropy_at_def intro!: exI [of _ p] exI [of _ len]\<close>)
  next
    case False
    then have "next_u16 st = (word_at r p, st\<lparr>en_cursor := en_cursor st + 2\<rparr>)"
      using st by (simp add: next_u16_def Let_def word_at_def)
    then show thesis
      by (rule that) (use st False in \<open>auto simp: entropy_at_def intro!: exI [of _ base] exI [of _ len]\<close>)
  qed
qed

lemma sample_coefficient_ok:
  assumes "entropy_at r p st" "acceptable r (p + 2 * n)"
  shows "\<exists>v st' q. sample_coefficient st = Some (v, st') \<and> v < mlkem_q \<and> entropy_at r q st'"
  using assms
proof (induction n arbitrary: p st)
  case 0
  obtain st' where st': "next_u16 st = (word_at r p, st')" "entropy_at r (p + 2) st'"
    by (rule next_u16_at [OF 0(1)])
  then have "sample_coefficient st = Some (word_at r p AND 0x0fff, st')"
    using 0(2) by (subst sample_coefficient.simps) (simp add: acceptable_def)
  then show ?case
    using 0(2) st'(2) by (auto simp: acceptable_def)
next
  case (Suc n)
  obtain st' where st': "next_u16 st = (word_at r p, st')" "entropy_at r (p + 2) st'"
    by (rule next_u16_at [OF Suc.prems(1)])
  show ?case
  proof (cases "acceptable r p")
    case True
    then have "sample_coefficient st = Some (word_at r p AND 0x0fff, st')"
      by (subst sample_coefficient.simps) (simp add: acceptable_def st')
    then show ?thesis
      using True st'(2) by (auto simp: acceptable_def)
  next
    case False
    then have "sample_coefficient st = sample_coefficient st'"
      by (subst sample_coefficient.simps) (simp add: acceptable_def st')
    with Suc.IH [OF st'(2)] Suc.prems(2) show ?thesis
      by (simp add: add.assoc)
  qed
qed

definition generous :: "rng \<Rightarrow> bool" where
  "generous r \<longleftrightarrow> (\<forall>p. \<exists>n. acceptable r (p + 2 * n))"

lemma generous_shift: "generous r \<Longrightarrow> generous (\<lambda>i. r (i + k))"
proof -
  assume "generous r"
  then have "\<exists>n. acceptable r ((p + k) + 2 * n)" for p
    by (simp add: generous_def)
  moreover have "acceptable (\<lambda>i. r (i + k)) (p + 2 * n) = acceptable r ((p + k) + 2 * n)" for p n
    by (simp add: acceptable_def word_at_def ac_simps)
  ultimately show ?thesis
    by (simp add: generous_def)
qed

lemma generous_fill: "generous r \<Longrightarrow> generous (snd (fill_bytes n r))"
  by (simp add: fill_bytes_def generous_shift)

lemma generous_entropy: "entropy_at r p st \<Longrightarrow> generous r \<Longrightarrow> generous (en_rng st)"
  by (auto simp: entropy_at_def generous_shift)

lemma sample_coefficients_ok:
  assumes "entropy_at r p st" "generous r"
  shows "\<exists>cs st' q. sample_coefficients n st = Some (cs, st') \<and> length cs = n \<and>
    list_all (\<lambda>c. c < mlkem_q) cs \<and> entropy_at r q st'"
  using assms(1)
proof (induction n arbitrary: p st)
  case (Suc n)
  obtain k where "acceptable r (p + 2 * k)"
    using assms(2) unfolding generous_def by blast
  then obtain v st' q where v: "sample_coefficient st = Some (v, st')" "v < mlkem_q" "entropy_at r q st'"
    using sample_coefficient_ok [OF Suc.prems] by blast
  from Suc.IH [OF v(3)] v show ?case
    by auto
qed auto

lemma mlkem_share_ok:
  assumes "generous r"
  obtains share r' where "sample_x25519_mlkem768_share r = Some (share, r')" "length share = 1216"
    "length (byte_decode_12 (take 1152 share)) = 768"
    "list_all (\<lambda>c. c < 3329) (byte_decode_12 (take 1152 share))" "generous r'"
proof -
  have "entropy_at r 0 \<lparr>en_buf = fst (fill_bytes 3072 r), en_cursor = 0, en_rng = snd (fill_bytes 3072 r)\<rparr>"
    by (auto simp: entropy_at_def fill_bytes_def intro!: exI [of _ "0 :: nat"] exI [of _ "3072 :: nat"])
  then obtain cs st where cs: "sample_coefficients 768
      \<lparr>en_buf = fst (fill_bytes 3072 r), en_cursor = 0, en_rng = snd (fill_bytes 3072 r)\<rparr> = Some (cs, st)"
    "length cs = 768" "list_all (\<lambda>c. c < mlkem_q) cs" "\<exists>q. entropy_at r q st"
    using sample_coefficients_ok [OF _ assms, of 0 _ 768] by blast
  have "list_all (\<lambda>c. c < 4096) cs"
    using cs(3) by (rule list.pred_mono_strong) (erule order.strict_trans2 [OF _ less_imp_le], simp)
  then have "byte_decode_12 (byte_encode_12 cs (replicate 1152 0)) = cs"
    using cs(2) by (intro pack_roundtrip [where n = 384]) simp_all
  moreover obtain q where "entropy_at r q st"
    using cs(4) by blast
  moreover from this have "generous (snd (fill_bytes 64 (en_rng st)))"
    by (rule generous_fill [OF generous_entropy [OF _ assms]])
  ultimately show thesis
    using cs(1,2,3)
    by (intro that [of "byte_encode_12 cs (replicate 1152 0) @ fst (fill_bytes 64 (en_rng st))"
          "snd (fill_bytes 64 (en_rng st))"])
       (simp_all add: sample_x25519_mlkem768_share_def case_prod_beta Let_def)
qed

section \<open>Properties\<close>

text \<open>Property C25 (share_passes_modulus_check): whatever the generator yields, as long as every
  position is followed by some acceptable word, the sampling ends, the share has the 1216
  bytes of the group, and the decoder of FIPS 203 reads 768 coefficients out of its first
  1152 bytes, all below the modulus.\<close>

theorem share_passes_modulus_check:
  assumes "generous r"
  shows "\<exists>share r'. sample_x25519_mlkem768_share r = Some (share, r') \<and>
    length share = x25519_mlkem768_share_len \<and>
    length (byte_decode_12 (take t_hat_len share)) = mlkem_k * mlkem_n \<and>
    list_all (\<lambda>c. c < mlkem_q) (byte_decode_12 (take t_hat_len share))"
  using assms by (rule mlkem_share_ok) simp

lemma share_passes_modulus_check_witness:
  "\<exists>share r'. sample_x25519_mlkem768_share (\<lambda>i. 1) = Some (share, r') \<and>
    length share = x25519_mlkem768_share_len \<and>
    length (byte_decode_12 (take t_hat_len share)) = mlkem_k * mlkem_n \<and>
    list_all (\<lambda>c. c < mlkem_q) (byte_decode_12 (take t_hat_len share))"
  by (rule share_passes_modulus_check) (simp add: generous_def acceptable_def word_at_def from_be_def)

end
