(* ===== verification/Profile.thy ===== *)
theory Profile
  imports Session_Auth Wire_Types
begin

text \<open>
  The fingerprint recipes: the GREASE draw of a connection (\<open>engine/src/tlseng/grease.rs\<close>)
  and the browser and server profiles (\<open>engine/src/tlseng/profile.rs\<close>).  The lemmas show that
  every drawn value is a GREASE value, and that each profile stays within the size limits the
  extension builder relies on.
\<close>

section \<open>GREASE\<close>

definition grease_values :: "u16 list" where
  "grease_values =
     [0x0a0a, 0x1a1a, 0x2a2a, 0x3a3a, 0x4a4a, 0x5a5a, 0x6a6a, 0x7a7a, 0x8a8a, 0x9a9a, 0xaaaa, 0xbaba,
      0xcaca, 0xdada, 0xeaea, 0xfafa]"

record grease_set =
  gs_cipher :: u16
  gs_group :: u16
  gs_ext_first :: u16
  gs_ext_last :: u16
  gs_version :: u16

definition grease_random :: "rng \<Rightarrow> grease_set \<times> rng" where
  "grease_random r =
     (let (b, r') = fill_bytes 5 r;
          pick = (\<lambda>i. grease_values ! unat (b ! i AND 0x0f))
      in (\<lparr>gs_cipher = pick 0, gs_group = pick 1, gs_ext_first = pick 2, gs_ext_last = pick 3,
           gs_version = pick 4\<rparr>, r'))"

definition grease_fixed :: grease_set where
  "grease_fixed = \<lparr>gs_cipher = 0xcaca, gs_group = 0x8a8a, gs_ext_first = 0xdada, gs_ext_last = 0x8a8a,
     gs_version = 0xfafa\<rparr>"

definition all_grease :: "grease_set \<Rightarrow> bool" where
  "all_grease g \<longleftrightarrow> is_grease (gs_cipher g) \<and> is_grease (gs_group g) \<and> is_grease (gs_ext_first g) \<and>
     is_grease (gs_ext_last g) \<and> is_grease (gs_version g)"

lemma grease_values_grease: "list_all is_grease grease_values"
  by (simp add: grease_values_def is_grease_def drop_bit_eq_div)

lemma grease_pick: "is_grease (grease_values ! unat (b AND 0x0f :: u8))"
proof -
  have "unat (b AND 0x0f) < 16"
    using word_and_le1 [of b "0x0f"] by (simp add: word_le_nat_alt)
  then show ?thesis
    using grease_values_grease by (simp add: list_all_length grease_values_def)
qed

lemma grease_random_all: "all_grease (fst (grease_random r))"
  by (simp add: all_grease_def grease_random_def case_prod_beta Let_def grease_pick)

text \<open>GREASE ids are disjoint from the ids the parsers look for.\<close>

lemma grease_not_ext: "is_grease i \<Longrightarrow> i \<noteq> ext_key_share \<and> i \<noteq> ext_sni"
  by (auto simp: is_grease_def ext_defs)

lemma grease_not_group: "is_grease i \<Longrightarrow> i \<noteq> group_x25519"
  by (auto simp: is_grease_def group_defs)

section \<open>Profiles\<close>

record browser_profile =
  bp_groups :: "u16 list"
  bp_signatures :: "u16 list"
  bp_delegated_signatures :: "u16 list"
  bp_versions :: "u16 list"
  bp_alpn :: "bytes list"
  bp_extension_order :: "u16 list"
  bp_cipher_suites :: "u16 list"
  bp_record_layer_version :: protocol_version
  bp_target_padding_len :: u16
  bp_alps_protocols :: "bytes list"
  bp_has_grease :: bool
  bp_shuffle_extensions :: bool

definition chrome_140 :: browser_profile where
  "chrome_140 =
     \<lparr>bp_groups = groups_chromium_pq, bp_signatures = signatures_chrome_pq,
      bp_delegated_signatures = signatures_chrome_pq, bp_versions = versions_modern,
      bp_alpn = [ascii ''h2'', ascii ''http/1.1''], bp_extension_order = order_chrome_140,
      bp_cipher_suites = [0x1301, 0x1302, 0x1303], bp_record_layer_version = Tls10,
      bp_target_padding_len = 0, bp_alps_protocols = [ascii ''h2''], bp_has_grease = True,
      bp_shuffle_extensions = True\<rparr>"

definition chrome_131 :: browser_profile where
  "chrome_131 =
     \<lparr>bp_groups = groups_chromium, bp_signatures = signatures_browser_standard,
      bp_delegated_signatures = signatures_browser_standard, bp_versions = versions_tls_13_only,
      bp_alpn = [ascii ''h2'', ascii ''http/1.1''], bp_extension_order = order_chromium_131,
      bp_cipher_suites = [0x1301, 0x1302, 0x1303], bp_record_layer_version = Tls10,
      bp_target_padding_len = 512, bp_alps_protocols = [ascii ''h2''], bp_has_grease = True,
      bp_shuffle_extensions = True\<rparr>"

definition firefox_130 :: browser_profile where
  "firefox_130 =
     \<lparr>bp_groups = groups_firefox, bp_signatures = signatures_browser_standard,
      bp_delegated_signatures = signatures_browser_standard, bp_versions = versions_modern,
      bp_alpn = [ascii ''h2'', ascii ''http/1.1''], bp_extension_order = order_firefox_133,
      bp_cipher_suites = [0x1301, 0x1302, 0x1303], bp_record_layer_version = Tls12,
      bp_target_padding_len = 0, bp_alps_protocols = [], bp_has_grease = False,
      bp_shuffle_extensions = False\<rparr>"

definition edge_130 :: browser_profile where
  "edge_130 =
     \<lparr>bp_groups = groups_chromium, bp_signatures = signatures_browser_standard,
      bp_delegated_signatures = signatures_browser_standard, bp_versions = versions_tls_13_only,
      bp_alpn = [ascii ''h2'', ascii ''http/1.1''], bp_extension_order = order_edge_130,
      bp_cipher_suites = [0x1301, 0x1302, 0x1303], bp_record_layer_version = Tls10,
      bp_target_padding_len = 512, bp_alps_protocols = [ascii ''h2''], bp_has_grease = True,
      bp_shuffle_extensions = True\<rparr>"

definition safari_17 :: browser_profile where
  "safari_17 =
     \<lparr>bp_groups = groups_safari, bp_signatures = signatures_browser_standard,
      bp_delegated_signatures = signatures_browser_standard, bp_versions = versions_modern,
      bp_alpn = [ascii ''h2'', ascii ''http/1.1''], bp_extension_order = order_safari_17,
      bp_cipher_suites = [0x1301, 0x1302, 0x1303], bp_record_layer_version = Tls12,
      bp_target_padding_len = 0, bp_alps_protocols = [], bp_has_grease = False,
      bp_shuffle_extensions = False\<rparr>"

lemmas profile_defs = chrome_140_def chrome_131_def firefox_130_def edge_130_def safari_17_def

definition all_profiles :: "browser_profile list" where
  "all_profiles = [chrome_140]"

text \<open>The choice by the hash of the session id; the standard hasher is unspecified, a parameter.\<close>

definition for_session :: "(bytes \<Rightarrow> u64) \<Rightarrow> bytes \<Rightarrow> browser_profile" where
  "for_session hash session_id =
     (let idx = unat (hash session_id) mod length all_profiles in all_profiles ! idx)"

record server_profile =
  sv_versions :: "u16 list"
  sv_record_layer_version :: protocol_version
  sv_cipher_suites :: "u16 list"
  sv_groups :: "u16 list"
  sv_signatures :: "u16 list"
  sv_alpn :: "bytes list"
  sv_session_tickets :: bool
  sv_honor_cipher_order :: bool

definition server_modern :: server_profile where
  "server_modern =
     \<lparr>sv_versions = versions_modern, sv_record_layer_version = Tls12,
      sv_cipher_suites = [0x1301, 0x1302, 0x1303], sv_groups = groups_modern,
      sv_signatures = signatures_browser_standard, sv_alpn = [ascii ''h2'', ascii ''http/1.1''],
      sv_session_tickets = True, sv_honor_cipher_order = True\<rparr>"

definition server_compat :: server_profile where
  "server_compat =
     \<lparr>sv_versions = versions_modern, sv_record_layer_version = Tls12,
      sv_cipher_suites = [0x1301, 0x1302, 0x1303, 0xc02b, 0xc02f, 0xc02c, 0xc030],
      sv_groups = groups_modern, sv_signatures = signatures_browser_standard,
      sv_alpn = [ascii ''h2'', ascii ''http/1.1''], sv_session_tickets = True,
      sv_honor_cipher_order = True\<rparr>"

section \<open>Limits of a profile\<close>

text \<open>
  What the builder and the parsers need of a recipe: lists of at most a hundred entries,
  protocol names of at most a hundred bytes, at most twenty-five extensions, and a server name and
  a key share among them.
\<close>

definition names_fit :: "bytes list \<Rightarrow> bool" where
  "names_fit ps \<longleftrightarrow> length ps \<le> 10 \<and> list_all (\<lambda>p. length p \<le> 100) ps"

definition profile_fits :: "browser_profile \<Rightarrow> bool" where
  "profile_fits p \<longleftrightarrow>
     length (bp_groups p) \<le> 100 \<and> length (bp_signatures p) \<le> 100 \<and>
     length (bp_delegated_signatures p) \<le> 100 \<and> length (bp_versions p) \<le> 100 \<and>
     names_fit (bp_alpn p) \<and> names_fit (bp_alps_protocols p) \<and>
     length (bp_extension_order p) \<le> 25 \<and> length (bp_cipher_suites p) \<le> 100 \<and>
     unat (bp_target_padding_len p) \<le> 2000 \<and>
     ext_key_share \<in> set (bp_extension_order p) \<and> ext_sni \<in> set (bp_extension_order p)"

definition known_profiles :: "browser_profile list" where
  "known_profiles = [chrome_140, chrome_131, firefox_130, edge_130, safari_17]"

lemma known_profiles_fit: "list_all profile_fits known_profiles"
  by (simp add: known_profiles_def profile_fits_def profile_defs names_fit_def ascii_def order_defs
      groups_chromium_pq_def groups_chromium_def groups_firefox_def groups_safari_def
      signatures_chrome_pq_def signatures_browser_standard_def versions_modern_def versions_tls_13_only_def)

lemma for_session_const: "for_session hash session_id = chrome_140"
  by (simp add: for_session_def all_profiles_def)

end
