(* ===== verification/Extension_Builder.thy ===== *)
theory Extension_Builder
  imports Session_Keys Mlkem Profile "HOL-Library.Multiset"
begin

text \<open>
  Writing the extension block of a client hello by a browser profile: \<open>ExtensionBuilder\<close> of
  \<open>engine/src/tlseng/extension.rs\<close>.  The random shuffle and draws take bytes of the generator;
  the post-quantum share may not terminate, so the operations that need it return \<open>None\<close>
  then.  The lemmas show that whatever the draws, the block is a concatenation of well-formed
  extensions whose server name and x25519 key share are the ones asked for, that shuffling is
  a permutation that keeps the ends, and that padding reaches its target exactly.
\<close>

section \<open>One extension at a time\<close>

record ext_builder =
  eb_payload :: bytes
  eb_grease :: grease_set

definition builder_with_grease :: "grease_set \<Rightarrow> ext_builder" where
  "builder_with_grease g = \<lparr>eb_payload = [], eb_grease = g\<rparr>"

definition builder_new :: "rng \<Rightarrow> ext_builder \<times> rng" where
  "builder_new r = (let (g, r') = grease_random r in (builder_with_grease g, r'))"

definition add_extension :: "u16 \<Rightarrow> bytes \<Rightarrow> ext_builder \<Rightarrow> ext_builder" where
  "add_extension etype data b =
     b\<lparr>eb_payload := eb_payload b @ be16 etype @ be16 (of_nat (length data)) @ data\<rparr>"

definition grease_with_id :: "u16 \<Rightarrow> ext_builder \<Rightarrow> ext_builder" where
  "grease_with_id etype = add_extension etype []"

text \<open>Unknown ids are only logged.\<close>

definition apply_generic_extension :: "u16 \<Rightarrow> ext_builder \<Rightarrow> ext_builder" where
  "apply_generic_extension etype b = b"

definition put_u16s :: "u16 list \<Rightarrow> bytes" where
  "put_u16s ws = concat (map be16 ws)"

definition server_name_data :: "bytes \<Rightarrow> bytes" where
  "server_name_data host =
     (let host_len = (of_nat (length host) :: u16);
          list_inner_len = 1 + 2 + host_len
      in be16 list_inner_len @ [type_host_name] @ be16 host_len @ host)"

definition server_name :: "bytes \<Rightarrow> ext_builder \<Rightarrow> ext_builder" where
  "server_name host = add_extension ext_sni (server_name_data host)"

definition extended_main_secret :: "ext_builder \<Rightarrow> ext_builder" where
  "extended_main_secret = add_extension ext_ems []"

definition supported_groups :: "u16 list \<Rightarrow> bool \<Rightarrow> ext_builder \<Rightarrow> ext_builder" where
  "supported_groups groups has_grease b =
     (let count = length groups + (if has_grease then 1 else 0)
      in add_extension ext_supported_groups
           (be16 (of_nat (count * 2)) @ (if has_grease then be16 (gs_group (eb_grease b)) else []) @
            put_u16s groups) b)"

definition signature_algorithms :: "u16 list \<Rightarrow> ext_builder \<Rightarrow> ext_builder" where
  "signature_algorithms algs =
     add_extension ext_signature_algorithms (be16 (of_nat (length algs * 2)) @ put_u16s algs)"

definition supported_versions :: "u16 list \<Rightarrow> bool \<Rightarrow> ext_builder \<Rightarrow> ext_builder" where
  "supported_versions versions has_grease b =
     (let count = length versions + (if has_grease then 1 else 0)
      in add_extension ext_supported_versions
           ([of_nat (count * 2)] @ (if has_grease then be16 (gs_version (eb_grease b)) else []) @
            put_u16s versions) b)"

definition key_share ::
  "browser_profile \<Rightarrow> bytes \<Rightarrow> ext_builder \<Rightarrow> rng \<Rightarrow> (ext_builder \<times> rng) option" where
  "key_share profile pub_key b r =
     (let grease_entry = (if bp_has_grease profile
                          then be16 (gs_group (eb_grease b)) @ be16 1 @ [0x00] else []);
          pq = (if group_x25519_mlkem768 \<in> set (bp_groups profile)
                then map_option (\<lambda>(share, r').
                       (be16 group_x25519_mlkem768 @ be16 (of_nat (length share)) @ share, r'))
                       (sample_x25519_mlkem768_share r)
                else Some ([], r))
      in map_option (\<lambda>(pq_entry, r').
           let lst = grease_entry @ pq_entry @
                     be16 group_x25519 @ be16 (of_nat (length pub_key)) @ pub_key
           in (add_extension ext_key_share (be16 (of_nat (length lst)) @ lst) b, r')) pq)"

definition ech_enc_len :: nat where "ech_enc_len = 32"
definition ech_payload_len :: nat where "ech_payload_len = 144"

definition ech_grease :: "ext_builder \<Rightarrow> rng \<Rightarrow> ext_builder \<times> rng" where
  "ech_grease b r =
     (let (rnd, r') = fill_bytes (1 + ech_enc_len + ech_payload_len) r
      in (add_extension ext_ech
            ([0x00] @ be16 0x0001 @ be16 0x0001 @ [rnd ! 0] @ be16 (of_nat ech_enc_len) @
             take ech_enc_len (drop 1 rnd) @ be16 (of_nat ech_payload_len) @
             drop (1 + ech_enc_len) rnd) b, r'))"

definition protocol_list :: "bytes list \<Rightarrow> bytes" where
  "protocol_list protocols = concat (map (\<lambda>p. of_nat (length p) # p) protocols)"

definition application_settings :: "bytes list \<Rightarrow> ext_builder \<Rightarrow> ext_builder" where
  "application_settings protocols =
     (let list_data = protocol_list protocols
      in add_extension ext_alps (be16 (of_nat (length list_data)) @ list_data))"

definition alpn :: "bytes list \<Rightarrow> ext_builder \<Rightarrow> ext_builder" where
  "alpn protocols =
     (let list_data = protocol_list protocols
      in add_extension ext_alpn (be16 (of_nat (length list_data)) @ list_data))"

definition psk_key_exchange_modes :: "ext_builder \<Rightarrow> ext_builder" where
  "psk_key_exchange_modes = add_extension ext_psk_modes [1, psk_dhe_ke_mode]"

definition compress_certificate :: "u16 list \<Rightarrow> ext_builder \<Rightarrow> ext_builder" where
  "compress_certificate algorithms =
     add_extension ext_compress_cert ([of_nat (length algorithms * 2)] @ put_u16s algorithms)"

definition status_request :: "ext_builder \<Rightarrow> ext_builder" where
  "status_request = add_extension ext_status_request ([ocsp_status_type] @ be16 0 @ be16 0)"

definition ec_point_formats :: "ext_builder \<Rightarrow> ext_builder" where
  "ec_point_formats = add_extension ext_ec_point_formats [1, 0x00]"

definition signed_certificate_timestamp :: "ext_builder \<Rightarrow> ext_builder" where
  "signed_certificate_timestamp = add_extension ext_sct []"

definition delegated_credential :: "u16 list \<Rightarrow> ext_builder \<Rightarrow> ext_builder" where
  "delegated_credential algs =
     add_extension ext_delegated_credential (be16 (of_nat (length algs * 2)) @ put_u16s algs)"

definition session_ticket :: "ext_builder \<Rightarrow> ext_builder" where
  "session_ticket = add_extension ext_session_ticket []"

definition renegotiation_info :: "ext_builder \<Rightarrow> ext_builder" where
  "renegotiation_info = add_extension ext_renegotiation_info [0x00]"

definition padding :: "nat \<Rightarrow> nat \<Rightarrow> ext_builder \<Rightarrow> ext_builder" where
  "padding target overhead b =
     (let current_total_size = length (eb_payload b) + overhead
      in if current_total_size + 4 < target
         then add_extension ext_padding (replicate (target - current_total_size - 4) 0) b
         else b)"

definition builder_build :: "ext_builder \<Rightarrow> bytes \<times> ext_builder" where
  "builder_build b = (eb_payload b, b\<lparr>eb_payload := []\<rparr>)"

section \<open>The whole block\<close>

definition swap_at :: "nat \<Rightarrow> nat \<Rightarrow> 'a list \<Rightarrow> 'a list" where
  "swap_at i j xs = xs[i := xs ! j, j := xs ! i]"

text \<open>The loop \<open>for i in (1..middle.len()).rev()\<close> of the shuffle.\<close>

fun shuffle_loop :: "bytes \<Rightarrow> nat \<Rightarrow> 'a list \<Rightarrow> 'a list" where
  "shuffle_loop rnd 0 middle = middle"
| "shuffle_loop rnd (Suc i) middle =
     (if i = 0 then middle
      else let r = unat (from_be [rnd ! (i * 2 + 1), rnd ! (i * 2)] :: u16)
           in shuffle_loop rnd i (swap_at i (r mod (i + 1)) middle))"

definition shuffle_middle :: "u16 list \<Rightarrow> rng \<Rightarrow> u16 list \<times> rng" where
  "shuffle_middle order r =
     (if length order < 4 then (order, r)
      else
        let middle = take (length order - 2) (drop 1 order);
            (rnd, r') = fill_bytes (length middle * 2) r
        in (take 1 order @ shuffle_loop rnd (length middle) middle @ drop (length order - 1) order, r'))"

definition apply_extension ::
  "browser_profile \<Rightarrow> bytes \<Rightarrow> bytes \<Rightarrow> nat \<Rightarrow> u16 \<Rightarrow> ext_builder \<Rightarrow> rng \<Rightarrow> (ext_builder \<times> rng) option" where
  "apply_extension profile host pub_key overhead ext_id b r =
     (if ext_id = grease_slot_first then
        Some (if bp_has_grease profile then grease_with_id (gs_ext_first (eb_grease b)) b else b, r)
      else if ext_id = grease_slot_last then
        Some (if bp_has_grease profile then add_extension (gs_ext_last (eb_grease b)) [0x00] b else b, r)
      else if ext_id = ext_sni then Some (server_name host b, r)
      else if ext_id = ext_supported_groups then
        Some (supported_groups (bp_groups profile) (bp_has_grease profile) b, r)
      else if ext_id = ext_signature_algorithms then Some (signature_algorithms (bp_signatures profile) b, r)
      else if ext_id = ext_alpn then Some (alpn (bp_alpn profile) b, r)
      else if ext_id = ext_sct then Some (signed_certificate_timestamp b, r)
      else if ext_id = ext_ems then Some (extended_main_secret b, r)
      else if ext_id = ext_ech then Some (ech_grease b r)
      else if ext_id = ext_compress_cert then Some (compress_certificate [cert_compression_brotli] b, r)
      else if ext_id = ext_delegated_credential then
        Some (delegated_credential (bp_delegated_signatures profile) b, r)
      else if ext_id = ext_session_ticket then Some (session_ticket b, r)
      else if ext_id = ext_supported_versions then
        Some (supported_versions (bp_versions profile) (bp_has_grease profile) b, r)
      else if ext_id = ext_psk_modes then Some (psk_key_exchange_modes b, r)
      else if ext_id = ext_key_share then key_share profile pub_key b r
      else if ext_id = ext_alps then
        Some (if bp_alps_protocols profile \<noteq> [] then application_settings (bp_alps_protocols profile) b else b, r)
      else if ext_id = ext_status_request then Some (status_request b, r)
      else if ext_id = ext_ec_point_formats then Some (ec_point_formats b, r)
      else if ext_id = ext_renegotiation_info then Some (renegotiation_info b, r)
      else if ext_id = ext_padding then
        Some (if 0 < bp_target_padding_len profile
              then padding (unat (bp_target_padding_len profile)) overhead b else b, r)
      else if is_grease ext_id then
        Some (if bp_has_grease profile then grease_with_id ext_id b else b, r)
      else Some (apply_generic_extension ext_id b, r))"

fun apply_order ::
  "browser_profile \<Rightarrow> bytes \<Rightarrow> bytes \<Rightarrow> nat \<Rightarrow> u16 list \<Rightarrow> ext_builder \<Rightarrow> rng \<Rightarrow> (ext_builder \<times> rng) option" where
  "apply_order profile host pub_key overhead [] b r = Some (b, r)"
| "apply_order profile host pub_key overhead (ext_id # order) b r =
     Option.bind (apply_extension profile host pub_key overhead ext_id b r)
       (\<lambda>(b', r'). apply_order profile host pub_key overhead order b' r')"

definition apply_profile ::
  "browser_profile \<Rightarrow> bytes \<Rightarrow> bytes \<Rightarrow> nat \<Rightarrow> ext_builder \<Rightarrow> rng \<Rightarrow> (ext_builder \<times> rng) option" where
  "apply_profile profile host pub_key overhead b r =
     (let (order, r1) = (if bp_shuffle_extensions profile
                         then shuffle_middle (bp_extension_order profile) r
                         else (bp_extension_order profile, r))
      in apply_order profile host pub_key overhead order b r1)"

section \<open>Shuffling\<close>

lemma mset_swap_at: "i < length xs \<Longrightarrow> j < length xs \<Longrightarrow> mset (swap_at i j xs) = mset xs"
  by (simp add: swap_at_def mset_swap)

lemma length_swap_at [simp]: "length (swap_at i j xs) = length xs"
  by (simp add: swap_at_def)

lemma mset_shuffle_loop: "n \<le> length xs \<Longrightarrow> mset (shuffle_loop rnd n xs) = mset xs"
proof (induction rnd n xs rule: shuffle_loop.induct)
  case (2 rnd i middle)
  show ?case
  proof (cases "i = 0")
    case False
    have "r mod (i + 1) < length middle" for r
      using 2(2) mod_less_divisor [of "i + 1" r] by linarith
    then show ?thesis
      using 2 False by (simp add: mset_swap_at Let_def)
  qed simp
qed simp

lemma middle_split:
  assumes "4 \<le> length xs"
  shows "take 1 xs @ take (length xs - 2) (drop 1 xs) @ drop (length xs - 1) xs = xs"
proof -
  have "1 + (length xs - 2) = length xs - 1"
    using assms by simp
  then show ?thesis
    using take_drop_split3 [of 1 xs "length xs - 2"] by simp
qed

lemma shuffle_middle_mset: "mset (fst (shuffle_middle order r)) = mset order"
proof (cases "length order < 4")
  case False
  then have "mset order = mset (take 1 order) + mset (take (length order - 2) (drop 1 order)) + mset (drop (length order - 1) order)"
    using middle_split [of order] by (metis mset_append add.assoc not_less)
  with False show ?thesis
    by (simp add: shuffle_middle_def Let_def case_prod_beta mset_shuffle_loop)
qed (simp add: shuffle_middle_def)

lemma shuffle_middle_set: "set (fst (shuffle_middle order r)) = set order"
  by (metis set_mset_mset shuffle_middle_mset)

lemma shuffle_middle_length: "length (fst (shuffle_middle order r)) = length order"
  by (metis size_mset shuffle_middle_mset)

section \<open>What each step appends\<close>

definition good_share :: "bytes \<Rightarrow> bytes \<Rightarrow> bool" where
  "good_share pub data \<longleftrightarrow>
     (\<exists>before. let entries = concat (map key_share_entry before) @ key_share_entry (group_x25519, pub)
        in list_all other_entry before \<and> length entries < 65536 \<and> data = be16 (of_nat (length entries)) @ entries)"

definition good_ext :: "bytes \<Rightarrow> bytes \<Rightarrow> extension \<Rightarrow> bool" where
  "good_ext host pub e \<longleftrightarrow>
     extension_wf e \<and> length (ex_data e) \<le> 2000 \<and>
     (ex_etype e = ext_sni \<longrightarrow> ex_data e = server_name_data host) \<and>
     (ex_etype e = ext_key_share \<longrightarrow> good_share pub (ex_data e))"

definition adds :: "bytes \<Rightarrow> bytes \<Rightarrow> u16 set \<Rightarrow> ext_builder \<Rightarrow> ext_builder \<Rightarrow> bool" where
  "adds host pub ids b b' \<longleftrightarrow>
     eb_grease b' = eb_grease b \<and>
     (\<exists>es. length es \<le> 1 \<and> eb_payload b' = eb_payload b @ stack_bytes es \<and>
        list_all (good_ext host pub) es \<and> ids \<subseteq> ex_etype ` set es)"

lemma adds_refl [simp]: "adds host pub {} b b"
  by (auto simp: adds_def stack_bytes_def intro!: exI [of _ "[]"])

lemma adds_add_extension:
  assumes "length d \<le> 2000" "t = ext_sni \<Longrightarrow> d = server_name_data host"
    "t = ext_key_share \<Longrightarrow> good_share pub d" "ids \<subseteq> {t}"
  shows "adds host pub ids b (add_extension t d b)"
  using assms
  by (auto simp: adds_def add_extension_def stack_bytes_def good_ext_def extension_wf_def extension_new_def
      extension_bytes_def intro!: exI [of _ "[extension_new t d]"])

lemma adds_other:
  assumes "length d \<le> 2000" "t \<noteq> ext_sni" "t \<noteq> ext_key_share"
  shows "adds host pub {} b (add_extension t d b)"
  using assms by (intro adds_add_extension) auto

lemma length_put_u16s [simp]: "length (put_u16s ws) = 2 * length ws"
  by (induction ws) (simp_all add: put_u16s_def)

lemma length_protocol_list: "names_fit ps \<Longrightarrow> length (protocol_list ps) \<le> 1010"
proof -
  assume fit: "names_fit ps"
  have "length (protocol_list xs) \<le> 101 * length xs" if "list_all (\<lambda>p. length p \<le> 100) xs" for xs
    using that by (induction xs) (simp_all add: protocol_list_def)
  from this [of ps] fit show ?thesis
    by (simp add: names_fit_def)
qed

definition hello_fits :: "bytes \<Rightarrow> bytes \<Rightarrow> browser_profile \<Rightarrow> bool" where
  "hello_fits host pub profile \<longleftrightarrow> length host \<le> 1000 \<and> length pub = 32 \<and> profile_fits profile"

lemma hello_fitsD:
  assumes "hello_fits host pub profile"
  shows "length host \<le> 1000" "length pub = 32" "profile_fits profile"
  using assms by (simp_all add: hello_fits_def)

lemma adds_server_name: "hello_fits host pub profile \<Longrightarrow> adds host pub {ext_sni} b (server_name host b)"
  unfolding server_name_def
  by (rule adds_add_extension) (auto simp: hello_fits_def server_name_data_def Let_def ext_defs)

lemma adds_simple:
  "adds host pub {} b (signed_certificate_timestamp b)" "adds host pub {} b (extended_main_secret b)"
  "adds host pub {} b (session_ticket b)" "adds host pub {} b (psk_key_exchange_modes b)"
  "adds host pub {} b (status_request b)" "adds host pub {} b (ec_point_formats b)"
  "adds host pub {} b (renegotiation_info b)" "adds host pub {} b (compress_certificate [cert_compression_brotli] b)"
  "adds host pub {} b (apply_generic_extension i b)"
  by (simp_all add: signed_certificate_timestamp_def extended_main_secret_def session_ticket_def
      psk_key_exchange_modes_def status_request_def ec_point_formats_def renegotiation_info_def
      compress_certificate_def apply_generic_extension_def adds_other ext_defs)

lemma adds_lists:
  assumes "hello_fits host pub profile"
  shows
  "adds host pub {} b (supported_groups (bp_groups profile) g b)"
  "adds host pub {} b (signature_algorithms (bp_signatures profile) b)"
  "adds host pub {} b (delegated_credential (bp_delegated_signatures profile) b)"
  "adds host pub {} b (supported_versions (bp_versions profile) g b)"
  using hello_fitsD(3) [OF assms]
  by (auto simp: supported_groups_def signature_algorithms_def delegated_credential_def
      supported_versions_def Let_def profile_fits_def ext_defs intro!: adds_other)

lemma adds_protocols:
  assumes "hello_fits host pub profile"
  shows
  "adds host pub {} b (alpn (bp_alpn profile) b)"
  "adds host pub {} b (application_settings (bp_alps_protocols profile) b)"
  using hello_fitsD(3) [OF assms] length_protocol_list [of "bp_alpn profile"] length_protocol_list [of "bp_alps_protocols profile"]
  by (auto simp: alpn_def application_settings_def Let_def profile_fits_def ext_defs intro!: adds_other)

lemma adds_padding: "hello_fits host pub profile \<Longrightarrow> adds host pub {} b (padding (unat (bp_target_padding_len profile)) overhead b)"
  by (auto simp: padding_def Let_def hello_fits_def profile_fits_def ext_defs intro!: adds_other)

lemma adds_grease:
  assumes "is_grease i" "length d \<le> 2000"
  shows "adds host pub {} b (add_extension i d b)"
  using assms grease_not_ext [OF assms(1)] by (simp add: adds_other)

lemma adds_ech: "adds host pub {} b (fst (ech_grease b r))"
  by (simp add: ech_grease_def case_prod_beta ech_enc_len_def ech_payload_len_def adds_other ext_defs)

lemma key_share_adds:
  assumes "hello_fits host pub profile" "all_grease (eb_grease b)" "generous r"
  obtains b' r' where "key_share profile pub b r = Some (b', r')" "generous r'"
    "adds host pub {ext_key_share} b b'"
proof -
  obtain share r1 where share: "sample_x25519_mlkem768_share r = Some (share, r1)" "length share = 1216" "generous r1"
    by (rule mlkem_share_ok [OF assms(3)])
  define pq where "pq = (if group_x25519_mlkem768 \<in> set (bp_groups profile) then [(group_x25519_mlkem768, share)] else [])"
  define gr where "gr = (if bp_has_grease profile then [(gs_group (eb_grease b), [0x00 :: u8])] else [])"
  let ?lst = "concat (map key_share_entry (gr @ pq)) @ key_share_entry (group_x25519, pub)"
  have lst: "key_share profile pub b r =
      Some (add_extension ext_key_share (be16 (of_nat (length ?lst)) @ ?lst) b,
        if group_x25519_mlkem768 \<in> set (bp_groups profile) then r1 else r)"
    by (simp add: key_share_def Let_def pq_def gr_def share key_share_entry_def)
  have "length ?lst \<le> 1300"
    by (simp add: gr_def pq_def share hello_fitsD(2) [OF assms(1)])
  moreover have "list_all other_entry (gr @ pq)"
    using assms(2) grease_not_group
    by (simp add: gr_def pq_def other_entry_def share(2) group_defs all_grease_def)
  ultimately have "good_share pub (be16 (of_nat (length ?lst)) @ ?lst)"
    unfolding good_share_def Let_def by (intro exI [of _ "gr @ pq"]) simp
  then have "adds host pub {ext_key_share} b (add_extension ext_key_share (be16 (of_nat (length ?lst)) @ ?lst) b)"
    using \<open>length ?lst \<le> 1300\<close> by (intro adds_add_extension) (simp_all add: ext_defs)
  moreover have "generous (if group_x25519_mlkem768 \<in> set (bp_groups profile) then r1 else r)"
    using share(3) assms(3) by simp
  ultimately show thesis
    using lst that by blast
qed

section \<open>The whole block\<close>

definition step_ok :: "bytes \<Rightarrow> bytes \<Rightarrow> u16 set \<Rightarrow> ext_builder \<Rightarrow> (ext_builder \<times> rng) option \<Rightarrow> bool" where
  "step_ok host pub ids b x \<longleftrightarrow> (\<exists>b' r'. x = Some (b', r') \<and> generous r' \<and> adds host pub ids b b')"

lemma step_ok_Some: "step_ok host pub ids b (Some (b', r')) \<longleftrightarrow> generous r' \<and> adds host pub ids b b'"
  by (auto simp: step_ok_def)

lemma step_ok_if:
  "(c \<Longrightarrow> step_ok host pub ids b x) \<Longrightarrow> (\<not> c \<Longrightarrow> step_ok host pub ids b y) \<Longrightarrow>
     step_ok host pub ids b (if c then x else y)"
  by simp

lemma apply_extension_ok:
  assumes "hello_fits host pub profile" "all_grease (eb_grease b)" "generous r"
  shows "step_ok host pub ({ext_id} \<inter> {ext_sni, ext_key_share}) b
    (apply_extension profile host pub overhead ext_id b r)"
proof -
  consider (sni) "ext_id = ext_sni" | (share) "ext_id = ext_key_share"
    | (other) "ext_id \<noteq> ext_sni" "ext_id \<noteq> ext_key_share"
    by blast
  then show ?thesis
  proof cases
    case sni
    then have "apply_extension profile host pub overhead ext_id b r = Some (server_name host b, r)"
      by (simp add: apply_extension_def ext_defs)
    with sni assms show ?thesis
      by (simp add: step_ok_Some adds_server_name)
  next
    case share
    then have "apply_extension profile host pub overhead ext_id b r = key_share profile pub b r"
      by (simp add: apply_extension_def ext_defs)
    moreover obtain b' r' where "key_share profile pub b r = Some (b', r')" "generous r'"
      "adds host pub {ext_key_share} b b'"
      by (rule key_share_adds [OF assms])
    ultimately show ?thesis
      using share by (simp add: step_ok_Some)
  next
    case other
    have g: "is_grease (gs_ext_first (eb_grease b))" "is_grease (gs_ext_last (eb_grease b))"
      using assms(2) by (simp_all add: all_grease_def)
    have "generous (snd (ech_grease b r))"
      using generous_fill [OF assms(3)] by (simp add: ech_grease_def case_prod_beta)
    then have ech: "step_ok host pub {} b (Some (ech_grease b r))"
      by (metis adds_ech step_ok_Some prod.collapse)
    have g_len: "length ([] :: bytes) \<le> 2000" "length [0x00 :: u8] \<le> 2000"
      by simp_all
    have ids: "{ext_id} \<inter> {ext_sni, ext_key_share} = {}"
      using other by blast
    show ?thesis
      unfolding ids apply_extension_def grease_with_id_def
      by (intro step_ok_if)
         (simp_all only: other step_ok_Some if_split adds_simple adds_lists [OF assms(1)] adds_protocols [OF assms(1)]
            adds_padding [OF assms(1)] adds_grease [OF _ g_len(1)] adds_grease [OF _ g_len(2)] g assms(3) ech
            adds_refl simp_thms)
  qed
qed

text \<open>All steps together.\<close>

definition built :: "bytes \<Rightarrow> bytes \<Rightarrow> nat \<Rightarrow> u16 set \<Rightarrow> ext_builder \<Rightarrow> bool" where
  "built host pub n ids b \<longleftrightarrow>
     (\<exists>es. length es \<le> n \<and> eb_payload b = stack_bytes es \<and> list_all (good_ext host pub) es \<and>
        ids \<subseteq> ex_etype ` set es)"

lemma built_step:
  assumes "built host pub n ids b" "adds host pub ids' b b'"
  shows "built host pub (Suc n) (ids \<union> ids') b'"
proof -
  obtain es where es: "length es \<le> n" "eb_payload b = stack_bytes es" "list_all (good_ext host pub) es"
    "ids \<subseteq> ex_etype ` set es"
    using assms(1) unfolding built_def by blast
  obtain es' where es': "length es' \<le> 1" "eb_payload b' = eb_payload b @ stack_bytes es'"
    "list_all (good_ext host pub) es'" "ids' \<subseteq> ex_etype ` set es'"
    using assms(2) unfolding adds_def by blast
  show ?thesis
    unfolding built_def
    by (intro exI [of _ "es @ es'"]) (use es es' in \<open>auto simp: stack_bytes_def\<close>)
qed

lemma apply_order_ok:
  assumes "hello_fits host pub profile" "all_grease (eb_grease b)" "generous r" "built host pub n ids b"
  shows "\<exists>b' r'. apply_order profile host pub overhead order b r = Some (b', r') \<and> generous r' \<and>
    built host pub (n + length order) (ids \<union> (set order \<inter> {ext_sni, ext_key_share})) b'"
  using assms(2-)
proof (induction order arbitrary: b r n ids)
  case (Cons i order)
  obtain b1 r1 where b1: "apply_extension profile host pub overhead i b r = Some (b1, r1)" "generous r1"
    "adds host pub ({i} \<inter> {ext_sni, ext_key_share}) b b1"
    using apply_extension_ok [OF assms(1) Cons.prems(1,2)] unfolding step_ok_def by blast
  have "eb_grease b1 = eb_grease b"
    using b1(3) by (simp add: adds_def)
  with Cons.prems(1) have "all_grease (eb_grease b1)"
    by simp
  from Cons.IH [OF this b1(2) built_step [OF Cons.prems(3) b1(3)]]
  obtain b' r' where "apply_order profile host pub overhead order b1 r1 = Some (b', r')" "generous r'"
    "built host pub (Suc n + length order)
       (ids \<union> ({i} \<inter> {ext_sni, ext_key_share}) \<union> (set order \<inter> {ext_sni, ext_key_share})) b'"
    by blast
  moreover have "ids \<union> ({i} \<inter> {ext_sni, ext_key_share}) \<union> (set order \<inter> {ext_sni, ext_key_share}) =
      ids \<union> (set (i # order) \<inter> {ext_sni, ext_key_share})"
    by auto
  ultimately show ?case
    by (simp add: b1(1))
qed auto

lemma length_stack_bytes:
  "list_all (good_ext host pub) es \<Longrightarrow> length (stack_bytes es) \<le> 2004 * length es"
  by (induction es) (auto simp: stack_bytes_def good_ext_def)

lemma apply_profile_ok:
  assumes "hello_fits host pub profile" "all_grease g" "generous r"
  obtains b' r' es where
    "apply_profile profile host pub overhead (builder_with_grease g) r = Some (b', r')" "generous r'"
    "eb_payload b' = stack_bytes es" "list_all (good_ext host pub) es"
    "ext_sni \<in> ex_etype ` set es" "ext_key_share \<in> ex_etype ` set es" "length (stack_bytes es) \<le> 50100"
proof -
  define order where "order = (if bp_shuffle_extensions profile
      then fst (shuffle_middle (bp_extension_order profile) r) else bp_extension_order profile)"
  define r1 where "r1 = (if bp_shuffle_extensions profile
      then snd (shuffle_middle (bp_extension_order profile) r) else r)"
  have "generous (snd (shuffle_middle xs r))" for xs
    using assms(3) generous_fill [OF assms(3)] by (simp add: shuffle_middle_def Let_def case_prod_beta)
  then have "generous r1"
    by (simp add: r1_def assms(3))
  moreover have "built host pub 0 {} (builder_with_grease g)"
    by (simp add: built_def builder_with_grease_def stack_bytes_def)
  moreover have "apply_profile profile host pub overhead (builder_with_grease g) r =
      apply_order profile host pub overhead order (builder_with_grease g) r1"
    by (simp add: apply_profile_def order_def r1_def case_prod_beta)
  moreover have order: "set order = set (bp_extension_order profile)" "length order \<le> 25"
    using hello_fitsD(3) [OF assms(1)]
    by (simp_all add: order_def shuffle_middle_set shuffle_middle_length profile_fits_def)
  ultimately obtain b' r' where b': "apply_profile profile host pub overhead (builder_with_grease g) r = Some (b', r')"
    "generous r'" "built host pub (length order) (set order \<inter> {ext_sni, ext_key_share}) b'"
    using apply_order_ok [OF assms(1), of "builder_with_grease g" r1 0 "{}" overhead order] assms(2)
    by (auto simp: builder_with_grease_def)
  then obtain es where es: "length es \<le> length order" "eb_payload b' = stack_bytes es"
    "list_all (good_ext host pub) es" "set order \<inter> {ext_sni, ext_key_share} \<subseteq> ex_etype ` set es"
    unfolding built_def by blast
  moreover have "ext_sni \<in> set order" "ext_key_share \<in> set order"
    using hello_fitsD(3) [OF assms(1)] by (simp_all add: order(1) profile_fits_def)
  moreover have "length (stack_bytes es) \<le> 50100"
    using length_stack_bytes [OF es(3)] es(1) order(2) by linarith
  ultimately show thesis
    using b'(1,2) by (intro that [of b' r' es]) auto
qed

text \<open>What the reading side finds in such a block.\<close>

lemma find_good:
  assumes "list_all P es" "i \<in> ex_etype ` set es"
  obtains e where "find_by_type i es = Some (ex_data e)" "P e" "ex_etype e = i"
proof -
  obtain e where "List.find (\<lambda>e. ex_etype e = i) es = Some e"
    using assms(2) by (metis (mono_tags, lifting) find_None_iff imageE not_Some_eq)
  then show thesis
    using assms(1) by (intro that [of e]) (auto simp: find_by_type_def find_Some_iff list_all_length)
qed

lemma good_wf: "list_all (good_ext host pub) es \<Longrightarrow> list_all extension_wf es"
  by (erule list.pred_mono_strong) (simp add: good_ext_def)

lemma good_peer_public:
  assumes "list_all (good_ext host pub) es" "ext_key_share \<in> ex_etype ` set es"
    and "length pub = 32" "\<not> list_all (\<lambda>x. x = 0) pub"
  shows "extract_peer_public es True = Ok pub"
proof -
  obtain e where "find_by_type ext_key_share es = Some (ex_data e)" "good_ext host pub e" "ex_etype e = ext_key_share"
    by (rule find_good [OF assms(1,2)])
  then obtain before where "list_all other_entry before"
    "length (concat (map key_share_entry before) @ key_share_entry (group_x25519, pub)) < 65536"
    "find_by_type ext_key_share es =
       Some (be16 (of_nat (length (concat (map key_share_entry before) @ key_share_entry (group_x25519, pub)))) @
             concat (map key_share_entry before) @ key_share_entry (group_x25519, pub))"
    by (auto simp: good_ext_def good_share_def Let_def)
  then show ?thesis
    using extract_listed [of before pub _ "[]" es] assms(3,4) by simp
qed

lemma server_name_read:
  assumes "find_by_type ext_sni es = Some (server_name_data host)" "length host \<le> 1000" "valid_utf8 host"
  shows "stack_server_name es = Some host"
proof -
  have inner: "(1 + 2 + of_nat (length host) :: u16) = of_nat (length host + 3)"
    by simp
  obtain a b c d where ab: "be16 (of_nat (length host + 3)) = [a, b]" and cd: "be16 (of_nat (length host)) = [c, d]"
    by (simp add: be16_def)
  have data: "server_name_data host = a # b # type_host_name # c # d # host"
    unfolding server_name_data_def Let_def inner ab cd by simp
  have "unat (from_be [a, b] :: u16) = length host + 3" "unat (from_be [c, d] :: u16) = length host"
    unfolding be16_pair [OF ab] be16_pair [OF cd] by (rule unat_of_nat_u16; use assms(2) in simp)+
  then show ?thesis
    using assms
    by (simp add: stack_server_name_def data slice_get_def Let_def)
qed

lemma good_server_name:
  assumes "list_all (good_ext host pub) es" "ext_sni \<in> ex_etype ` set es" "length host \<le> 1000" "valid_utf8 host"
  shows "stack_server_name es = Some host"
proof -
  obtain e where "find_by_type ext_sni es = Some (ex_data e)" "good_ext host pub e" "ex_etype e = ext_sni"
    by (rule find_good [OF assms(1,2)])
  then show ?thesis
    using assms(3,4) by (intro server_name_read) (simp_all add: good_ext_def)
qed

section \<open>The size of the padded profiles\<close>

text \<open>
  How many bytes each id of the two padded Chromium profiles adds, header included.  They
  offer no post-quantum share, so no draw is involved.
\<close>

definition growth :: "bytes \<Rightarrow> u16 \<Rightarrow> nat" where
  "growth host i =
     (if i = ext_sni then 9 + length host
      else if i = ext_supported_groups then 12
      else if i = ext_signature_algorithms then 20
      else if i = ext_key_share then 47
      else if i = ext_supported_versions then 9
      else 4)"

definition padded_profile :: "browser_profile \<Rightarrow> bool" where
  "padded_profile p \<longleftrightarrow> p = chrome_131 \<or> p = edge_130"

definition plain_ids :: "u16 set" where
  "plain_ids = {0xaaaa, 0x1a1a, 0x3a3a, ext_sni, ext_supported_groups, ext_signature_algorithms, ext_key_share,
     ext_supported_versions}"

lemma length_add_extension: "length (eb_payload (add_extension t d b)) = length (eb_payload b) + 4 + length d"
  by (simp add: add_extension_def)

lemma padded_lists:
  assumes "padded_profile p"
  shows "bp_has_grease p" "bp_shuffle_extensions p" "bp_target_padding_len p = 512" "length (bp_groups p) = 2"
    "length (bp_signatures p) = 7" "length (bp_versions p) = 1" "group_x25519_mlkem768 \<notin> set (bp_groups p)"
    "length (bp_cipher_suites p) = 3"
  using assms
  by (auto simp: padded_profile_def chrome_131_def edge_130_def groups_chromium_def group_defs
      signatures_browser_standard_def versions_tls_13_only_def)

lemma plain_id_cases:
  assumes "i \<in> plain_ids"
  obtains (grease) "is_grease i" "i \<noteq> grease_slot_first" "i \<noteq> grease_slot_last" "i \<in> {0xaaaa, 0x1a1a, 0x3a3a}"
    | (sni) "i = ext_sni" | (groups) "i = ext_supported_groups" | (sigs) "i = ext_signature_algorithms"
    | (share) "i = ext_key_share" | (versions) "i = ext_supported_versions"
proof -
  have "is_grease 0xaaaa" "is_grease 0x1a1a" "is_grease 0x3a3a"
    by (simp_all add: is_grease_def drop_bit_eq_div)
  with assms that show thesis
    unfolding plain_ids_def by (auto simp: ext_defs)
qed

lemma apply_extension_eqs:
  "apply_extension p host pub overhead ext_sni b r = Some (server_name host b, r)"
  "apply_extension p host pub overhead ext_supported_groups b r =
     Some (supported_groups (bp_groups p) (bp_has_grease p) b, r)"
  "apply_extension p host pub overhead ext_signature_algorithms b r = Some (signature_algorithms (bp_signatures p) b, r)"
  "apply_extension p host pub overhead ext_supported_versions b r =
     Some (supported_versions (bp_versions p) (bp_has_grease p) b, r)"
  "apply_extension p host pub overhead ext_key_share b r = key_share p pub b r"
  "apply_extension p host pub overhead ext_padding b r =
     Some (if 0 < bp_target_padding_len p then padding (unat (bp_target_padding_len p)) overhead b else b, r)"
  by (simp_all add: apply_extension_def ext_defs)

lemma apply_extension_grease:
  "i \<in> {0xaaaa, 0x1a1a, 0x3a3a} \<Longrightarrow> is_grease i \<Longrightarrow> bp_has_grease p \<Longrightarrow>
     apply_extension p host pub overhead i b r = Some (grease_with_id i b, r)"
  by (auto simp: apply_extension_def ext_defs)

lemma apply_plain:
  assumes "padded_profile p" "length pub = 32" "i \<in> plain_ids"
  shows "\<exists>b'. apply_extension p host pub overhead i b r = Some (b', r) \<and>
    length (eb_payload b') = length (eb_payload b) + growth host i"
  using assms(3)
proof (cases rule: plain_id_cases)
  case grease
  then show ?thesis
    using padded_lists [OF assms(1)]
    by (auto simp: apply_extension_grease grease_with_id_def length_add_extension growth_def ext_defs)
next
  case share
  have "key_share p pub b r = Some (add_extension ext_key_share (be16 41 @ be16 (gs_group (eb_grease b)) @ be16 1 @ [0x00] @
      be16 group_x25519 @ be16 32 @ pub) b, r)"
    using padded_lists [OF assms(1)] assms(2) by (simp add: key_share_def Let_def)
  then show ?thesis
    by (simp add: share apply_extension_eqs length_add_extension assms(2)) (simp add: growth_def ext_defs)
qed (use padded_lists [OF assms(1)] in
  \<open>simp_all add: apply_extension_eqs server_name_def server_name_data_def supported_groups_def
     signature_algorithms_def supported_versions_def length_add_extension Let_def growth_def\<close>,
  simp_all add: ext_defs)

lemma apply_plain_order:
  assumes "padded_profile p" "length pub = 32" "set order \<subseteq> plain_ids"
  shows "\<exists>b'. apply_order p host pub overhead (order @ rest) b r = apply_order p host pub overhead rest b' r \<and>
    length (eb_payload b') = length (eb_payload b) + sum_list (map (growth host) order)"
  using assms(3)
proof (induction order arbitrary: b)
  case (Cons i order)
  obtain b1 where b1: "apply_extension p host pub overhead i b r = Some (b1, r)"
    "length (eb_payload b1) = length (eb_payload b) + growth host i"
    using apply_plain [OF assms(1,2)] Cons.prems by fastforce
  with Cons.IH [of b1] Cons.prems show ?case
    by (auto simp: add.assoc)
qed auto

lemma shuffle_ends:
  "take 1 (fst (shuffle_middle order r)) = take 1 order \<and>
   drop (length order - 1) (fst (shuffle_middle order r)) = drop (length order - 1) order"
proof (cases "length order < 4")
  case False
  have len: "length (shuffle_loop rnd n xs) = length xs" if "n \<le> length xs" for rnd n and xs :: "u16 list"
    by (metis mset_shuffle_loop [OF that] size_mset)
  from False show ?thesis
    by (simp add: shuffle_middle_def Let_def case_prod_beta len)
qed (simp add: shuffle_middle_def)

text \<open>The shuffled order of a padded profile: the plain ids in some order, then the padding.\<close>

lemma padded_order:
  assumes "padded_profile p"
  obtains front where "fst (shuffle_middle (bp_extension_order p) r) = front @ [ext_padding]"
    "set front \<subseteq> plain_ids" "sum_list (map (growth host) front) = (if p = chrome_131 then 101 else 105) + length host"
proof -
  let ?o = "bp_extension_order p"
  define s where "s = fst (shuffle_middle ?o r)"
  obtain init where init: "?o = init @ [ext_padding]" "set init \<subseteq> plain_ids"
    "sum_list (map (growth host) init) = (if p = chrome_131 then 101 else 105) + length host"
  proof (rule that)
    show "?o = butlast ?o @ [ext_padding]" "set (butlast ?o) \<subseteq> plain_ids"
      using assms by (auto simp: padded_profile_def chrome_131_def edge_130_def order_defs plain_ids_def)
    have "chrome_131 \<noteq> edge_130"
      by (simp add: chrome_131_def edge_130_def order_defs)
    then show "sum_list (map (growth host) (butlast ?o)) = (if p = chrome_131 then 101 else 105) + length host"
      using assms unfolding padded_profile_def
      by (elim disjE) (simp_all add: chrome_131_def edge_130_def order_defs growth_def ext_defs)
  qed
  have "drop (length ?o - 1) s = [ext_padding]"
    using shuffle_ends [of ?o r] by (simp add: s_def init(1))
  then have s: "s = take (length ?o - 1) s @ [ext_padding]"
    by (metis append_take_drop_id)
  have "mset s = mset ?o"
    by (simp add: s_def shuffle_middle_mset)
  then have m: "mset (take (length ?o - 1) s) = mset init"
    using s init(1) by (metis mset_append add_right_cancel)
  then have "set (take (length ?o - 1) s) \<subseteq> plain_ids"
    using init(2) by (metis set_mset_mset)
  moreover have "sum_list (map (growth host) (take (length ?o - 1) s)) = sum_list (map (growth host) init)"
    using m by (metis mset_map sum_mset_sum_list)
  ultimately show thesis
    using that s init(3) unfolding s_def by metis
qed

lemma padded_block_length:
  assumes "padded_profile p" "length pub = 32" "length host + overhead < 400"
  obtains b' r' where "apply_profile p host pub overhead (builder_with_grease g) r = Some (b', r')"
    "length (eb_payload b') + overhead = 512"
proof -
  obtain front where front: "fst (shuffle_middle (bp_extension_order p) r) = front @ [ext_padding]"
    "set front \<subseteq> plain_ids" "sum_list (map (growth host) front) = (if p = chrome_131 then 101 else 105) + length host"
    by (rule padded_order [OF assms(1)])
  define r1 where "r1 = snd (shuffle_middle (bp_extension_order p) r)"
  obtain b where b: "apply_order p host pub overhead (front @ [ext_padding]) (builder_with_grease g) r1 =
      apply_order p host pub overhead [ext_padding] b r1"
    "length (eb_payload b) = sum_list (map (growth host) front)"
    using apply_plain_order [OF assms(1,2) front(2), of host overhead "[ext_padding]" "builder_with_grease g" r1]
    by (auto simp: builder_with_grease_def)
  have "apply_profile p host pub overhead (builder_with_grease g) r = Some (padding 512 overhead b, r1)"
    using padded_lists [OF assms(1)] b(1)
    by (simp add: apply_profile_def case_prod_beta front(1) r1_def) (simp add: apply_extension_def ext_defs)
  moreover have "length (eb_payload b) + overhead + 4 < 512"
    using assms(3) by (simp add: b(2) front(3))
  ultimately show thesis
    using that by (force simp: padding_def Let_def length_add_extension)
qed

section \<open>Properties\<close>

text \<open>For every profile within its limits, whatever the GREASE
  draw and the shuffle, the builder returns (given a generator that keeps offering acceptable
  words), and the parser of the other side reads its block completely: it finds the host the
  client asked for as the server name and the client's key as the x25519 share.\<close>

theorem profile_block_readable:
  assumes "hello_fits host pub profile" and "valid_utf8 host" and "\<not> list_all (\<lambda>x. x = 0) pub"
    and "all_grease g" and "generous r"
  shows "\<exists>b r' es. apply_profile profile host pub overhead (builder_with_grease g) r = Some (b, r') \<and>
    stack_parse (fst (builder_build b)) = (Ok (Some es), []) \<and>
    stack_server_name es = Some host \<and> extract_peer_public es True = Ok pub"
proof -
  obtain b r' es where b: "apply_profile profile host pub overhead (builder_with_grease g) r = Some (b, r')"
    "eb_payload b = stack_bytes es" "list_all (good_ext host pub) es"
    "ext_sni \<in> ex_etype ` set es" "ext_key_share \<in> ex_etype ` set es"
    by (rule apply_profile_ok [OF assms(1,4,5)])
  have "stack_parse (fst (builder_build b)) = (Ok (Some es), [])"
    using stack_parse_stack_bytes [OF good_wf [OF b(3)]] by (simp add: builder_build_def b(2))
  with b good_server_name [OF b(3,4)] good_peer_public [OF b(3,5)] hello_fitsD [OF assms(1)] assms(2,3)
  show ?thesis
    by blast
qed

lemma generous_ones: "generous (\<lambda>i. 1)"
  by (simp add: generous_def acceptable_def word_at_def from_be_def)

lemma grease_fixed_all: "all_grease grease_fixed"
  by (simp add: all_grease_def grease_fixed_def is_grease_def drop_bit_eq_div)

lemma profile_block_readable_witness:
  "\<exists>b r' es. apply_profile chrome_140 (ascii ''example.com'') (replicate 32 7) 0 (builder_with_grease grease_fixed) (\<lambda>i. 1) = Some (b, r') \<and>
    stack_parse (fst (builder_build b)) = (Ok (Some es), []) \<and>
    stack_server_name es = Some (ascii ''example.com'') \<and> extract_peer_public es True = Ok (replicate 32 7)"
proof (rule profile_block_readable)
  show "hello_fits (ascii ''example.com'') (replicate 32 7) chrome_140"
    using known_profiles_fit by (simp add: hello_fits_def known_profiles_def ascii_def)
  show "valid_utf8 (ascii ''example.com'')"
    by (simp add: ascii_def of_char_def)
qed (simp_all add: grease_fixed_all generous_ones list_all_iff)

text \<open>Whatever random bytes it gets, the shuffle only permutes the
  extension ids, and the first and the last one stay where they are.\<close>

theorem shuffle_keeps_ends:
  "mset (fst (shuffle_middle order r)) = mset order \<and>
   take 1 (fst (shuffle_middle order r)) = take 1 order \<and>
   drop (length order - 1) (fst (shuffle_middle order r)) = drop (length order - 1) order"
  using shuffle_middle_mset shuffle_ends by blast

text \<open>The padding extension, its own header included, brings the block
  and the given overhead to exactly the target, and is left out when there is no room for it.\<close>

theorem padding_exact:
  "length (eb_payload (padding target overhead b)) + overhead =
     (if length (eb_payload b) + overhead + 4 < target then target
      else length (eb_payload b) + overhead)"
  by (auto simp: padding_def Let_def add_extension_def)

end
