(* ===== verification/Stream.thy ===== *)
theory Stream
  imports Errors "HOL-Library.Monad_Syntax"
begin

text \<open>
  The contract of \<open>engine/src/parser.rs\<close> (trait \<open>Parser\<close>) and of every decoder that is run
  over a growing buffer.  A decoder is a step that, given its state and the bytes received so
  far, either asks for more bytes (\<open>Ok None\<close>), delivers one message, or fails.  The locale
  \<open>stream_decoder\<close> states what a reader loop relies on; from it follows once and for all that
  the loop ends and that the way a byte stream is cut into reads does not change what is
  delivered.
\<close>

section \<open>The reader loop\<close>

type_synonym ('s, 'e, 'm) decoder = "'s \<Rightarrow> bytes \<Rightarrow> ('e, 'm option) result \<times> 's \<times> bytes"
type_synonym ('s, 'e, 'm) drained = "'m list \<times> ('e, unit) result \<times> 's \<times> bytes"

text \<open>
  \<open>drain\<close> calls the step until it asks for more bytes or fails; it is the loop the readers
  of the code run (\<open>decode_inbound\<close> in a loop until \<open>Ok(None)\<close>).  \<open>None\<close> is divergence.
\<close>

partial_function (option) drain ::
  "('s, 'e, 'm) decoder \<Rightarrow> 's \<Rightarrow> bytes \<Rightarrow> ('s, 'e, 'm) drained option" where
  "drain step s bs =
     (case step s bs of (r, s', bs') \<Rightarrow>
        (case r of
           Ok None \<Rightarrow> Some ([], Ok (), s', bs')
         | Ok (Some m) \<Rightarrow>
             Option.bind (drain step s' bs') (\<lambda>(ms, res). Some (m # ms, res))
         | Err e \<Rightarrow> Some ([], Err e, s', bs')
         | Panic \<Rightarrow> Some ([], Panic, s', bs')))"

text \<open>
  \<open>feed\<close> interleaves the loop with socket reads: drain, append the next chunk, drain again.
  An error stops the reader.
\<close>

fun feed ::
  "('s, 'e, 'm) decoder \<Rightarrow> 's \<Rightarrow> bytes \<Rightarrow> bytes list \<Rightarrow> ('s, 'e, 'm) drained option" where
  "feed step s buf [] = drain step s buf"
| "feed step s buf (c # cs) =
     (case drain step s buf of
        None \<Rightarrow> None
      | Some (ms, Ok _, s', buf') \<Rightarrow>
          Option.bind (feed step s' (buf' @ c) cs) (\<lambda>(ms', res). Some (ms @ ms', res))
      | Some (ms, r, s', buf') \<Rightarrow> Some (ms, r, s', buf'))"

definition delivered :: "('s, 'e, 'm) drained \<Rightarrow> 'm list \<times> ('e, unit) result" where
  "delivered d = (fst d, fst (snd d))"

lemma delivered_simp [simp]: "delivered (ms, r, s, bs) = (ms, r)"
  by (simp add: delivered_def)

section \<open>The contract\<close>

locale stream_decoder =
  fixes step :: "('s, 'e, 'm) decoder"
    and weight :: "'s \<Rightarrow> nat"
  assumes waits: "step s bs = (Ok None, s', bs') \<Longrightarrow> step s (bs @ extra) = step s' (bs' @ extra)"
    and stable: "step s bs = (r, s', bs') \<Longrightarrow> r \<noteq> Ok None \<Longrightarrow> step s (bs @ extra) = (r, s', bs' @ extra)"
    and progress: "step s bs = (Ok (Some m), s', bs') \<Longrightarrow>
           length bs' < length bs \<or> length bs' = length bs \<and> weight s' < weight s"
begin

lemma drain_total: "\<exists>d. drain step s bs = Some d"
proof (induction "(bs, s)" arbitrary: bs s
    rule: wf_induct_rule [OF wf_measures, of "[\<lambda>(bs, s). length bs, \<lambda>(bs, s). weight s]"])
  case 1
  obtain r s' bs' where st: "step s bs = (r, s', bs')"
    by (metis prod_cases3)
  show ?case
  proof (cases "\<exists>m. r = Ok (Some m)")
    case True
    then obtain m where m: "r = Ok (Some m)" ..
    with progress st have "length bs' < length bs \<or> length bs' = length bs \<and> weight s' < weight s"
      by blast
    then obtain d where "drain step s' bs' = Some d"
      using "1" by force
    with m st show ?thesis
      by (subst drain.simps) (auto split: prod.splits)
  next
    case False
    with st show ?thesis
      by (subst drain.simps) (auto split: result.splits option.splits)
  qed
qed

lemma drain_waiting:
  assumes "step s bs = (Ok None, s', bs')"
  shows "drain step s (bs @ extra) = drain step s' (bs' @ extra)"
  by (subst (1 2) drain.simps) (simp add: waits [OF assms])

text \<open>
  Draining a longer buffer: the messages of the shorter one come first, and the loop goes on
  from where it stopped.
\<close>

lemma drain_append:
  assumes "drain step s bs = Some (ms, r, s', bs')"
  shows "drain step s (bs @ extra) =
    (if r = Ok () then Option.bind (drain step s' (bs' @ extra)) (\<lambda>(ms', res). Some (ms @ ms', res))
     else Some (ms, r, s', bs' @ extra))"
  using assms
proof (induction "(bs, s)" arbitrary: bs s ms
    rule: wf_induct_rule [OF wf_measures, of "[\<lambda>(bs, s). length bs, \<lambda>(bs, s). weight s]"])
  case 1
  obtain x t cs where st: "step s bs = (x, t, cs)"
    by (metis prod_cases3)
  consider (wait) "x = Ok None" | (msg) m where "x = Ok (Some m)" | (bad) "\<And>y. x \<noteq> Ok y"
    by (cases x) auto
  then show ?case
  proof cases
    case wait
    with st "1.prems" have "ms = []" "r = Ok ()" "s' = t" "bs' = cs"
      by (auto simp: drain.simps)
    with st wait show ?thesis
      by (simp add: drain_waiting Option.bind_eq_Some_conv split: option.splits bind_splits)
  next
    case msg
    with progress st have "length cs < length bs \<or> length cs = length bs \<and> weight t < weight s"
      by blast
    moreover from "1.prems" st msg obtain ms0
      where d: "drain step t cs = Some (ms0, r, s', bs')" "ms = m # ms0"
      by (subst (asm) drain.simps) (auto simp: Option.bind_eq_Some_conv)
    ultimately have IH: "drain step t (cs @ extra) =
      (if r = Ok () then Option.bind (drain step s' (bs' @ extra)) (\<lambda>(ms', res). Some (ms0 @ ms', res))
       else Some (ms0, r, s', bs' @ extra))"
      using "1.hyps" by force
    have "step s (bs @ extra) = (Ok (Some m), t, cs @ extra)"
      using stable [OF st] msg by simp
    then have "drain step s (bs @ extra) =
        Option.bind (drain step t (cs @ extra)) (\<lambda>(ms, res). Some (m # ms, res))"
      by (subst drain.simps) simp
    with IH d(2) show ?thesis
      by (auto split: bind_splits)
  next
    case bad
    with stable [OF st] have "step s (bs @ extra) = (x, t, cs @ extra)"
      by simp
    with bad "1.prems" st show ?thesis
      by (cases x) (auto simp: drain.simps)
  qed
qed

text \<open>Two consequences: a drained reader has nothing left to do, and a part of a stream that drains
  without an error does so too.\<close>

lemma drain_again:
  assumes "drain step s bs = Some (ms, Ok (), s', bs')"
  shows "drain step s' bs' = Some ([], Ok (), s', bs')"
  using drain_append [OF assms, of "[]"] assms
  by (cases "drain step s' bs'") auto

lemma drain_part:
  assumes "drain step s (bs @ extra) = Some (ms, Ok (), t, rest)" "drain step s bs = Some (ms1, r, s', bs')"
  obtains ms2 where "r = Ok ()" "ms = ms1 @ ms2" "drain step s' (bs' @ extra) = Some (ms2, Ok (), t, rest)"
  using drain_append [OF assms(2), of extra] assms(1)
  by (cases "drain step s' (bs' @ extra)") (auto split: if_splits)

text \<open>Cutting the stream into reads changes neither the messages nor the outcome.\<close>

lemma feed_chunks:
  "map_option delivered (feed step s buf cs) = map_option delivered (drain step s (buf @ concat cs))"
proof (induction cs arbitrary: s buf)
  case (Cons c cs)
  obtain ms r s' buf' where d: "drain step s buf = Some (ms, r, s', buf')"
    using drain_total by (metis prod_cases4)
  show ?case
  proof (cases "r = Ok ()")
    case True
    have "map_option delivered (feed step s buf (c # cs)) =
      map_option (\<lambda>(ms', r). (ms @ ms', r)) (map_option delivered (feed step s' (buf' @ c) cs))"
      using d True by (cases "feed step s' (buf' @ c) cs") (auto simp: delivered_def)
    also have "\<dots> = map_option (\<lambda>(ms', r). (ms @ ms', r))
        (map_option delivered (drain step s' (buf' @ c @ concat cs)))"
      by (simp add: Cons)
    also have "\<dots> = map_option delivered (drain step s (buf @ concat (c # cs)))"
      using drain_append [OF d] True
      by (cases "drain step s' (buf' @ c @ concat cs)") (auto simp: delivered_def)
    finally show ?thesis .
  next
    case False
    then have "feed step s buf (c # cs) = Some (ms, r, s', buf')"
      using d by (cases r) auto
    with False show ?thesis
      using drain_append [OF d, of "concat (c # cs)"] by simp
  qed
qed simp

end

section \<open>Stateless parsers\<close>

text \<open>
  The laws of trait \<open>Parser\<close>: too few bytes leave the buffer alone, a ready message is
  consumed, and the answer depends only on the bytes it is read from.
\<close>

locale incremental_parser =
  fixes can_parse :: "bytes \<Rightarrow> bool"
    and parse :: "bytes \<Rightarrow> ('e, 'm option) result \<times> bytes"
  assumes early: "\<not> can_parse bs \<Longrightarrow> parse bs = (Ok None, bs)"
    and ready: "can_parse bs \<Longrightarrow> fst (parse bs) \<noteq> Ok None"
    and consumes: "parse bs = (Ok (Some m), bs') \<Longrightarrow> length bs' < length bs"
    and local: "can_parse bs \<Longrightarrow> parse bs = (r, bs') \<Longrightarrow> parse (bs @ extra) = (r, bs' @ extra)"
begin

lemma none_iff: "fst (parse bs) = Ok None \<longleftrightarrow> \<not> can_parse bs"
  using early ready by force

lemma can_parse_mono: "can_parse bs \<Longrightarrow> can_parse (bs @ extra)"
  by (metis early local none_iff prod.collapse fst_conv)

lemma strict_prefix_waits:
  assumes "parse bs = (Ok (Some m), [])" and "n < length bs"
  shows "parse (take n bs) = (Ok None, take n bs)"
proof (cases "can_parse (take n bs)")
  case True
  obtain r bs' where "parse (take n bs) = (r, bs')"
    by fastforce
  with local [OF True this, of "drop n bs"] assms show ?thesis
    by simp
qed (simp add: early)

end

definition parser_step ::
  "(bytes \<Rightarrow> ('e, 'm option) result \<times> bytes) \<Rightarrow> (unit, 'e, 'm) decoder" where
  "parser_step parse s bs = (fst (parse bs), s, snd (parse bs))"

sublocale incremental_parser \<subseteq> stream: stream_decoder "parser_step parse" "\<lambda>_. 0"
proof
  fix s s' :: unit and bs bs' extra
  assume "parser_step parse s bs = (Ok None, s', bs')"
  then have "bs' = bs"
    using none_iff early by (auto simp: parser_step_def)
  then show "parser_step parse s (bs @ extra) = parser_step parse s' (bs' @ extra)"
    by simp
next
  fix s s' :: unit and bs r bs' extra
  assume st: "parser_step parse s bs = (r, s', bs')" and "r \<noteq> Ok None"
  then have "can_parse bs" "parse bs = (r, bs')"
    using none_iff by (auto simp: parser_step_def prod_eq_iff)
  then show "parser_step parse s (bs @ extra) = (r, s', bs' @ extra)"
    using local by (simp add: parser_step_def)
next
  fix s s' :: unit and bs m bs'
  assume "parser_step parse s bs = (Ok (Some m), s', bs')"
  then have "length bs' < length bs"
    by (intro consumes [of bs m bs']) (auto simp: parser_step_def prod_eq_iff)
  then show "length bs' < length bs \<or> length bs' = length bs \<and> 0 < (0::nat)"
    by simp
qed

context incremental_parser
begin

text \<open>A stream of encoded messages followed by an incomplete one is drained message by message.\<close>

lemma drain_encoded:
  assumes "\<And>x rest. x \<in> set xs \<Longrightarrow> parse (enc x @ rest) = (Ok (Some (val x)), rest)"
    and "\<not> can_parse tail"
  shows "drain (parser_step parse) () (concat (map enc xs) @ tail) =
    Some (map val xs, Ok (), (), tail)"
  using assms(1)
proof (induction xs)
  case Nil
  show ?case
    using early [OF assms(2)] by (simp add: drain.simps parser_step_def)
next
  case (Cons x xs)
  then have "drain (parser_step parse) () (concat (map enc xs) @ tail) =
      Some (map val xs, Ok (), (), tail)"
    by simp
  then show ?case
    using Cons.prems [of x] by (subst drain.simps) (simp add: parser_step_def)
qed

end

section \<open>A message first, then a stream\<close>

text \<open>
  A reader that first waits for one message of a parser and then, with the state made from
  it, goes over to a decoder.
\<close>

definition chain_step ::
  "(bytes \<Rightarrow> ('e, 'm option) result \<times> bytes) \<Rightarrow> ('a \<Rightarrow> 'm \<Rightarrow> ('e, 's) result) \<Rightarrow> ('s, 'e, 'n) decoder \<Rightarrow>
     ('a + 's, 'e, 'm + 'n) decoder" where
  "chain_step parse accept step s bs =
     (case s of
        Inl a \<Rightarrow>
          (case parse bs of
             (Ok None, bs') \<Rightarrow> (Ok None, Inl a, bs')
           | (Ok (Some m), bs') \<Rightarrow>
               (case accept a m of
                  Ok t \<Rightarrow> (Ok (Some (Inl m)), Inr t, bs')
                | Err e \<Rightarrow> (Err e, Inl a, bs')
                | Panic \<Rightarrow> (Panic, Inl a, bs'))
           | (Err e, bs') \<Rightarrow> (Err e, Inl a, bs')
           | (Panic, bs') \<Rightarrow> (Panic, Inl a, bs'))
      | Inr t \<Rightarrow>
          (case step t bs of (r, t', bs') \<Rightarrow> (bind_result r (\<lambda>x. Ok (map_option Inr x)), Inr t', bs')))"

locale parser_then_decoder =
  first: incremental_parser can_parse parse + later: stream_decoder step weight
  for can_parse :: "bytes \<Rightarrow> bool" and parse :: "bytes \<Rightarrow> ('e, 'm option) result \<times> bytes"
    and step :: "('s, 'e, 'n) decoder" and weight :: "'s \<Rightarrow> nat"
begin

lemma chain_later:
  "chain_step parse accept step (Inr t) bs = (r, s', bs') \<longleftrightarrow>
     (\<exists>q t'. step t bs = (q, t', bs') \<and> r = bind_result q (\<lambda>x. Ok (map_option Inr x)) \<and> s' = Inr t')"
  by (cases "step t bs") (auto simp: chain_step_def)

lemma bind_inr_None: "bind_result q (\<lambda>x. Ok (map_option Inr x)) = Ok None \<longleftrightarrow> q = Ok None"
  by (cases q) auto

lemma bind_inr_Some: "bind_result q (\<lambda>x. Ok (map_option Inr x)) = Ok (Some m) \<longleftrightarrow> (\<exists>n. q = Ok (Some n) \<and> m = Inr n)"
  by (cases q) auto

lemma chain_first_waits:
  "chain_step parse accept step (Inl a) bs = (Ok None, s', bs') \<longleftrightarrow> \<not> can_parse bs \<and> s' = Inl a \<and> bs' = bs"
proof (cases "can_parse bs")
  case True
  with first.ready [OF True] show ?thesis
    by (auto simp: chain_step_def split: prod.splits result.splits option.splits)
qed (auto simp: chain_step_def first.early)

lemma chain_first_local:
  assumes "can_parse bs" "chain_step parse accept step (Inl a) bs = (r, s', bs')"
  shows "chain_step parse accept step (Inl a) (bs @ extra) = (r, s', bs' @ extra)"
proof -
  obtain q b where q: "parse bs = (q, b)"
    by fastforce
  with first.local [OF assms(1) q, of extra] assms(2) show ?thesis
    by (auto simp: chain_step_def split: result.splits option.splits)
qed

lemma chain_decoder: "stream_decoder (chain_step parse accept step) (case_sum (\<lambda>_. 0) weight)"
proof
  fix s s' bs bs' extra
  assume D: "chain_step parse accept step s bs = (Ok None, s', bs')"
  show "chain_step parse accept step s (bs @ extra) = chain_step parse accept step s' (bs' @ extra)"
  proof (cases s)
    case (Inl a)
    with D show ?thesis
      by (simp add: chain_first_waits)
  next
    case (Inr t)
    with D obtain t' where t': "step t bs = (Ok None, t', bs')" "s' = Inr t'"
      unfolding Inr chain_later by (auto simp: bind_inr_None dest: sym)
    with Inr show ?thesis
      by (simp add: chain_step_def later.waits [OF t'(1)])
  qed
next
  fix s s' bs r bs' extra
  assume D: "chain_step parse accept step s bs = (r, s', bs')" and r: "r \<noteq> Ok None"
  show "chain_step parse accept step s (bs @ extra) = (r, s', bs' @ extra)"
  proof (cases s)
    case (Inl a)
    have "can_parse bs"
      using D r first.early [of bs] unfolding Inl by (cases "can_parse bs") (auto simp: chain_step_def)
    from chain_first_local [OF this D [unfolded Inl]] show ?thesis
      by (simp add: Inl)
  next
    case (Inr t)
    with D obtain q t' where q: "step t bs = (q, t', bs')" "r = bind_result q (\<lambda>x. Ok (map_option Inr x))" "s' = Inr t'"
      unfolding Inr chain_later by blast
    then have "step t (bs @ extra) = (q, t', bs' @ extra)"
      using r later.stable by (auto simp: bind_inr_None)
    with q Inr show ?thesis
      by (auto simp: chain_later)
  qed
next
  fix s s' bs m bs'
  assume D: "chain_step parse accept step s bs = (Ok (Some m), s', bs')"
  show "length bs' < length bs \<or> length bs' = length bs \<and> case_sum (\<lambda>_. 0) weight s' < case_sum (\<lambda>_. 0) weight s"
  proof (cases s)
    case (Inl a)
    with D show ?thesis
      by (auto simp: chain_step_def dest: first.consumes split: prod.splits result.splits option.splits)
  next
    case (Inr t)
    with D show ?thesis
      unfolding Inr chain_later by (auto simp: bind_inr_Some dest!: sym [of "Ok (Some m)"] later.progress)
  qed
qed

end

text \<open>Draining a chain: the message, then what the decoder drains.\<close>

lemma drain_chain_first:
  assumes "parse bs = (Ok (Some m), bs')" "accept a m = Ok t"
  shows "drain (chain_step parse accept step) (Inl a) bs =
    Option.bind (drain (chain_step parse accept step) (Inr t) bs') (\<lambda>(ms, res). Some (Inl m # ms, res))"
  using assms by (subst drain.simps) (simp add: chain_step_def)

lemma drain_chain_later:
  assumes "drain step t bs = Some (ms, r, t', bs')"
  shows "drain (chain_step parse accept step) (Inr t) bs = Some (map Inr ms, r, Inr t', bs')"
proof -
  have "\<exists>ms r t' bs'. d = (ms, r, t', bs') \<and>
      drain (chain_step parse accept step) (Inr t) bs = Some (map Inr ms, r, Inr t', bs')"
    if "drain step t bs = Some d" for d
    using that
  proof (induction rule: drain.raw_induct [rotated, consumes 1, case_names step])
    case (step dr st t bs d)
    obtain q t1 b1 where q: "st t bs = (q, t1, b1)"
      by (metis prod_cases3)
    then have chain: "drain (chain_step parse accept st) (Inr t) bs =
        (case bind_result q (\<lambda>x. Ok (map_option Inr x)) of
           Ok None \<Rightarrow> Some ([], Ok (), Inr t1, b1)
         | Ok (Some m) \<Rightarrow> Option.bind (drain (chain_step parse accept st) (Inr t1) b1) (\<lambda>(ms, res). Some (m # ms, res))
         | Err e \<Rightarrow> Some ([], Err e, Inr t1, b1)
         | Panic \<Rightarrow> Some ([], Panic, Inr t1, b1))"
      by (subst drain.simps) (simp add: chain_step_def)
    show ?case
    proof (cases "\<exists>m. q = Ok (Some m)")
      case True
      then obtain m d1 where "q = Ok (Some m)" "dr st t1 b1 = Some d1" "d = (m # fst d1, snd d1)"
        using step(2) q by (auto simp: bind_eq_Some_conv)
      with step(1) [of st t1 b1 d1] chain show ?thesis
        by auto
    next
      case False
      with step(2) q chain show ?thesis
        by (cases q) (auto split: option.splits)
    qed
  qed
  from this [OF assms] show ?thesis
    by simp
qed

end
