(* ===== verification/Tls_Record.thy ===== *)
theory Tls_Record
  imports Stream Wire_Types "HOL-Library.Sublist"
begin

text \<open>
  The TLS record layer of \<open>engine/src/tlseng/tls_record.rs\<close>: the five-byte header, its
  serialisation, the incremental parser and the raw \<open>ApplicationData\<close> payload; and the part
  of \<open>engine/src/bridge.rs\<close> that unwraps records by content type in the data phase.  The
  lemmas show the round trip, what a truncated record does, that the two guards of
  \<open>can_parse\<close> make a buffer wait for ever, and the parser contract.
\<close>

section \<open>Records\<close>

record tls_record =
  tr_content_type :: content_type
  tr_version :: protocol_version
  tr_len :: u16
  tr_payload :: bytes

definition tls_record_new :: "content_type \<Rightarrow> protocol_version \<Rightarrow> bytes \<Rightarrow> tls_record" where
  "tls_record_new ct v payload =
     \<lparr>tr_content_type = ct, tr_version = v, tr_len = of_nat (length payload), tr_payload = payload\<rparr>"

definition tls_record_serialize :: "tls_record \<Rightarrow> bytes" where
  "tls_record_serialize r =
     [content_type_code (tr_content_type r)] @ be16 (protocol_version_code (tr_version r)) @
     be16 (of_nat (length (tr_payload r))) @ tr_payload r"

definition build_application_data :: "bytes \<Rightarrow> bytes" where
  "build_application_data payload =
     tls_record_serialize (tls_record_new ApplicationData Tls12 payload)"

definition build_change_cipher_spec :: bytes where
  "build_change_cipher_spec = tls_record_serialize (tls_record_new ChangeCipherSpec Tls12 [0x01])"

section \<open>The parser\<close>

definition valid_record_type :: "u8 \<Rightarrow> bool" where
  "valid_record_type b \<longleftrightarrow>
     b = content_type_code Handshake \<or> b = content_type_code ApplicationData \<or>
     b = content_type_code Alert \<or> b = content_type_code ChangeCipherSpec"

definition record_can_parse :: "bytes \<Rightarrow> bool" where
  "record_can_parse bs \<longleftrightarrow>
     (if length bs < 5 then False
      else if \<not> valid_record_type (bs ! 0) then False
      else
        let record_len = unat (from_be [bs ! 3, bs ! 4] :: u16)
        in if bs ! 0 = content_type_code ApplicationData \<and> record_len < 17 then False
           else 5 + record_len \<le> length bs)"

definition redirect_error :: "string \<Rightarrow> tls_error" where
  "redirect_error e = tls_error_new (StageTls e) Redirect []"

text \<open>\<open>get_u8\<close>, \<open>get_u16\<close>, \<open>get_u16\<close>, \<open>split_to\<close> in this order, each panicking on a short buffer.\<close>

definition record_parse :: "bytes \<Rightarrow> (tls_error, tls_record option) result \<times> bytes" where
  "record_parse bs =
     (if \<not> record_can_parse bs then (Ok None, bs)
      else
        case get_u8 bs of
          None \<Rightarrow> (Panic, bs)
        | Some (raw_content_type, bs1) \<Rightarrow>
        (case get_u16 bs1 of
          None \<Rightarrow> (Panic, bs1)
        | Some (raw_version, bs2) \<Rightarrow>
        (case get_u16 bs2 of
          None \<Rightarrow> (Panic, bs2)
        | Some (record_len, bs3) \<Rightarrow>
        (case map_err redirect_error (content_type_try_from raw_content_type) of
          Err e \<Rightarrow> (Err e, bs3)
        | Panic \<Rightarrow> (Panic, bs3)
        | Ok ct \<Rightarrow>
        (case map_err redirect_error (protocol_version_try_from raw_version) of
          Err e \<Rightarrow> (Err e, bs3)
        | Panic \<Rightarrow> (Panic, bs3)
        | Ok v \<Rightarrow>
        (case split_to (unat record_len) bs3 of
          None \<Rightarrow> (Panic, bs3)
        | Some (payload, bs4) \<Rightarrow> (Ok (Some (tls_record_new ct v payload)), bs4)))))))"

text \<open>The raw payload parser of the data phase takes the whole buffer.\<close>

record application_data =
  ad_len :: nat
  ad_payload :: bytes

definition app_data_can_parse :: "bytes \<Rightarrow> bool" where
  "app_data_can_parse bs \<longleftrightarrow> bs \<noteq> []"

definition app_data_parse :: "bytes \<Rightarrow> (tls_error, application_data option) result \<times> bytes" where
  "app_data_parse bs =
     (if length bs = 0 then (Ok None, bs)
      else case split_to (length bs) bs of
             None \<Rightarrow> (Panic, bs)
           | Some (payload, rest) \<Rightarrow>
               (Ok (Some \<lparr>ad_len = length bs, ad_payload = payload\<rparr>), rest))"

section \<open>Unwrapping records by type\<close>

text \<open>\<open>TlsInterceptor::start_process\<close>: parse one record, hand it to the type's handler.\<close>

definition start_process ::
  "(tls_record \<Rightarrow> (tls_error, 'a option) result) \<Rightarrow> bytes \<Rightarrow> (tls_error, 'a option) result \<times> bytes"
where
  "start_process handle_record buffer =
     (case record_parse buffer of
        (Ok (Some r), buffer') \<Rightarrow> (handle_record r, buffer')
      | (Ok None, buffer') \<Rightarrow> (Ok None, buffer')
      | (Err e, buffer') \<Rightarrow> (Err e, buffer')
      | (Panic, buffer') \<Rightarrow> (Panic, buffer'))"

definition handle_app_data :: "tls_record \<Rightarrow> (tls_error, application_data option) result" where
  "handle_app_data r =
     (if tr_content_type r \<noteq> ApplicationData
      then Err (tls_error_new (StageApplicationData ''Expected AppData record'') Drop
                  (tls_record_serialize r))
      else Ok (Some \<lparr>ad_len = length (tr_payload r), ad_payload = tr_payload r\<rparr>))"

definition handle_ccs :: "tls_record \<Rightarrow> (tls_error, unit option) result" where
  "handle_ccs r =
     (if tr_content_type r \<noteq> ChangeCipherSpec
      then Err (tls_error_new (StageTls ''Expected ChangeCipherSpec record'') Drop
                  (tls_record_serialize r))
      else Ok (Some ()))"

definition unpack_app_data :: "bytes \<Rightarrow> (tls_error, application_data option) result \<times> bytes" where
  "unpack_app_data buffer = start_process handle_app_data buffer"

definition pack_app_data :: "bytes \<Rightarrow> bytes" where
  "pack_app_data buffer = build_application_data buffer"

definition build_middlebox_ccs :: bytes where
  "build_middlebox_ccs = build_change_cipher_spec"

definition unpack_middlebox_ccs :: "bytes \<Rightarrow> (tls_error, unit option) result \<times> bytes" where
  "unpack_middlebox_ccs buffer = start_process handle_ccs buffer"

section \<open>Layout lemmas\<close>

definition record_header :: "u8 \<Rightarrow> u16 \<Rightarrow> u16 \<Rightarrow> bytes" where
  "record_header t v n = [t] @ be16 v @ be16 n"

lemma length_record_header [simp, wire_simps]: "length (record_header t v n) = 5"
  by (simp add: record_header_def)

lemma serialize_header:
  "tls_record_serialize r =
     record_header (content_type_code (tr_content_type r)) (protocol_version_code (tr_version r))
       (of_nat (length (tr_payload r))) @ tr_payload r"
  by (simp add: tls_record_serialize_def record_header_def)

lemma record_header_split:
  assumes "5 \<le> length bs"
  obtains t v n rest where "bs = record_header t v n @ rest"
proof -
  from assms obtain t bs1 where bs: "bs = t # bs1" and len: "4 \<le> length bs1"
    by (cases bs) auto
  have "bs1 = be16 (from_be (take 2 bs1)) @ be16 (from_be (take 2 (drop 2 bs1))) @ drop 4 bs1"
    using len take_drop_split3 [of 2 bs1 2] by simp
  then show thesis
    using that [of t "from_be (take 2 bs1)" "from_be (take 2 (drop 2 bs1))" "drop 4 bs1"]
    by (simp add: bs record_header_def)
qed

lemma record_header_nth [simp]:
  "(record_header t v n @ rest) ! 0 = t"
  by (simp add: record_header_def)

lemma record_header_len_field:
  "(from_be [(record_header t v n @ rest) ! 3, (record_header t v n @ rest) ! 4] :: u16) = n"
proof -
  obtain a b where ab: "be16 n = [a, b]"
    by (simp add: be16_def)
  obtain c d where cd: "be16 v = [c, d]"
    by (simp add: be16_def)
  have "(from_be [a, b] :: u16) = n"
    by (metis ab from_be_be16)
  then show ?thesis
    by (simp add: record_header_def ab cd)
qed

definition record_fits :: "u8 \<Rightarrow> u16 \<Rightarrow> bool" where
  "record_fits t n \<longleftrightarrow> valid_record_type t \<and> (t = content_type_code ApplicationData \<longrightarrow> 17 \<le> unat n)"

lemma record_can_parse_header:
  "record_can_parse (record_header t v n @ rest) \<longleftrightarrow> record_fits t n \<and> unat n \<le> length rest"
  unfolding record_can_parse_def record_header_nth record_header_len_field
  by (auto simp: record_fits_def Let_def)

lemma valid_record_type_code: "valid_record_type t \<longleftrightarrow> (\<exists>ct. t = content_type_code ct)"
proof
  assume "\<exists>ct. t = content_type_code ct"
  then obtain ct where "t = content_type_code ct" ..
  then show "valid_record_type t"
    by (cases ct) (simp_all add: valid_record_type_def)
next
  assume "valid_record_type t"
  then show "\<exists>ct. t = content_type_code ct"
    unfolding valid_record_type_def by blast
qed

lemma record_parse_header:
  assumes "record_fits t n" and "unat n \<le> length rest"
  obtains ct where "t = content_type_code ct"
    "record_parse (record_header t v n @ rest) =
       (case protocol_version_try_from v of
          Ok ver \<Rightarrow> (Ok (Some (tls_record_new ct ver (take (unat n) rest))), drop (unat n) rest)
        | Err e \<Rightarrow> (Err (redirect_error e), rest)
        | Panic \<Rightarrow> (Panic, rest))"
proof -
  from assms obtain ct where ct: "t = content_type_code ct"
    by (auto simp: record_fits_def valid_record_type_code)
  have "record_can_parse (record_header t v n @ rest)"
    using assms by (simp add: record_can_parse_header)
  then have "record_parse (record_header t v n @ rest) =
       (case protocol_version_try_from v of
          Ok ver \<Rightarrow> (Ok (Some (tls_record_new ct ver (take (unat n) rest))), drop (unat n) rest)
        | Err e \<Rightarrow> (Err (redirect_error e), rest)
        | Panic \<Rightarrow> (Panic, rest))"
    using assms(2) unfolding record_parse_def
    by (cases "protocol_version_try_from v") (simp_all add: record_header_def ct split_to_def)
  with ct that show thesis
    by blast
qed

lemma record_parse_early: "\<not> record_can_parse bs \<Longrightarrow> record_parse bs = (Ok None, bs)"
  by (simp add: record_parse_def)

lemma record_can_parse_split:
  assumes "record_can_parse bs"
  obtains t v n rest where "bs = record_header t v n @ rest" "record_fits t n" "unat n \<le> length rest"
proof -
  have "5 \<le> length bs"
    using assms by (auto simp: record_can_parse_def split: if_splits)
  then obtain t v n rest where "bs = record_header t v n @ rest"
    by (rule record_header_split)
  with assms that show thesis
    by (auto simp: record_can_parse_header)
qed

text \<open>One ready record: either it is read, or its version field is unknown.\<close>

lemma record_parse_cases:
  assumes "record_can_parse bs"
  obtains (parsed) ct ver payload rest where
      "bs = record_header (content_type_code ct) (protocol_version_code ver) (of_nat (length payload))
              @ payload @ rest"
      "length payload < 65536" "ct = ApplicationData \<Longrightarrow> 17 \<le> length payload"
      "record_parse bs = (Ok (Some (tls_record_new ct ver payload)), rest)"
  | (version) e t v n rest where
      "bs = record_header t v n @ rest" "record_fits t n" "unat n \<le> length rest"
      "protocol_version_try_from v = Err e" "record_parse bs = (Err (redirect_error e), rest)"
proof -
  obtain t v n rest where bs: "bs = record_header t v n @ rest" "record_fits t n" "unat n \<le> length rest"
    using assms by (rule record_can_parse_split)
  then obtain ct where ct: "t = content_type_code ct"
    and P: "record_parse bs =
       (case protocol_version_try_from v of
          Ok ver \<Rightarrow> (Ok (Some (tls_record_new ct ver (take (unat n) rest))), drop (unat n) rest)
        | Err e \<Rightarrow> (Err (redirect_error e), rest)
        | Panic \<Rightarrow> (Panic, rest))"
    by (metis record_parse_header)
  show thesis
  proof (cases "protocol_version_try_from v")
    case (Ok ver)
    have "unat (of_nat (unat n) :: u16) = unat n"
      by simp
    then show thesis
      using bs P Ok ct
      by (intro parsed [of ct ver "take (unat n) rest" "drop (unat n) rest"])
         (auto simp: record_fits_def min_def dest: protocol_version_try_from_Ok)
  next
    case (Err e)
    with bs P show thesis
      by (intro version [of t v n rest e]) auto
  qed simp
qed

lemma record_parse_local:
  assumes "record_can_parse bs" "record_parse bs = (r, bs')"
  shows "record_parse (bs @ extra) = (r, bs' @ extra)"
  using assms(1)
proof (cases rule: record_can_parse_split)
  case (1 t v n rest)
  obtain ct where "t = content_type_code ct"
    and P: "record_parse bs =
       (case protocol_version_try_from v of
          Ok ver \<Rightarrow> (Ok (Some (tls_record_new ct ver (take (unat n) rest))), drop (unat n) rest)
        | Err e \<Rightarrow> (Err (redirect_error e), rest)
        | Panic \<Rightarrow> (Panic, rest))"
    using record_parse_header [OF 1(2,3)] unfolding 1(1) by metis
  obtain ct' where "t = content_type_code ct'"
    and P': "record_parse (record_header t v n @ rest @ extra) =
       (case protocol_version_try_from v of
          Ok ver \<Rightarrow> (Ok (Some (tls_record_new ct' ver (take (unat n) (rest @ extra)))),
                     drop (unat n) (rest @ extra))
        | Err e \<Rightarrow> (Err (redirect_error e), rest @ extra)
        | Panic \<Rightarrow> (Panic, rest @ extra))"
    using record_parse_header [OF 1(2), of "rest @ extra"] 1(3) by (metis length_append trans_le_add1)
  have "ct = ct'"
    using \<open>t = content_type_code ct\<close> \<open>t = content_type_code ct'\<close> by simp
  with P P' assms(2) 1 show ?thesis
    by (cases "protocol_version_try_from v") auto
qed

interpretation record_parser: incremental_parser record_can_parse record_parse
proof
  fix bs r bs'
  assume P: "record_parse bs = (Ok (Some r), bs')"
  then have "record_can_parse bs"
    using record_parse_early by fastforce
  then show "length bs' < length bs"
    by (cases rule: record_parse_cases) (use P in auto)
next
  fix bs
  assume "record_can_parse bs"
  then show "fst (record_parse bs) \<noteq> Ok None"
    by (cases rule: record_parse_cases) auto
qed (auto simp: record_parse_early record_parse_local)

section \<open>Properties of the record layer\<close>

lemma record_fits_code:
  "n < 65536 \<Longrightarrow> (ct = ApplicationData \<Longrightarrow> 17 \<le> n) \<Longrightarrow>
     record_fits (content_type_code ct) (of_nat n)"
  using content_type_code_inj [of ct ApplicationData]
  by (auto simp: record_fits_def valid_record_type_code simp del: content_type_code_inj)

lemma record_parse_serialized:
  assumes "length payload < 65536" and "ct = ApplicationData \<Longrightarrow> 17 \<le> length payload"
  shows "record_parse (tls_record_serialize (tls_record_new ct v payload) @ rest) =
    (Ok (Some (tls_record_new ct v payload)), rest)"
proof -
  let ?t = "content_type_code ct" and ?n = "of_nat (length payload) :: u16"
  have fits: "record_fits ?t ?n" and len: "unat ?n \<le> length (payload @ rest)"
    using assms by (auto intro: record_fits_code)
  have "record_parse (record_header ?t (protocol_version_code v) ?n @ payload @ rest) =
      (Ok (Some (tls_record_new ct v payload)), rest)"
    by (rule record_parse_header [OF fits len, of "protocol_version_code v"]) (use assms(1) in simp)
  then show ?thesis
    by (simp add: serialize_header tls_record_new_def)
qed

text \<open>A serialised record of at most 65535 bytes (for application
  data, of at least 17) is read back with its type, version and payload, and exactly its bytes
  are consumed.\<close>

theorem record_roundtrip:
  assumes "length payload < 65536" and "ct = ApplicationData \<Longrightarrow> 17 \<le> length payload"
  shows "record_parse (tls_record_serialize (tls_record_new ct v payload) @ rest) =
    (Ok (Some (tls_record_new ct v payload)), rest)"
  by (rule record_parse_serialized [OF assms])

lemma record_roundtrip_witness:
  "record_parse (tls_record_serialize (tls_record_new Handshake Tls10 [1, 2]) @ [7]) =
    (Ok (Some (tls_record_new Handshake Tls10 [1, 2])), [7])"
  by (rule record_roundtrip) simp_all

text \<open>Property C31 (record_parse_outcome): parsing a record never panics; it waits with the buffer
  untouched, returns a record whose serialisation is what was consumed, or, for a version
  field it does not know, consumes the five header bytes only and asks for a redirect.\<close>

theorem record_parse_outcome:
  "case record_parse bs of
     (Ok None, bs') \<Rightarrow> \<not> record_can_parse bs \<and> bs' = bs
   | (Ok (Some r), bs') \<Rightarrow> bs = tls_record_serialize r @ bs'
   | (Err e, bs') \<Rightarrow> err_action e = Redirect \<and> bs' = drop 5 bs
   | (Panic, bs') \<Rightarrow> False"
proof (cases "record_can_parse bs")
  case True
  then show ?thesis
  proof (cases rule: record_parse_cases)
    case (parsed ct ver payload rest)
    then show ?thesis
      by (simp add: serialize_header tls_record_new_def)
  next
    case (version e t v n rest)
    then show ?thesis
      by (simp add: redirect_error_def tls_error_new_def)
  qed
qed (simp add: record_parse_early)

text \<open>A buffer whose first byte is not one of the four record
  types is never rejected: whatever arrives later, the parser keeps asking for more bytes, so
  the \<open>Redirect\<close> announced for an unknown type cannot happen.\<close>

theorem unknown_type_stalls:
  assumes "bs \<noteq> []" and "\<not> valid_record_type (bs ! 0)"
  shows "record_parse (bs @ extra) = (Ok None, bs @ extra)"
proof -
  have "(bs @ extra) ! 0 = bs ! 0"
    using assms(1) by (simp add: nth_append)
  with assms(2) have "\<not> record_can_parse (bs @ extra)"
    by (simp add: record_can_parse_def)
  then show ?thesis
    by (rule record_parse_early)
qed

lemma unknown_type_stalls_witness:
  "record_parse ([0x99, 3, 3, 0, 1, 0] @ [1, 2, 3]) = (Ok None, [0x99, 3, 3, 0, 1, 0] @ [1, 2, 3])"
  by (rule unknown_type_stalls) (simp_all add: valid_record_type_def)

text \<open>An application-data record that announces fewer than 17
  bytes blocks the stream for ever: no continuation of the buffer makes the parser move.\<close>

theorem short_app_data_stalls:
  assumes "unat n < 17"
  shows "record_parse (record_header (content_type_code ApplicationData) v n @ extra) =
    (Ok None, record_header (content_type_code ApplicationData) v n @ extra)"
  by (rule record_parse_early) (use assms in \<open>simp add: record_can_parse_header record_fits_def\<close>)

lemma short_app_data_stalls_witness:
  "record_parse (record_header (content_type_code ApplicationData) 0x0303 5 @ replicate 40 0) =
    (Ok None, record_header (content_type_code ApplicationData) 0x0303 5 @ replicate 40 0)"
  by (rule short_app_data_stalls) simp

text \<open>The 16-bit length field silently loses the high bits
  of a payload of 65536 bytes or more; the receiver cuts the record and reads the rest of it
  as the next record header.\<close>

theorem record_oversize_truncates:
  assumes "65536 \<le> length payload" and "17 \<le> length payload mod 65536"
  shows "record_parse (build_application_data payload @ rest) =
    (Ok (Some (tls_record_new ApplicationData Tls12 (take (length payload mod 65536) payload))),
     drop (length payload mod 65536) payload @ rest)"
proof -
  let ?k = "length payload mod 65536" and ?t = "content_type_code ApplicationData"
  have k: "?k < length payload"
    using assms(1) by (meson less_le_trans mod_less_divisor zero_less_numeral)
  have "build_application_data payload @ rest =
      record_header ?t (protocol_version_code Tls12) (of_nat ?k) @ take ?k payload @ drop ?k payload @ rest"
    by (simp add: build_application_data_def serialize_header tls_record_new_def of_nat_u16_mod)
  also have "\<dots> = tls_record_serialize (tls_record_new ApplicationData Tls12 (take ?k payload)) @
      drop ?k payload @ rest"
    using k by (simp add: serialize_header tls_record_new_def min_def)
  finally show ?thesis
    using k assms(2) by (simp add: record_parse_serialized)
qed

lemma record_oversize_truncates_witness:
  "record_parse (build_application_data (replicate 65553 (7::u8)) @ []) =
    (Ok (Some (tls_record_new ApplicationData Tls12
        (take (length (replicate 65553 (7::u8)) mod 65536) (replicate 65553 7)))),
     drop (length (replicate 65553 (7::u8)) mod 65536) (replicate 65553 7) @ [])"
  by (rule record_oversize_truncates) simp_all

section \<open>The data phase of the bridge\<close>

lemma unpack_pack_app_data:
  assumes "17 \<le> length c" and "length c < 65536"
  shows "unpack_app_data (pack_app_data c @ rest) = (Ok (Some \<lparr>ad_len = length c, ad_payload = c\<rparr>), rest)"
  using assms
  by (simp add: unpack_app_data_def start_process_def pack_app_data_def build_application_data_def
      record_parse_serialized handle_app_data_def)
     (simp add: tls_record_new_def)

lemma length_pack_app_data [wire_simps]: "length (pack_app_data c) = 5 + length c"
  by (simp add: pack_app_data_def build_application_data_def serialize_header tls_record_new_def)

text \<open>
  A handler that never asks to wait makes unwrapping a record an incremental parser: only an
  incomplete record waits.
\<close>

lemma start_process_parser:
  assumes "\<And>r. h r \<noteq> Ok None"
  shows "incremental_parser record_can_parse (start_process h)"
proof
  fix bs
  show "\<not> record_can_parse bs \<Longrightarrow> start_process h bs = (Ok None, bs)"
    by (simp add: start_process_def record_parse_early)
  show "record_can_parse bs \<Longrightarrow> fst (start_process h bs) \<noteq> Ok None"
    using record_parser.ready [of bs] assms
    by (auto simp: start_process_def split: prod.splits result.splits option.splits)
next
  fix bs m bs'
  show "start_process h bs = (Ok (Some m), bs') \<Longrightarrow> length bs' < length bs"
    using record_parser.consumes [of bs]
    by (auto simp: start_process_def split: result.splits option.splits prod.splits)
next
  fix bs r bs' extra
  assume can: "record_can_parse bs" and D: "start_process h bs = (r, bs')"
  obtain x bs1 where P: "record_parse bs = (x, bs1)"
    by fastforce
  with record_parse_local [OF can P, of extra] record_parser.ready [OF can] D
  show "start_process h (bs @ extra) = (r, bs' @ extra)"
    by (auto simp: start_process_def split: result.splits option.splits)
qed

interpretation app_parser: incremental_parser record_can_parse unpack_app_data
  unfolding unpack_app_data_def by (rule start_process_parser) (simp add: handle_app_data_def)

interpretation ccs_parser: incremental_parser record_can_parse unpack_middlebox_ccs
  unfolding unpack_middlebox_ccs_def by (rule start_process_parser) (simp add: handle_ccs_def)

lemma unpack_app_data_early:
  "unpack_app_data bs = (Ok None, bs') \<longleftrightarrow> \<not> record_can_parse bs \<and> bs' = bs"
  using app_parser.none_iff [of bs] app_parser.early [of bs] by (auto simp: prod_eq_iff)

lemma unpack_app_data_local:
  "unpack_app_data bs = (r, bs') \<Longrightarrow> r \<noteq> Ok None \<Longrightarrow> unpack_app_data (bs @ extra) = (r, bs' @ extra)"
  using app_parser.local [of bs r bs' extra] app_parser.early [of bs] by (cases "record_can_parse bs") auto

lemma unpack_app_data_suffix: "suffix (snd (unpack_app_data bs)) bs"
proof (cases "record_can_parse bs")
  case True
  then show ?thesis
    by (cases rule: record_parse_cases) (simp_all add: unpack_app_data_def start_process_def suffix_appendI)
qed (simp add: unpack_app_data_def start_process_def record_parse_early)

lemma unpack_app_data_shrinks:
  "unpack_app_data bs = (Ok (Some a), bs') \<Longrightarrow> length bs' < length bs"
  by (rule app_parser.consumes)

text \<open>The middlebox change-cipher-spec record is the six bytes a browser
  sends, and the peer cuts exactly them from its buffer.\<close>

theorem ccs_exact:
  "build_middlebox_ccs = [0x14, 0x03, 0x03, 0x00, 0x01, 0x01] \<and>
   unpack_middlebox_ccs (build_middlebox_ccs @ rest) = (Ok (Some ()), rest)"
proof -
  have "build_middlebox_ccs = tls_record_serialize (tls_record_new ChangeCipherSpec Tls12 [1])"
    by (simp add: build_middlebox_ccs_def build_change_cipher_spec_def)
  moreover have "record_parse (tls_record_serialize (tls_record_new ChangeCipherSpec Tls12 [1]) @ rest) =
      (Ok (Some (tls_record_new ChangeCipherSpec Tls12 [1])), rest)"
    by (rule record_parse_serialized) simp_all
  ultimately have "unpack_middlebox_ccs (build_middlebox_ccs @ rest) = (Ok (Some ()), rest)"
    by (simp add: unpack_middlebox_ccs_def start_process_def handle_ccs_def)
       (simp add: tls_record_new_def)
  moreover have "build_middlebox_ccs = [0x14, 0x03, 0x03, 0x00, 0x01, 0x01]"
    by (simp add: build_middlebox_ccs_def build_change_cipher_spec_def tls_record_serialize_def
        tls_record_new_def be16_def)
  ultimately show ?thesis
    by simp
qed

end
