(* ===== verification/Hello.thy ===== *)
theory Hello
  imports Extension_Builder Tls_Record
begin

text \<open>
  The hello messages of \<open>engine/src/tlseng/handshake.rs\<close>: header, client hello and server
  hello, each with its serialiser and its parser, and the two functions that make a complete
  record out of a profile and the session keys.  The lemmas show the round trips, exactly when
  the client-hello parser panics, that the server-hello parser never does, and which cipher
  suite a server chooses.
\<close>

section \<open>Headers\<close>

text \<open>A read that panics when the buffer is too short.\<close>

definition or_panic :: "'a option \<Rightarrow> bytes \<Rightarrow> ('a \<Rightarrow> ('e, 'b) result \<times> bytes) \<Rightarrow> ('e, 'b) result \<times> bytes" where
  "or_panic x bs k = (case x of None \<Rightarrow> (Panic, bs) | Some y \<Rightarrow> k y)"

lemma or_panic_simps [simp]:
  "or_panic (Some y) bs k = k y" "or_panic None bs k = (Panic, bs)"
  by (simp_all add: or_panic_def)

record hello_header =
  hh_type :: hello_type
  hh_len :: bytes

definition header_can_parse :: "bytes \<Rightarrow> bool" where
  "header_can_parse bs \<longleftrightarrow>
     (if length bs < 4 then False
      else bs ! 0 = hello_type_code HelloClient \<or> bs ! 0 = hello_type_code HelloServer)"

definition header_parse :: "bytes \<Rightarrow> (tls_error, hello_header option) result \<times> bytes" where
  "header_parse bs =
     (if \<not> header_can_parse bs then (Ok None, bs)
      else
        or_panic (get_u8 bs) bs (\<lambda>(raw_type, bs1).
          case map_err (\<lambda>e. tls_error_new (StageHandshake e) Drop []) (hello_type_try_from raw_type) of
            Err e \<Rightarrow> (Err e, bs1)
          | Panic \<Rightarrow> (Panic, bs1)
          | Ok header_type \<Rightarrow>
              or_panic (get_u24 bs1) bs1 (\<lambda>(len, bs2).
                (Ok (Some \<lparr>hh_type = header_type, hh_len = u24_from_u32 len\<rparr>), bs2))))"

section \<open>The client hello\<close>

record client_hello =
  ch_version :: protocol_version
  ch_random :: bytes
  ch_session_id :: bytes
  ch_cipher_suites :: "u16 list"
  ch_extensions :: bytes

definition client_hello_body :: "client_hello \<Rightarrow> bytes" where
  "client_hello_body h =
     be16 0x0303 @ ch_random h @
     [of_nat (length (ch_session_id h))] @ ch_session_id h @
     be16 (of_nat (length (ch_cipher_suites h) * 2)) @ put_u16s (ch_cipher_suites h) @
     [1, 0x00] @
     be16 (of_nat (length (ch_extensions h))) @ ch_extensions h"

text \<open>The three length bytes are filled in after the body is written.\<close>

definition client_hello_serialize :: "client_hello \<Rightarrow> bytes" where
  "client_hello_serialize h =
     [handshake_type_client_hello] @ drop 1 (be32 (of_nat (length (client_hello_body h)))) @ client_hello_body h"

definition client_hello_can_parse :: "bytes \<Rightarrow> bool" where
  "client_hello_can_parse bs \<longleftrightarrow>
     (if length bs < 35 then False
      else
        let reader = drop 34 bs;
            sid_len = unat (reader ! 0);
            reader = drop 1 reader
        in if length reader < sid_len + 2 then False
      else
        let reader = drop sid_len reader;
            ciphers_len = unat (from_be [reader ! 0, reader ! 1] :: u16);
            reader = drop 2 reader
        in if length reader < ciphers_len + 1 then False
      else
        let reader = drop ciphers_len reader;
            comp_len = unat (reader ! 0);
            reader = drop 1 reader
        in if length reader < comp_len then False
      else
        let reader = drop comp_len reader
        in if 2 \<le> length reader
           then (let ext_len = unat (from_be [reader ! 0, reader ! 1] :: u16);
                     reader = drop 2 reader
                 in \<not> length reader < ext_len)
           else True)"

text \<open>\<open>while ciphers_data.has_remaining()\<close> with \<open>get_u16\<close>: one byte left is a panic.\<close>

fun read_suites :: "bytes \<Rightarrow> u16 list option" where
  "read_suites [] = Some []"
| "read_suites [b] = None"
| "read_suites (a # b # rest) = map_option ((#) (from_be [a, b])) (read_suites rest)"

definition client_hello_parse :: "bytes \<Rightarrow> (tls_error, client_hello option) result \<times> bytes" where
  "client_hello_parse bs =
     (if \<not> client_hello_can_parse bs then (Ok None, bs)
      else
        or_panic (get_u16 bs) bs (\<lambda>(raw_version, bs1).
          case map_err (\<lambda>e. tls_error_new (StageTls e) Drop []) (protocol_version_try_from raw_version) of
            Err e \<Rightarrow> (Err e, bs1)
          | Panic \<Rightarrow> (Panic, bs1)
          | Ok version \<Rightarrow>
        or_panic (split_to 32 bs1) bs1 (\<lambda>(random, bs2).
        or_panic (get_u8 bs2) bs2 (\<lambda>(sid_len, bs3).
        or_panic (split_to (unat sid_len) bs3) bs3 (\<lambda>(session_id, bs4).
        or_panic (get_u16 bs4) bs4 (\<lambda>(c_len, bs5).
        or_panic (split_to (unat c_len) bs5) bs5 (\<lambda>(ciphers_data, bs6).
        or_panic (read_suites ciphers_data) bs6 (\<lambda>cipher_suites.
        or_panic (get_u8 bs6) bs6 (\<lambda>(cmp_len, bs7).
        or_panic (advance_cursor (unat cmp_len) bs7) bs7 (\<lambda>bs8.
          let extensions =
                (if 2 \<le> length bs8
                 then Option.bind (get_u16 bs8) (\<lambda>(ext_len, bs9). split_to (unat ext_len) bs9)
                 else Some ([], bs8))
          in or_panic extensions bs8 (\<lambda>(exts, bs10).
               (Ok (Some \<lparr>ch_version = version, ch_random = random, ch_session_id = session_id,
                          ch_cipher_suites = cipher_suites, ch_extensions = exts\<rparr>), bs10))))))))))))"

definition make_client_hello ::
  "crypto \<Rightarrow> u64 \<Rightarrow> browser_profile \<Rightarrow> bytes \<Rightarrow> session_keys \<Rightarrow> rng \<Rightarrow> (bytes \<times> rng) option" where
  "make_client_hello P now profile host keys r =
     (let tls_random = keys_local_salt keys;
          (rnd, r1) = fill_bytes 15 r;
          session_id = [claimed_version keys] @ rnd @ hello_tag_for P now keys tls_random;
          (grease, r2) = grease_random r1;
          cipher_suites = (if bp_has_grease profile then [gs_cipher grease] else []) @ bp_cipher_suites profile;
          handshake_header = 4;
          client_hello_fixed = 2 + 32 + 1 + 32 + 2 + (length cipher_suites * 2) + 2 + 2;
          total_overhead = handshake_header + client_hello_fixed
      in map_option (\<lambda>(ext_builder, r3).
           let (extensions_bytes, _) = builder_build ext_builder;
               client_hello = \<lparr>ch_version = Tls12, ch_random = tls_random, ch_session_id = session_id,
                               ch_cipher_suites = cipher_suites, ch_extensions = extensions_bytes\<rparr>
           in (tls_record_serialize
                 (tls_record_new Handshake (bp_record_layer_version profile) (client_hello_serialize client_hello)),
               r3))
           (apply_profile profile host (public_key_bytes keys) total_overhead (builder_with_grease grease) r2))"

section \<open>The server hello\<close>

record server_hello =
  sh_version :: protocol_version
  sh_random :: bytes
  sh_session_id :: bytes
  sh_cipher_suite :: u16
  sh_extensions :: bytes

definition select_suite :: "client_hello \<Rightarrow> server_profile \<Rightarrow> u16" where
  "select_suite ch profile =
     (case (if sv_honor_cipher_order profile
            then List.find (\<lambda>suite. suite \<in> set (ch_cipher_suites ch)) (sv_cipher_suites profile)
            else List.find (\<lambda>suite. suite \<in> set (sv_cipher_suites profile)) (ch_cipher_suites ch)) of
        Some suite \<Rightarrow> suite
      | None \<Rightarrow> 0x1301)"

definition from_client_hello :: "client_hello \<Rightarrow> bytes \<Rightarrow> bytes \<Rightarrow> server_profile \<Rightarrow> server_hello" where
  "from_client_hello ch server_public_key salt profile =
     (let selected_version = tls_versions_max (sv_versions profile);
          key_len = (of_nat (length server_public_key) :: u16);
          extensions =
            be16 0x002b @ be16 2 @ be16 (protocol_version_code selected_version) @
            be16 0x0033 @ be16 (key_len + 4) @ be16 0x001d @ be16 key_len @ server_public_key
      in \<lparr>sh_version = Tls12, sh_random = salt, sh_session_id = ch_session_id ch,
          sh_cipher_suite = select_suite ch profile, sh_extensions = extensions\<rparr>)"

definition server_hello_body :: "server_hello \<Rightarrow> bytes" where
  "server_hello_body h =
     be16 (protocol_version_code (sh_version h)) @ sh_random h @
     [of_nat (length (sh_session_id h))] @ sh_session_id h @
     be16 (sh_cipher_suite h) @ [0x00] @
     (if sh_extensions h \<noteq> []
      then be16 (of_nat (length (sh_extensions h))) @ sh_extensions h
      else be16 0)"

definition server_hello_serialize :: "server_hello \<Rightarrow> bytes" where
  "server_hello_serialize h =
     [handshake_type_server_hello] @ drop 1 (be32 (of_nat (length (server_hello_body h)))) @ server_hello_body h"

definition make_server_hello :: "client_hello \<Rightarrow> bytes \<Rightarrow> bytes \<Rightarrow> server_profile \<Rightarrow> bytes" where
  "make_server_hello ch server_public_key salt profile =
     (let server_hello = from_client_hello ch server_public_key salt profile
      in tls_record_serialize
           (tls_record_new Handshake (sv_record_layer_version profile) (server_hello_serialize server_hello)))"

text \<open>The offset both the check and the parser compute; \<open>None\<close> when the length byte is missing.\<close>

definition server_hello_end :: "bytes \<Rightarrow> nat option" where
  "server_hello_end bs =
     (if length bs < 34 + 1 then None
      else
        let offset = 34 + (1 + unat (bs ! 34)) + 3
        in Some (if offset + 2 \<le> length bs
                 then offset + (2 + unat (from_be [bs ! offset, bs ! (offset + 1)] :: u16))
                 else offset))"

definition server_hello_can_parse :: "bytes \<Rightarrow> bool" where
  "server_hello_can_parse bs \<longleftrightarrow>
     (case server_hello_end bs of None \<Rightarrow> False | Some offset \<Rightarrow> offset \<le> length bs)"

text \<open>The message is cut off first; the reads then work on it alone.\<close>

definition server_hello_parse :: "bytes \<Rightarrow> (tls_error, server_hello option) result \<times> bytes" where
  "server_hello_parse bs =
     (case server_hello_end bs of
        None \<Rightarrow> (Ok None, bs)
      | Some offset \<Rightarrow>
          if length bs < offset then (Ok None, bs)
          else
            or_panic (split_to offset bs) bs (\<lambda>(msg, bs').
            or_panic (get_u16 msg) bs' (\<lambda>(raw_version, msg1).
              case map_err (\<lambda>e. tls_error_new (StageTls e) Drop []) (protocol_version_try_from raw_version) of
                Err e \<Rightarrow> (Err e, bs')
              | Panic \<Rightarrow> (Panic, bs')
              | Ok version \<Rightarrow>
            or_panic (split_to 32 msg1) bs' (\<lambda>(random, msg2).
            or_panic (get_u8 msg2) bs' (\<lambda>(sid_len, msg3).
            or_panic (split_to (unat sid_len) msg3) bs' (\<lambda>(session_id, msg4).
            or_panic (get_u16 msg4) bs' (\<lambda>(cipher_suite, msg5).
            or_panic (advance_cursor 1 msg5) bs' (\<lambda>msg6.
              let extensions =
                    (if 2 \<le> length msg6
                     then Option.bind (get_u16 msg6) (\<lambda>(ext_len, msg7). split_to (unat ext_len) msg7)
                     else Some ([], msg6))
              in or_panic extensions bs' (\<lambda>(exts, _).
                   (Ok (Some \<lparr>sh_version = version, sh_random = random, sh_session_id = session_id,
                              sh_cipher_suite = cipher_suite, sh_extensions = exts\<rparr>), bs'))))))))))"

section \<open>Layout of a client hello\<close>

definition ch_layout :: "u16 \<Rightarrow> bytes \<Rightarrow> bytes \<Rightarrow> bytes \<Rightarrow> bytes \<Rightarrow> bytes \<Rightarrow> bytes" where
  "ch_layout v random sid ciphers cmp tail =
     be16 v @ random @ [of_nat (length sid)] @ sid @ be16 (of_nat (length ciphers)) @ ciphers @
     [of_nat (length cmp)] @ cmp @ tail"

definition ch_fits :: "bytes \<Rightarrow> bytes \<Rightarrow> bytes \<Rightarrow> bytes \<Rightarrow> bytes \<Rightarrow> bool" where
  "ch_fits random sid ciphers cmp tail \<longleftrightarrow>
     length random = 32 \<and> length sid < 256 \<and> length ciphers < 65536 \<and> length cmp < 256 \<and>
     (length tail < 2 \<or> 2 + unat (from_be (take 2 tail) :: u16) \<le> length tail)"

text \<open>The extension bytes and what is left after them.\<close>

definition ch_tail :: "bytes \<Rightarrow> bytes \<times> bytes" where
  "ch_tail tail =
     (if length tail < 2 then ([], tail)
      else (take (unat (from_be (take 2 tail) :: u16)) (drop 2 tail),
            drop (unat (from_be (take 2 tail) :: u16)) (drop 2 tail)))"

lemma be16_cons: "\<exists>a b. be16 w = [a, b] \<and> (from_be [a, b] :: u16) = w"
  by (metis be16_def from_be_be16)

lemma take2_nth: "2 \<le> length xs \<Longrightarrow> take 2 xs = [xs ! 0, xs ! Suc 0]"
  by (cases xs; cases "tl xs") auto

definition tail_ok :: "bytes \<Rightarrow> bool" where
  "tail_ok reader =
     (if 2 \<le> length reader
      then \<not> length (drop 2 reader) < unat (from_be [reader ! 0, reader ! 1] :: u16) else True)"

lemma tail_ok_iff: "tail_ok tail \<longleftrightarrow> length tail < 2 \<or> 2 + unat (from_be (take 2 tail) :: u16) \<le> length tail"
  by (auto simp: tail_ok_def take2_nth)

lemma can_parse_front:
  "length head = 34 \<Longrightarrow> client_hello_can_parse (head @ sl # r) \<longleftrightarrow>
    \<not> length r < unat sl + 2 \<and>
    (let reader = drop (unat sl) r;
         ciphers_len = unat (from_be [reader ! 0, reader ! 1] :: u16);
         reader = drop 2 reader
     in \<not> length reader < ciphers_len + 1 \<and>
    (let reader = drop ciphers_len reader;
         comp_len = unat (reader ! 0);
         reader = drop 1 reader
     in \<not> length reader < comp_len \<and> tail_ok (drop comp_len reader)))"
proof -
  assume "length head = 34"
  then have "drop 34 (head @ sl # r) = sl # r" "\<not> length (head @ sl # r) < 35" "drop 1 (sl # r) = r"
    by simp_all
  moreover have "(if c then False else d) = (\<not> c \<and> d)" for c d
    by simp
  ultimately show ?thesis
    by (simp only: client_hello_can_parse_def tail_ok_def Let_def nth_Cons_0 if_False
        not_False_eq_True simp_thms)
qed

lemma can_parse_layout:
  assumes "length random = 32" "length sid < 256" "length ciphers < 65536" "length cmp < 256"
  shows "client_hello_can_parse (ch_layout v random sid ciphers cmp tail) \<longleftrightarrow> ch_fits random sid ciphers cmp tail"
proof -
  obtain a b where ab: "be16 (of_nat (length ciphers)) = [a, b]" "(from_be [a, b] :: u16) = of_nat (length ciphers)"
    using be16_cons by blast
  have layout: "ch_layout v random sid ciphers cmp tail =
      (be16 v @ random) @ of_nat (length sid) # sid @ [a, b] @ ciphers @ of_nat (length cmp) # cmp @ tail"
    by (simp add: ch_layout_def ab)
  show ?thesis
    unfolding layout using assms
    by (subst can_parse_front) (simp_all add: Let_def ab(2) ch_fits_def tail_ok_iff)
qed

lemma can_parse_split:
  assumes "client_hello_can_parse bs"
  obtains v random sid ciphers cmp tail where
    "bs = ch_layout v random sid ciphers cmp tail" "ch_fits random sid ciphers cmp tail"
proof -
  have split: "\<exists>a b. xs = a @ b \<and> length a = n" if "n \<le> length xs" for n and xs :: bytes
    using that by (metis append_take_drop_id length_take min.absorb2)
  have "35 \<le> length bs"
    using assms by (simp add: client_hello_can_parse_def split: if_splits)
  then obtain head r0 where head: "bs = head @ r0" "length head = 34"
    using split [of 34 bs] by auto
  then obtain sl r1 where "r0 = sl # r1"
    using \<open>35 \<le> length bs\<close> by (cases r0) auto
  with head have bs: "bs = head @ sl # r1" "length head = 34"
    by simp_all
  with assms have r1: "unat sl + 2 \<le> length r1"
    by (simp add: can_parse_front)
  obtain sid r2 where sid: "r1 = sid @ r2" "length sid = unat sl"
    using split [of "unat sl" r1] r1 by auto
  obtain a b r3 where r2: "r2 = a # b # r3"
    using r1 sid by (cases r2; cases "tl r2") auto
  define cl where "cl = (from_be [a, b] :: u16)"
  have r3: "unat cl + 1 \<le> length r3"
    using assms by (simp add: bs can_parse_front sid r2 cl_def Let_def)
  then obtain ciphers r3' where "r3 = ciphers @ r3'" "length ciphers = unat cl"
    using split [of "unat cl" r3] by auto
  with r3 obtain ml r4 where ciphers: "r3 = ciphers @ ml # r4" "length ciphers = unat cl"
    by (cases r3') auto
  have r4: "unat ml \<le> length r4"
    using assms by (simp add: bs can_parse_front sid r2 cl_def [symmetric] ciphers Let_def)
  obtain cmp tail where cmp: "r4 = cmp @ tail" "length cmp = unat ml"
    using split [OF r4] by auto
  have tail: "length tail < 2 \<or> 2 + unat (from_be (take 2 tail) :: u16) \<le> length tail"
    using assms by (simp add: bs can_parse_front sid r2 cl_def [symmetric] ciphers cmp tail_ok_iff Let_def)
  have "bs = ch_layout (from_be (take 2 head)) (drop 2 head) sid ciphers cmp tail"
    using bs(2) by (simp add: ch_layout_def bs(1) sid r2 ciphers cmp cl_def)
  moreover have "ch_fits (drop 2 head) sid ciphers cmp tail"
    using bs(2) tail by (simp add: ch_fits_def sid ciphers cmp)
  ultimately show thesis
    by (rule that)
qed

lemma get_u16_layout: "get_u16 (be16 w @ r) = Some (w, r)"
  by simp

lemma client_hello_parse_layout:
  assumes "ch_fits random sid ciphers cmp tail"
  shows "client_hello_parse (ch_layout v random sid ciphers cmp tail) =
    (case protocol_version_try_from v of
       Ok version \<Rightarrow>
         (case read_suites ciphers of
            None \<Rightarrow> (Panic, [of_nat (length cmp)] @ cmp @ tail)
          | Some suites \<Rightarrow>
              (Ok (Some \<lparr>ch_version = version, ch_random = random, ch_session_id = sid,
                         ch_cipher_suites = suites, ch_extensions = fst (ch_tail tail)\<rparr>), snd (ch_tail tail)))
     | Err e \<Rightarrow> (Err (tls_error_new (StageTls e) Drop []),
                  drop 2 (ch_layout v random sid ciphers cmp tail))
     | Panic \<Rightarrow> (Panic, []))"
proof -
  have can: "client_hello_can_parse (ch_layout v random sid ciphers cmp tail)"
    using assms by (simp add: can_parse_layout ch_fits_def)
  have len: "length random = 32" "length sid < 256" "length ciphers < 65536" "length cmp < 256"
    using assms by (simp_all add: ch_fits_def)
  have s32: "split_to 32 (random @ r) = Some (random, r)" for r
    using split_to_append [of random r] len(1) by simp
  have adv: "advance_cursor (length cmp) (cmp @ tail) = Some tail"
    by (simp add: advance_cursor_def)
  have exts: "(if 2 \<le> length tail then Option.bind (get_u16 tail) (\<lambda>(ext_len, bs9). split_to (unat ext_len) bs9)
        else Some ([], tail)) = Some (ch_tail tail)"
    using assms by (auto simp: ch_fits_def ch_tail_def get_u16_def split_to_def)
  show ?thesis
  proof (cases "protocol_version_try_from v")
    case (Ok version)
    then show ?thesis
      using can len
      by (simp add: client_hello_parse_def)
         (simp add: ch_layout_def s32 adv Let_def exts case_prod_beta split: option.split)
  next
    case (Err e)
    then show ?thesis
      using can by (simp add: client_hello_parse_def) (simp add: ch_layout_def)
  qed simp
qed

section \<open>Cipher lists and headers\<close>

lemma put_u16s_Cons: "put_u16s (w # ws) = be16 w @ put_u16s ws"
  by (simp add: put_u16s_def)

lemma read_suites_be16: "read_suites (be16 w @ rest) = map_option ((#) w) (read_suites rest)"
  using be16_cons [of w] by auto

lemma read_suites_put [simp]: "read_suites (put_u16s ws) = Some ws"
  by (induction ws) (simp_all add: put_u16s_Cons read_suites_be16 put_u16s_def)

lemma read_suites_None: "read_suites bs = None \<longleftrightarrow> odd (length bs)"
  by (induction bs rule: read_suites.induct) auto

lemma header_parse_hello:
  "header_parse ([hello_type_code t] @ drop 1 (be32 n) @ body) =
    (Ok (Some \<lparr>hh_type = t, hh_len = u24_from_u32 (from_be (drop 1 (be32 n)))\<rparr>), body)"
proof -
  obtain a b c where abc: "drop 1 (be32 n) = [a, b, c]"
    by (simp add: be32_def)
  have "header_can_parse (hello_type_code t # a # b # c # body)"
    by (cases t) (simp_all add: header_can_parse_def)
  then show ?thesis
    unfolding abc by (simp add: header_parse_def get_u24_bytes)
qed

lemma header_parse_not_panic: "fst (header_parse bs) \<noteq> Panic"
proof (cases "header_can_parse bs")
  case True
  then obtain b bs1 where bs: "bs = b # bs1" "3 \<le> length bs1"
    by (cases bs) (auto simp: header_can_parse_def split: if_splits)
  then obtain p where "get_u24 bs1 = Some p"
    using get_u24_None_iff [of bs1] by fastforce
  with True bs(1) show ?thesis
    by (simp add: header_parse_def case_prod_beta hello_type_try_from_def)
qed (simp add: header_parse_def)

section \<open>Client hello: round trip and panics\<close>

definition ch_wf :: "client_hello \<Rightarrow> bool" where
  "ch_wf h \<longleftrightarrow>
     ch_version h = Tls12 \<and> length (ch_random h) = 32 \<and> length (ch_session_id h) < 256 \<and>
     2 * length (ch_cipher_suites h) < 65536 \<and> length (ch_extensions h) < 65536"

lemma client_hello_body_layout:
  "client_hello_body h @ rest =
     ch_layout 0x0303 (ch_random h) (ch_session_id h) (put_u16s (ch_cipher_suites h)) [0]
       (be16 (of_nat (length (ch_extensions h))) @ ch_extensions h @ rest)"
  by (simp add: client_hello_body_def ch_layout_def mult.commute)

lemma client_hello_serialize_body:
  "client_hello_serialize h =
     [hello_type_code HelloClient] @ drop 1 (be32 (of_nat (length (client_hello_body h)))) @ client_hello_body h"
  by (simp add: client_hello_serialize_def handshake_type_client_hello_def)

lemma ch_tail_be16: "n < 65536 \<Longrightarrow> length e = n \<Longrightarrow> ch_tail (be16 (of_nat n) @ e @ rest) = (e, rest)"
  by (simp add: ch_tail_def)

lemma client_hello_parse_body:
  assumes "ch_wf h"
  shows "client_hello_parse (client_hello_body h @ rest) = (Ok (Some h), rest)"
proof -
  have "ch_fits (ch_random h) (ch_session_id h) (put_u16s (ch_cipher_suites h)) [0]
      (be16 (of_nat (length (ch_extensions h))) @ ch_extensions h @ rest)"
    using assms by (simp add: ch_fits_def ch_wf_def)
  moreover have "protocol_version_try_from 0x0303 = Ok Tls12"
    by (simp add: protocol_version_try_from_def)
  moreover have "ch_tail (be16 (of_nat (length (ch_extensions h))) @ ch_extensions h @ rest) = (ch_extensions h, rest)"
    using assms by (intro ch_tail_be16) (simp_all add: ch_wf_def)
  ultimately show ?thesis
    using assms by (simp add: client_hello_body_layout client_hello_parse_layout ch_wf_def)
qed

text \<open>The two-byte length of the cipher list, where the parser finds it.\<close>

definition ciphers_len_field :: "bytes \<Rightarrow> u16" where
  "ciphers_len_field bs =
     (let p = 35 + unat (bs ! 34) in from_be [bs ! p, bs ! (p + 1)])"

lemma ch_layout_fields:
  assumes "ch_fits random sid ciphers cmp tail"
  shows "unat (ciphers_len_field (ch_layout v random sid ciphers cmp tail)) = length ciphers"
    and "(from_be (take 2 (ch_layout v random sid ciphers cmp tail)) :: u16) = v"
proof -
  have len: "length random = 32" "length sid < 256" "length ciphers < 65536"
    using assms by (simp_all add: ch_fits_def)
  obtain a b where ab: "be16 (of_nat (length ciphers)) = [a, b]" "(from_be [a, b] :: u16) = of_nat (length ciphers)"
    using be16_cons by blast
  have layout: "ch_layout v random sid ciphers cmp tail =
      (be16 v @ random @ [of_nat (length sid)] @ sid) @ a # b # ciphers @ [of_nat (length cmp)] @ cmp @ tail"
    by (simp add: ch_layout_def ab(1))
  have "ch_layout v random sid ciphers cmp tail ! 34 = of_nat (length sid)"
    using len(1) by (simp add: ch_layout_def nth_append)
  moreover have "length (be16 v @ random @ [of_nat (length sid)] @ sid) = 35 + length sid"
    using len(1) by simp
  then have "ch_layout v random sid ciphers cmp tail ! (35 + length sid) = a"
    "ch_layout v random sid ciphers cmp tail ! (35 + length sid + 1) = b"
    unfolding layout by (metis nth_append_length, simp only: nth_append) simp
  ultimately show "unat (ciphers_len_field (ch_layout v random sid ciphers cmp tail)) = length ciphers"
    using len by (simp add: ciphers_len_field_def Let_def ab(2))
  show "(from_be (take 2 (ch_layout v random sid ciphers cmp tail)) :: u16) = v"
    by (simp add: ch_layout_def)
qed

lemma client_hello_parse_panic_iff:
  "fst (client_hello_parse bs) = Panic \<longleftrightarrow>
     client_hello_can_parse bs \<and> (\<exists>v. protocol_version_try_from (from_be (take 2 bs)) = Ok v) \<and>
     odd (unat (ciphers_len_field bs))"
proof (cases "client_hello_can_parse bs")
  case True
  then obtain v random sid ciphers cmp tail where bs: "bs = ch_layout v random sid ciphers cmp tail"
    "ch_fits random sid ciphers cmp tail"
    by (rule can_parse_split)
  show ?thesis
    using read_suites_None [of ciphers]
    by (cases "protocol_version_try_from v")
       (auto simp: bs(1) True [unfolded bs(1)] client_hello_parse_layout [OF bs(2)] ch_layout_fields [OF bs(2)]
         split: option.splits)
qed (simp add: client_hello_parse_def)

section \<open>Server hello: layout, round trip, no panics\<close>

definition sh_layout :: "u16 \<Rightarrow> bytes \<Rightarrow> bytes \<Rightarrow> u16 \<Rightarrow> u8 \<Rightarrow> bytes \<Rightarrow> bytes" where
  "sh_layout v random sid suite c tail =
     be16 v @ random @ [of_nat (length sid)] @ sid @ be16 suite @ [c] @ tail"

lemma sh_end_layout:
  assumes "length random = 32" "length sid < 256"
  shows "server_hello_end (sh_layout v random sid suite c tail) =
    Some (38 + length sid +
      (if 2 \<le> length tail then 2 + unat (from_be (take 2 tail) :: u16) else 0))"
proof -
  have "sh_layout v random sid suite c tail ! 34 = of_nat (length sid)"
    using assms(1) by (simp add: sh_layout_def nth_append)
  moreover have "sh_layout v random sid suite c tail ! (38 + length sid + i) = tail ! i" for i
    using assms(1) by (simp add: sh_layout_def nth_append)
  note this [of 0] this [of 1]
  moreover have "length (sh_layout v random sid suite c tail) = 38 + length sid + length tail"
    using assms(1) by (simp add: sh_layout_def)
  ultimately show ?thesis
    using assms(2) by (simp add: server_hello_end_def Let_def take2_nth)
qed

lemma server_hello_parse_layout:
  assumes "length random = 32" "length sid < 256" "length tail < 2 \<or> 2 + unat (from_be (take 2 tail) :: u16) \<le> length tail"
  shows "server_hello_parse (sh_layout v random sid suite c tail) =
    (case protocol_version_try_from v of
       Ok version \<Rightarrow>
         (Ok (Some \<lparr>sh_version = version, sh_random = random, sh_session_id = sid, sh_cipher_suite = suite,
                    sh_extensions = fst (ch_tail tail)\<rparr>), snd (ch_tail tail))
     | Err e \<Rightarrow> (Err (tls_error_new (StageTls e) Drop []), snd (ch_tail tail))
     | Panic \<Rightarrow> (Panic, []))"
proof -
  define n where "n = (if 2 \<le> length tail then 2 + unat (from_be (take 2 tail) :: u16) else 0)"
  have n: "n \<le> length tail" "drop n tail = snd (ch_tail tail)"
    using assms(3) by (auto simp: n_def ch_tail_def)
  have fin: "server_hello_end (sh_layout v random sid suite c tail) = Some (38 + length sid + n)"
    using sh_end_layout [OF assms(1,2)] by (simp add: n_def)
  have cut: "split_to (38 + length sid + n) (sh_layout v random sid suite c tail) =
      Some (sh_layout v random sid suite c (take n tail), snd (ch_tail tail))"
  proof -
    have "sh_layout v random sid suite c t = (be16 v @ random @ [of_nat (length sid)] @ sid @ be16 suite @ [c]) @ t" for t
      by (simp add: sh_layout_def)
    moreover have "length (be16 v @ random @ [of_nat (length sid)] @ sid @ be16 suite @ [c]) = 38 + length sid"
      using assms(1) by simp
    ultimately show ?thesis
      using n by (simp only: split_to_def take_append drop_append length_append) simp
  qed
  have s32: "split_to 32 (random @ r) = Some (random, r)" for r
    using split_to_append [of random r] assms(1) by simp
  have exts: "(if 2 \<le> length (take n tail)
        then Option.bind (get_u16 (take n tail)) (\<lambda>(ext_len, msg7). split_to (unat ext_len) msg7)
        else Some ([], take n tail)) = Some (fst (ch_tail tail), [])"
    using assms(3) by (auto simp: n_def ch_tail_def get_u16_def split_to_def min_def take_drop)
  have "length (sh_layout v random sid suite c tail) \<ge> 38 + length sid + n"
    using assms(1) n(1) by (simp add: sh_layout_def)
  then show ?thesis
    unfolding server_hello_parse_def fin option.case
    using assms(2)
    by (simp add: cut)
       (cases "protocol_version_try_from v";
        simp add: sh_layout_def s32 advance_cursor_def exts [simplified] Let_def)
qed

lemma sh_split:
  assumes "server_hello_end bs = Some n" "n \<le> length bs"
  obtains v random sid suite c tail where "bs = sh_layout v random sid suite c tail"
    "length random = 32" "length sid < 256"
    "length tail < 2 \<or> 2 + unat (from_be (take 2 tail) :: u16) \<le> length tail"
proof -
  have split: "\<exists>a b. xs = a @ b \<and> length a = k" if "k \<le> length xs" for k and xs :: bytes
    using that by (metis append_take_drop_id length_take min.absorb2)
  have len: "35 \<le> length bs" and fit: "38 + unat (bs ! 34) \<le> length bs"
    using assms by (auto simp: server_hello_end_def Let_def split: if_splits)
  obtain head r0 where head: "bs = head @ r0" "length head = 34"
    using split [of 34 bs] len by auto
  then obtain sl r1 where r0: "r0 = sl # r1"
    using len by (cases r0) auto
  have sl: "bs ! 34 = sl"
    using head by (simp add: r0 nth_append)
  have "unat sl + 3 \<le> length r1"
    using fit unfolding sl by (simp add: head r0)
  then obtain sid r2 where sid: "r1 = sid @ r2" "length sid = unat sl" "3 \<le> length r2"
    using split [of "unat sl" r1] by auto
  then obtain a b c tail where r2: "r2 = a # b # c # tail"
    by (cases r2; cases "tl r2"; cases "tl (tl r2)") auto
  have layout: "bs = sh_layout (from_be (take 2 head)) (drop 2 head) sid (from_be [a, b]) c tail"
    using head(2) by (simp add: sh_layout_def head(1) r0 sid r2)
  have small: "length (drop 2 head) = 32" "length sid < 256"
    using head(2) by (simp_all add: sid(2))
  have "length tail < 2 \<or> 2 + unat (from_be (take 2 tail) :: u16) \<le> length tail"
  proof (cases "2 \<le> length tail")
    case True
    then have "n = 38 + length sid + (2 + unat (from_be (take 2 tail) :: u16))"
      using sh_end_layout [OF small] assms(1) layout by auto
    moreover have "length bs = 38 + length sid + length tail"
      using head(2) by (simp add: head(1) r0 sid r2)
    ultimately show ?thesis
      using assms(2) by simp
  qed simp
  with layout small show thesis
    by (rule that)
qed

definition sh_wf :: "server_hello \<Rightarrow> bool" where
  "sh_wf h \<longleftrightarrow> length (sh_random h) = 32 \<and> length (sh_session_id h) < 256 \<and> length (sh_extensions h) < 65536"

lemma server_hello_body_layout:
  "server_hello_body h @ rest =
     sh_layout (protocol_version_code (sh_version h)) (sh_random h) (sh_session_id h) (sh_cipher_suite h) 0
       (be16 (of_nat (length (sh_extensions h))) @ sh_extensions h @ rest)"
  by (simp add: server_hello_body_def sh_layout_def)

lemma server_hello_serialize_body:
  "server_hello_serialize h =
     [hello_type_code HelloServer] @ drop 1 (be32 (of_nat (length (server_hello_body h)))) @ server_hello_body h"
  by (simp add: server_hello_serialize_def handshake_type_server_hello_def)

lemma server_hello_parse_body:
  assumes "sh_wf h"
  shows "server_hello_parse (server_hello_body h @ rest) = (Ok (Some h), rest)"
proof -
  have "ch_tail (be16 (of_nat (length (sh_extensions h))) @ sh_extensions h @ rest) = (sh_extensions h, rest)"
    using assms by (intro ch_tail_be16) (simp_all add: sh_wf_def)
  then show ?thesis
    unfolding server_hello_body_layout using assms
    by (subst server_hello_parse_layout) (simp_all add: sh_wf_def)
qed

section \<open>The length of the first record\<close>

lemma hello_tag_length: "hmac_32 P \<Longrightarrow> length (hello_tag_for P now k random) = 16"
  by (simp add: hello_tag_for_def generate_handshake_tag_def compute_handshake_tag_def
      generate_current_tag_def compute_tag_def hmac_32_def split: option.split)

lemma length_client_hello:
  "length (client_hello_serialize h) =
     13 + length (ch_random h) + length (ch_session_id h) + 2 * length (ch_cipher_suites h) + length (ch_extensions h)"
  by (simp add: client_hello_serialize_def client_hello_body_def)

lemma length_record: "length (tls_record_serialize (tls_record_new t v p)) = 5 + length p"
  by (simp add: tls_record_serialize_def tls_record_new_def record_header_def)

section \<open>Properties\<close>

text \<open>The header and then the parser read back exactly the
  client hello that was serialised, field by field, and leave the bytes after it.\<close>

theorem client_hello_roundtrip:
  assumes "ch_wf h"
  shows "case header_parse (client_hello_serialize h @ rest) of
     (Ok (Some hdr), body) \<Rightarrow> hh_type hdr = HelloClient \<and> client_hello_parse body = (Ok (Some h), rest)
   | _ \<Rightarrow> False"
  unfolding client_hello_serialize_body append_assoc header_parse_hello
  by (simp add: client_hello_parse_body [OF assms])

definition demo_hello :: client_hello where
  "demo_hello = \<lparr>ch_version = Tls12, ch_random = replicate 32 3, ch_session_id = replicate 32 4,
     ch_cipher_suites = [0x1301, 0xcaca], ch_extensions = [0, 0, 0, 0]\<rparr>"

lemma client_hello_roundtrip_witness:
  "case header_parse (client_hello_serialize demo_hello @ [9]) of
     (Ok (Some hdr), body) \<Rightarrow> hh_type hdr = HelloClient \<and> client_hello_parse body = (Ok (Some demo_hello), [9])
   | _ \<Rightarrow> False"
  by (rule client_hello_roundtrip) (simp add: ch_wf_def demo_hello_def)

text \<open>Property C23 (client_hello_panics): the parser of the first message of an unauthenticated client
  panics on exactly the complete hellos with a known version whose cipher list has an odd
  length; on every other input it returns.\<close>

theorem client_hello_panics:
  "fst (client_hello_parse bs) = Panic \<longleftrightarrow>
     client_hello_can_parse bs \<and> (\<exists>v. protocol_version_try_from (from_be (take 2 bs)) = Ok v) \<and>
     odd (unat (ciphers_len_field bs))"
  by (rule client_hello_parse_panic_iff)

text \<open>Property C33 (server_hello_outcome): on any bytes the server-hello parser does not panic; it
  waits with the bytes untouched, rejects the version with the action \<open>Drop\<close>, or returns a
  hello that, written out again, is the input up to the two bytes the parser skips over.\<close>

theorem server_hello_outcome:
  "case server_hello_parse bs of
     (Ok None, rest) \<Rightarrow> \<not> server_hello_can_parse bs \<and> rest = bs
   | (Ok (Some h), rest) \<Rightarrow>
       server_hello_can_parse bs \<and>
       (\<exists>c tail. bs = sh_layout (protocol_version_code (sh_version h)) (sh_random h) (sh_session_id h)
                        (sh_cipher_suite h) c tail \<and> ch_tail tail = (sh_extensions h, rest))
   | (Err e, rest) \<Rightarrow> err_action e = Drop
   | (Panic, rest) \<Rightarrow> False"
proof (cases "server_hello_can_parse bs")
  case True
  then obtain n where n: "server_hello_end bs = Some n" "n \<le> length bs"
    by (auto simp: server_hello_can_parse_def split: option.splits)
  obtain v random sid suite c tail where bs: "bs = sh_layout v random sid suite c tail"
    "length random = 32" "length sid < 256" "length tail < 2 \<or> 2 + unat (from_be (take 2 tail) :: u16) \<le> length tail"
    by (rule sh_split [OF n])
  show ?thesis
  proof (cases "protocol_version_try_from v")
    case (Ok version)
    then have "v = protocol_version_code version"
      by (rule protocol_version_try_from_Ok)
    with True Ok bs show ?thesis
      by (auto simp: server_hello_parse_layout [OF bs(2-4)] intro!: exI [of _ c] exI [of _ tail])
  next
    case (Err e)
    with bs show ?thesis
      by (simp add: server_hello_parse_layout [OF bs(2-4)] tls_error_new_def)
  qed simp
next
  case False
  then show ?thesis
    by (auto simp: server_hello_parse_def server_hello_can_parse_def split: option.splits)
qed

text \<open>When client and server share a cipher suite, the chosen one is
  offered by both, and no suite earlier in the list of the side whose order counts is; without
  a common suite the server answers with \<open>0x1301\<close>.\<close>

theorem suite_negotiated:
  assumes "mine = (if sv_honor_cipher_order profile then sv_cipher_suites profile else ch_cipher_suites ch)"
    and "theirs = (if sv_honor_cipher_order profile then ch_cipher_suites ch else sv_cipher_suites profile)"
  shows "if set mine \<inter> set theirs = {} then select_suite ch profile = 0x1301
    else \<exists>front back. mine = front @ select_suite ch profile # back \<and>
           select_suite ch profile \<in> set theirs \<and> set front \<inter> set theirs = {}"
proof -
  have sel: "select_suite ch profile =
      (case List.find (\<lambda>suite. suite \<in> set theirs) mine of Some suite \<Rightarrow> suite | None \<Rightarrow> 0x1301)"
    by (simp add: select_suite_def assms)
  show ?thesis
  proof (cases "List.find (\<lambda>suite. suite \<in> set theirs) mine")
    case None
    then have "set mine \<inter> set theirs = {}"
      by (auto simp: find_None_iff)
    with None show ?thesis
      by (simp add: sel)
  next
    case (Some suite)
    then obtain i where i: "i < length mine" "mine ! i = suite" "suite \<in> set theirs"
      "\<forall>j<i. mine ! j \<notin> set theirs"
      by (auto simp: find_Some_iff)
    have "mine = take i mine @ suite # drop (Suc i) mine"
      using i(1,2) id_take_nth_drop by blast
    moreover have "set (take i mine) \<inter> set theirs = {}"
      using i(1,4) by (auto simp: in_set_conv_nth)
    moreover have "set mine \<inter> set theirs \<noteq> {}"
      using i by (metis disjoint_iff nth_mem)
    ultimately show ?thesis
      using i(3) Some by (auto simp: sel)
  qed
qed

lemma suite_negotiated_witness:
  "if set [0x1301, 0x1302, 0x1303] \<inter> set [0xcaca, 0x1303, 0x1302 :: u16] = {}
   then select_suite (demo_hello\<lparr>ch_cipher_suites := [0xcaca, 0x1303, 0x1302]\<rparr>) server_modern = 0x1301
   else \<exists>front back. [0x1301, 0x1302, 0x1303] =
          front @ select_suite (demo_hello\<lparr>ch_cipher_suites := [0xcaca, 0x1303, 0x1302]\<rparr>) server_modern # back \<and>
          select_suite (demo_hello\<lparr>ch_cipher_suites := [0xcaca, 0x1303, 0x1302]\<rparr>) server_modern
            \<in> set [0xcaca, 0x1303, 0x1302] \<and>
          set front \<inter> set [0xcaca, 0x1303, 0x1302] = {}"
  by (rule suite_negotiated) (simp_all add: server_modern_def)

text \<open>Property C26 (chromium_hello_size): whatever the draws, the order and the host (of at most 253 bytes),
  the first record of a client with one of the padded Chromium profiles is 517 bytes long on
  the wire: the five bytes of the record header and 512 of the hello.\<close>

theorem chromium_hello_size:
  assumes "padded_profile profile" and "hmac_32 P" and "length (keys_local_salt k) = 32"
    and "length (public_key_bytes k) = 32" and "length host \<le> 253"
  shows "\<exists>wire r'. make_client_hello P now profile host k r = Some (wire, r') \<and> length wire = 517"
proof -
  define rnd where "rnd = fst (fill_bytes 15 r)"
  define g where "g = fst (grease_random (snd (fill_bytes 15 r)))"
  define r2 where "r2 = snd (grease_random (snd (fill_bytes 15 r)))"
  obtain b r' where b: "apply_profile profile host (public_key_bytes k) 85 (builder_with_grease g) r2 = Some (b, r')"
    "length (eb_payload b) + 85 = 512"
    by (rule padded_block_length [OF assms(1,4), of host 85 g r2]) (use assms(5) in simp)
  note lists = padded_lists [OF assms(1)]
  have [simp]: "length rnd = 15"
    by (simp add: rnd_def)
  have suites: "length ((if bp_has_grease profile then [gs_cipher g] else []) @ bp_cipher_suites profile) = 4"
    using lists by simp
  show ?thesis
    unfolding make_client_hello_def Let_def case_prod_beta builder_build_def
      rnd_def [symmetric] g_def [symmetric] r2_def [symmetric] suites
    using b assms(3) suites by (simp add: length_record length_client_hello hello_tag_length [OF assms(2)])
qed

lemma chromium_hello_size_witness:
  "\<exists>wire r'. make_client_hello toy_crypto 0 edge_130 (ascii ''example.com'') demo_client_keys (\<lambda>i. 1) = Some (wire, r') \<and>
     length wire = 517"
  by (rule chromium_hello_size [OF _ toy_crypto_laws(4)]) (code_simp | simp add: padded_profile_def ascii_def)+

end
