(* ===== verification/Frame.thy ===== *)
theory Frame
  imports Stream
begin

text \<open>
  The NRXP frame of \<open>engine/src/nrxp/frame.rs\<close>: frame types, the 25-byte header,
  serialisation (\<open>Frame::into_bytes\<close>) and the two parsers (\<open>FrameHeader\<close>, \<open>Frame\<close>).
  The lemmas show that parsing inverts serialisation in both directions, that a strict
  prefix of a frame is never misread, which inputs are errors, and that both parsers satisfy
  the parser contract of \<open>Stream\<close>.
\<close>

section \<open>Frame types and headers\<close>

datatype frame_type =
    Connect | Data | Close | Heartbeat | UdpConnect | UdpData | Diag | Credit | Cover

fun frame_type_code :: "frame_type \<Rightarrow> u8" where
  "frame_type_code Connect = 0x00"
| "frame_type_code Data = 0x01"
| "frame_type_code Close = 0x02"
| "frame_type_code Heartbeat = 0x03"
| "frame_type_code UdpConnect = 0x04"
| "frame_type_code UdpData = 0x05"
| "frame_type_code Diag = 0x06"
| "frame_type_code Credit = 0x07"
| "frame_type_code Cover = 0x08"

text \<open>The \<open>match header_slice[20]\<close> of the header parser.\<close>

definition frame_type_of_byte :: "u8 \<Rightarrow> frame_type option" where
  "frame_type_of_byte b =
     (if b = 0x00 then Some Connect
      else if b = 0x01 then Some Data
      else if b = 0x02 then Some Close
      else if b = 0x03 then Some Heartbeat
      else if b = 0x04 then Some UdpConnect
      else if b = 0x05 then Some UdpData
      else if b = 0x06 then Some Diag
      else if b = 0x07 then Some Credit
      else if b = 0x08 then Some Cover
      else None)"

record frame_header =
  fh_auth_tag :: bytes
  fh_stream_id :: u32
  fh_payload_len :: u16
  fh_padding_len :: u16
  fh_frame_type :: frame_type

record frame =
  fr_payload :: bytes
  fr_header :: frame_header

datatype frame_error = UnknownFrameType u8

definition frame_header_size :: nat where
  "frame_header_size = 16 + 4 + 1 + 2 + 2"

definition max_record_plaintext :: nat where
  "max_record_plaintext = 2 ^ 14 + 1"

definition max_frame_payload :: nat where
  "max_frame_payload = max_record_plaintext - frame_header_size"

lemma frame_sizes [simp]:
  "frame_header_size = 25" "max_record_plaintext = 16385" "max_frame_payload = 16360"
  by (simp_all add: frame_header_size_def max_record_plaintext_def max_frame_payload_def)

lemma frame_type_of_code [simp]: "frame_type_of_byte (frame_type_code t) = Some t"
  by (cases t) (simp_all add: frame_type_of_byte_def)

lemma frame_type_of_byte_Some: "frame_type_of_byte b = Some t \<Longrightarrow> b = frame_type_code t"
  by (auto simp: frame_type_of_byte_def split: if_splits)

lemma frame_type_of_byte_None: "frame_type_of_byte b = None \<longleftrightarrow> 8 < b"
proof
  assume none: "frame_type_of_byte b = None"
  show "8 < b"
  proof (rule ccontr)
    assume "\<not> 8 < b"
    then have "unat b \<in> set [0..<9]"
      by (simp add: word_less_nat_alt)
    moreover have "b = of_nat (unat b)"
      by simp
    ultimately have "b \<in> of_nat ` set [0..<9]"
      by (metis imageI)
    then have "b \<in> {0, 1, 2, 3, 4, 5, 6, 7, 8}"
      by (simp add: upt_rec)
    with none show False
      by (auto simp: frame_type_of_byte_def)
  qed
next
  assume "8 < b"
  then show "frame_type_of_byte b = None"
    by (auto simp: frame_type_of_byte_def word_less_nat_alt)
qed

section \<open>Serialisation\<close>

text \<open>\<open>payload.len() as u16\<close> keeps the low sixteen bits of the length.\<close>

definition frame_new :: "u32 \<Rightarrow> frame_type \<Rightarrow> bytes \<Rightarrow> frame" where
  "frame_new sid ft payload =
     \<lparr>fr_payload = payload,
      fr_header = \<lparr>fh_auth_tag = replicate 16 0, fh_stream_id = sid,
                   fh_payload_len = of_nat (length payload), fh_padding_len = 0,
                   fh_frame_type = ft\<rparr>\<rparr>"

definition wire_len :: "nat \<Rightarrow> u16 \<Rightarrow> nat" where
  "wire_len payload_len padding_len = frame_header_size + payload_len + unat padding_len"

definition header_bytes :: "frame_header \<Rightarrow> bytes" where
  "header_bytes h =
     fh_auth_tag h @ be32 (fh_stream_id h) @ [frame_type_code (fh_frame_type h)] @
     be16 (fh_payload_len h) @ be16 (fh_padding_len h)"

definition frame_into_bytes :: "frame \<Rightarrow> bytes \<Rightarrow> u16 \<Rightarrow> rng \<Rightarrow> bytes \<times> rng" where
  "frame_into_bytes f auth_key padding_len r =
     (let h = (fr_header f)\<lparr>fh_padding_len := padding_len, fh_auth_tag := auth_key\<rparr>;
          buf = header_bytes h @ fr_payload f
      in if 0 < padding_len
         then (let (pad, r') = fill_bytes (unat padding_len) r in (buf @ pad, r'))
         else (buf, r))"

section \<open>Parsing\<close>

definition frame_header_can_parse :: "bytes \<Rightarrow> bool" where
  "frame_header_can_parse bs \<longleftrightarrow> frame_header_size \<le> length bs"

definition frame_header_parse :: "bytes \<Rightarrow> (frame_error, frame_header option) result \<times> bytes" where
  "frame_header_parse bs =
     (if \<not> frame_header_can_parse bs then (Ok None, bs)
      else
        let s = take frame_header_size bs
        in case frame_type_of_byte (s ! 20) of
             None \<Rightarrow> (Err (UnknownFrameType (s ! 20)), bs)
           | Some ft \<Rightarrow>
               (Ok (Some \<lparr>fh_auth_tag = take 16 s,
                          fh_stream_id = from_be (take 4 (drop 16 s)),
                          fh_payload_len = from_be (take 2 (drop 21 s)),
                          fh_padding_len = from_be (take 2 (drop 23 s)),
                          fh_frame_type = ft\<rparr>),
                drop frame_header_size bs))"

definition frame_can_parse :: "bytes \<Rightarrow> bool" where
  "frame_can_parse bs \<longleftrightarrow>
     (if length bs < frame_header_size then False
      else let p_len = unat (from_be [bs ! 21, bs ! 22] :: u16);
               pad_len = unat (from_be [bs ! 23, bs ! 24] :: u16)
           in frame_header_size + p_len + pad_len \<le> length bs)"

definition frame_parse :: "bytes \<Rightarrow> (frame_error, frame option) result \<times> bytes" where
  "frame_parse bs =
     (if \<not> frame_can_parse bs then (Ok None, bs)
      else
        case frame_header_parse bs of
          (Err e, bs1) \<Rightarrow> (Err e, bs1)
        | (Panic, bs1) \<Rightarrow> (Panic, bs1)
        | (Ok None, bs1) \<Rightarrow> (Panic, bs1)
        | (Ok (Some h), bs1) \<Rightarrow>
            (case split_to (unat (fh_payload_len h)) bs1 of
               None \<Rightarrow> (Panic, bs1)
             | Some (payload, bs2) \<Rightarrow>
                 (case advance_cursor (unat (fh_padding_len h)) bs2 of
                    None \<Rightarrow> (Panic, bs2)
                  | Some bs3 \<Rightarrow> (Ok (Some \<lparr>fr_payload = payload, fr_header = h\<rparr>), bs3))))"

section \<open>Layout lemmas\<close>

lemma length_header_bytes [wire_simps]:
  "length (header_bytes h) = 9 + length (fh_auth_tag h)"
  by (simp add: header_bytes_def)

lemma take_25_split:
  assumes "25 \<le> length bs"
  shows "take 25 bs =
    take 16 bs @ take 4 (drop 16 bs) @ [bs ! 20] @ take 2 (drop 21 bs) @ take 2 (drop 23 bs)"
proof -
  have "take 25 bs = take (16 + (4 + (1 + (2 + 2)))) bs"
    by simp
  also have "\<dots> = take 16 bs @ take 4 (drop 16 bs) @ take 1 (drop 20 bs) @
      take 2 (drop 21 bs) @ take 2 (drop 23 bs)"
    by (simp only: take_add drop_drop) simp
  also have "take 1 (drop 20 bs) = [bs ! 20]"
    using assms by (simp add: take_Suc_conv_app_nth [of 0] hd_drop_conv_nth)
  finally show ?thesis .
qed

lemma frame_header_parse_bytes:
  assumes "length (fh_auth_tag h) = 16"
  shows "frame_header_parse (header_bytes h @ rest) = (Ok (Some h), rest)"
proof -
  define a b c d where "a = fh_auth_tag h" and "b = be32 (fh_stream_id h)"
    and "c = be16 (fh_payload_len h)" and "d = be16 (fh_padding_len h)"
  have len: "length a = 16" "length b = 4" "length c = 2" "length d = 2"
    using assms by (simp_all add: a_def b_def c_def d_def)
  have "header_bytes h = a @ b @ [frame_type_code (fh_frame_type h)] @ c @ d"
    by (simp add: header_bytes_def a_def b_def c_def d_def)
  with len show ?thesis
    by (simp add: frame_header_parse_def frame_header_can_parse_def nth_append Let_def)
       (simp add: a_def b_def c_def d_def)
qed

lemma frame_header_parse_iff:
  "frame_header_parse bs = (Ok (Some h), rest) \<longleftrightarrow>
     bs = header_bytes h @ rest \<and> length (fh_auth_tag h) = 16"
proof
  assume P: "frame_header_parse bs = (Ok (Some h), rest)"
  then have len: "25 \<le> length bs"
    by (auto simp: frame_header_parse_def frame_header_can_parse_def split: if_splits)
  from P len obtain ft where ft: "frame_type_of_byte (bs ! 20) = Some ft"
    and h: "h = \<lparr>fh_auth_tag = take 16 bs, fh_stream_id = from_be (take 4 (drop 16 bs)),
                 fh_payload_len = from_be (take 2 (drop 21 bs)),
                 fh_padding_len = from_be (take 2 (drop 23 bs)), fh_frame_type = ft\<rparr>"
    and rest: "rest = drop 25 bs"
    by (auto simp: frame_header_parse_def frame_header_can_parse_def Let_def drop_take
        split: if_splits option.splits)
  have "header_bytes h = take 25 bs"
    using len frame_type_of_byte_Some [OF ft] by (simp add: header_bytes_def h take_25_split)
  with len h rest show "bs = header_bytes h @ rest \<and> length (fh_auth_tag h) = 16"
    by simp
qed (simp add: frame_header_parse_bytes)

lemma frame_header_parse_cases:
  assumes "frame_header_can_parse bs"
  obtains (parsed) h rest where "frame_header_parse bs = (Ok (Some h), rest)"
  | (unknown) "8 < bs ! 20" "frame_header_parse bs = (Err (UnknownFrameType (bs ! 20)), bs)"
  using assms frame_type_of_byte_None [of "bs ! 20"]
  by (cases "frame_type_of_byte (bs ! 20)")
     (auto simp: frame_header_parse_def frame_header_can_parse_def Let_def)

lemma frame_can_parse_header:
  "frame_can_parse bs \<longleftrightarrow> frame_header_size \<le> length bs \<and>
     25 + unat (from_be (take 2 (drop 21 bs)) :: u16) + unat (from_be (take 2 (drop 23 bs)) :: u16)
       \<le> length bs"
proof (cases "25 \<le> length bs")
  case True
  then have "take 2 (drop 21 bs) = [bs ! 21, bs ! 22]" "take 2 (drop 23 bs) = [bs ! 23, bs ! 24]"
    by (simp_all add: take_Suc_conv_app_nth numeral_2_eq_2)
  with True show ?thesis
    by (simp add: frame_can_parse_def Let_def)
qed (simp add: frame_can_parse_def)

lemma frame_can_parse_bytes:
  assumes "length (fh_auth_tag h) = 16"
  shows "frame_can_parse (header_bytes h @ rest) \<longleftrightarrow>
    unat (fh_payload_len h) + unat (fh_padding_len h) \<le> length rest"
proof -
  define a b c d where "a = fh_auth_tag h" and "b = be32 (fh_stream_id h)"
    and "c = be16 (fh_payload_len h)" and "d = be16 (fh_padding_len h)"
  have len: "length a = 16" "length b = 4" "length c = 2" "length d = 2"
    using assms by (simp_all add: a_def b_def c_def d_def)
  have hb: "header_bytes h = a @ b @ [frame_type_code (fh_frame_type h)] @ c @ d"
    by (simp add: header_bytes_def a_def b_def c_def d_def)
  show ?thesis
    unfolding frame_can_parse_header hb using len
    by simp (simp add: c_def d_def add.assoc)
qed

lemma frame_parse_bytes:
  assumes "length (fh_auth_tag h) = 16"
    and "unat (fh_payload_len h) + unat (fh_padding_len h) \<le> length bs1"
  shows "frame_parse (header_bytes h @ bs1) =
    (Ok (Some \<lparr>fr_payload = take (unat (fh_payload_len h)) bs1, fr_header = h\<rparr>),
     drop (unat (fh_payload_len h) + unat (fh_padding_len h)) bs1)"
proof -
  have "frame_can_parse (header_bytes h @ bs1)"
    using assms by (simp add: frame_can_parse_bytes)
  moreover have "unat (fh_payload_len h) \<le> length bs1"
      "unat (fh_padding_len h) \<le> length bs1 - unat (fh_payload_len h)"
    using assms(2) by simp_all
  ultimately show ?thesis
    using assms(1)
    by (simp add: frame_parse_def frame_header_parse_bytes split_to_def advance_cursor_def add.commute)
qed

text \<open>
  The central lemma: a frame is parsed exactly from its header, a payload and a padding of
  the announced lengths, and the parser stops right after the padding.
\<close>

lemma frame_parse_header:
  assumes "frame_parse bs = (Ok (Some f), rest)"
  obtains bs1 where "bs = header_bytes (fr_header f) @ bs1"
    "length (fh_auth_tag (fr_header f)) = 16"
    "unat (fh_payload_len (fr_header f)) + unat (fh_padding_len (fr_header f)) \<le> length bs1"
proof -
  from assms have can: "frame_can_parse bs"
    by (auto simp: frame_parse_def split: if_splits)
  from assms can obtain bs1 where h: "frame_header_parse bs = (Ok (Some (fr_header f)), bs1)"
    by (auto simp: frame_parse_def split: prod.splits result.splits option.splits)
  then have "bs = header_bytes (fr_header f) @ bs1" "length (fh_auth_tag (fr_header f)) = 16"
    by (auto simp: frame_header_parse_iff)
  moreover from this can
  have "unat (fh_payload_len (fr_header f)) + unat (fh_padding_len (fr_header f)) \<le> length bs1"
    by (simp add: frame_can_parse_bytes)
  ultimately show thesis
    by (rule that)
qed

lemma frame_parse_iff:
  "frame_parse bs = (Ok (Some f), rest) \<longleftrightarrow>
     (\<exists>pad. bs = header_bytes (fr_header f) @ fr_payload f @ pad @ rest \<and>
        length (fh_auth_tag (fr_header f)) = 16 \<and>
        length (fr_payload f) = unat (fh_payload_len (fr_header f)) \<and>
        length pad = unat (fh_padding_len (fr_header f)))"
  (is "?L \<longleftrightarrow> ?R")
proof
  assume L: ?L
  let ?p = "unat (fh_payload_len (fr_header f))" and ?q = "unat (fh_padding_len (fr_header f))"
  from L obtain bs1 where bs: "bs = header_bytes (fr_header f) @ bs1"
    and tag: "length (fh_auth_tag (fr_header f)) = 16" and len: "?p + ?q \<le> length bs1"
    by (rule frame_parse_header)
  from L have f: "fr_payload f = take ?p bs1" "rest = drop (?p + ?q) bs1"
    unfolding bs frame_parse_bytes [OF tag len] by (cases f, simp)+
  have "bs = header_bytes (fr_header f) @ fr_payload f @ take ?q (drop ?p bs1) @ rest"
    unfolding bs f by (simp only: take_drop_split3)
  moreover have "length (fr_payload f) = ?p" "length (take ?q (drop ?p bs1)) = ?q"
    using f(1) len by simp_all
  ultimately show ?R
    using tag by blast
next
  assume ?R
  then obtain pad where bs: "bs = header_bytes (fr_header f) @ fr_payload f @ pad @ rest"
    and len: "length (fh_auth_tag (fr_header f)) = 16"
      "length (fr_payload f) = unat (fh_payload_len (fr_header f))"
      "length pad = unat (fh_padding_len (fr_header f))"
    by blast
  have fit: "unat (fh_payload_len (fr_header f)) + unat (fh_padding_len (fr_header f))
      \<le> length (fr_payload f @ pad @ rest)"
    using len by simp
  show ?L
    unfolding bs frame_parse_bytes [OF len(1) fit] using len(2,3) by simp
qed

lemma frame_parse_cases:
  assumes "frame_can_parse bs"
  obtains (parsed) f rest where "frame_parse bs = (Ok (Some f), rest)"
  | (unknown) "8 < bs ! 20" "frame_parse bs = (Err (UnknownFrameType (bs ! 20)), bs)"
proof -
  have "frame_header_can_parse bs"
    using assms by (simp add: frame_can_parse_def frame_header_can_parse_def split: if_splits)
  then show thesis
  proof (cases rule: frame_header_parse_cases)
    case (parsed h bs1)
    then have bs: "bs = header_bytes h @ bs1" and tag: "length (fh_auth_tag h) = 16"
      by (auto simp: frame_header_parse_iff)
    with assms have "unat (fh_payload_len h) + unat (fh_padding_len h) \<le> length bs1"
      by (simp add: frame_can_parse_bytes)
    from frame_parse_bytes [OF tag this] that(1) show thesis
      unfolding bs by blast
  next
    case unknown
    with assms that(2) show thesis
      by (simp add: frame_parse_def)
  qed
qed

lemma frame_parse_early: "\<not> frame_can_parse bs \<Longrightarrow> frame_parse bs = (Ok None, bs)"
  by (simp add: frame_parse_def)

section \<open>The parser contract\<close>

lemma frame_parse_err_iff:
  "frame_parse bs = (Err e, bs') \<longleftrightarrow>
     frame_can_parse bs \<and> 8 < bs ! 20 \<and> e = UnknownFrameType (bs ! 20) \<and> bs' = bs"
proof (cases "frame_can_parse bs")
  case True
  then show ?thesis
  proof (cases rule: frame_parse_cases)
    case (parsed f rest)
    then obtain bs1 where "bs = header_bytes (fr_header f) @ bs1"
        "length (fh_auth_tag (fr_header f)) = 16"
      by (rule frame_parse_header)
    then have "bs ! 20 = frame_type_code (fh_frame_type (fr_header f))"
      by (simp add: header_bytes_def nth_append)
    then have "\<not> 8 < bs ! 20"
      using frame_type_of_byte_None [of "bs ! 20"] by simp
    with parsed show ?thesis by simp
  next
    case unknown
    with True show ?thesis by auto
  qed
qed (simp add: frame_parse_early)

lemma frame_header_parse_local:
  assumes "frame_header_can_parse bs" "frame_header_parse bs = (r, bs')"
  shows "frame_header_parse (bs @ extra) = (r, bs' @ extra)"
  using assms by (auto simp: frame_header_parse_def frame_header_can_parse_def Let_def
      split: option.splits)

lemma frame_can_parse_append: "frame_can_parse bs \<Longrightarrow> frame_can_parse (bs @ extra)"
  by (auto simp: frame_can_parse_header)

lemma frame_parse_local:
  assumes "frame_can_parse bs" "frame_parse bs = (r, bs')"
  shows "frame_parse (bs @ extra) = (r, bs' @ extra)"
  using assms(1)
proof (cases rule: frame_parse_cases)
  case (parsed f rest)
  then have "frame_parse (bs @ extra) = (Ok (Some f), rest @ extra)"
    by (auto simp: frame_parse_iff)
  with parsed assms(2) show ?thesis by simp
next
  case unknown
  have "20 < length bs"
    using assms(1) by (simp add: frame_can_parse_header)
  then have "(bs @ extra) ! 20 = bs ! 20"
    by (simp add: nth_append)
  then have "frame_parse (bs @ extra) = (Err (UnknownFrameType (bs ! 20)), bs @ extra)"
    using unknown frame_can_parse_append [OF assms(1)] by (simp add: frame_parse_err_iff)
  with unknown assms(2) show ?thesis by simp
qed

interpretation header_parser: incremental_parser frame_header_can_parse frame_header_parse
proof
  fix bs h bs'
  assume "frame_header_parse bs = (Ok (Some h), bs')"
  then show "length bs' < length bs"
    by (simp add: frame_header_parse_iff length_header_bytes)
next
  fix bs
  assume "frame_header_can_parse bs"
  then show "fst (frame_header_parse bs) \<noteq> Ok None"
    by (cases rule: frame_header_parse_cases) auto
qed (auto simp: frame_header_parse_local, simp add: frame_header_parse_def)

interpretation frame_parser: incremental_parser frame_can_parse frame_parse
proof
  fix bs f bs'
  assume "frame_parse bs = (Ok (Some f), bs')"
  then show "length bs' < length bs"
    by (auto simp: frame_parse_iff length_header_bytes)
next
  fix bs
  assume "frame_can_parse bs"
  then show "fst (frame_parse bs) \<noteq> Ok None"
    by (cases rule: frame_parse_cases) auto
qed (auto simp: frame_parse_early frame_parse_local)

section \<open>Frames on the wire\<close>

text \<open>The header as \<open>into_bytes\<close> writes it for a frame made by \<open>Frame::new\<close>.\<close>

definition sent_header :: "u32 \<Rightarrow> frame_type \<Rightarrow> nat \<Rightarrow> bytes \<Rightarrow> u16 \<Rightarrow> frame_header" where
  "sent_header sid ft n key pad =
     \<lparr>fh_auth_tag = key, fh_stream_id = sid, fh_payload_len = of_nat n,
      fh_padding_len = pad, fh_frame_type = ft\<rparr>"

lemma frame_into_bytes_layout:
  obtains padding where "length padding = unat pad"
    "fst (frame_into_bytes (frame_new sid ft payload) key pad r) =
       header_bytes (sent_header sid ft (length payload) key pad) @ payload @ padding"
proof (cases "0 < pad")
  case True
  then show thesis
    using that [of "fst (fill_bytes (unat pad) r)"]
    by (simp add: frame_into_bytes_def frame_new_def sent_header_def split_beta Let_def)
next
  case False
  then have "pad = 0"
    by (simp add: word_neq_0_conv [symmetric] del: word_neq_0_conv)
  then show thesis
    using that [of "[]"] by (simp add: frame_into_bytes_def frame_new_def sent_header_def Let_def)
qed

lemma length_frame_into_bytes:
  assumes "length key = 16"
  shows "length (fst (frame_into_bytes (frame_new sid ft payload) key pad r)) =
    wire_len (length payload) pad"
  by (rule frame_into_bytes_layout [of pad sid ft payload key r])
     (use assms in \<open>simp add: wire_len_def length_header_bytes sent_header_def\<close>)

text \<open>Property C19 (frame_roundtrip): whatever padding is asked for and whatever follows on the
  wire, parsing a serialised frame returns its stream id, type, payload and tag and consumes
  exactly the frame, padding included.\<close>

theorem frame_roundtrip:
  assumes "length key = 16" and "length payload < 65536"
  shows "frame_parse (fst (frame_into_bytes (frame_new sid ft payload) key pad r) @ rest) =
    (Ok (Some \<lparr>fr_payload = payload, fr_header = sent_header sid ft (length payload) key pad\<rparr>), rest)"
  by (rule frame_into_bytes_layout [of pad sid ft payload key r])
     (use assms in \<open>auto simp: frame_parse_iff sent_header_def\<close>)

lemma frame_roundtrip_witness:
  "frame_parse (fst (frame_into_bytes (frame_new 7 Data [1, 2, 3]) (replicate 16 66) 2 (\<lambda>_. 9)) @ [5]) =
    (Ok (Some \<lparr>fr_payload = [1, 2, 3],
               fr_header = sent_header 7 Data (length [1, 2, 3 :: u8]) (replicate 16 66) 2\<rparr>), [5])"
  by (rule frame_roundtrip) simp_all

text \<open>Every strict prefix of a serialised frame makes the
  parser ask for more bytes and leaves the buffer as it was.\<close>

theorem frame_prefix_waits:
  assumes "length key = 16" and "length payload < 65536"
    and "n < wire_len (length payload) pad"
    and "wire = fst (frame_into_bytes (frame_new sid ft payload) key pad r)"
  shows "frame_parse (take n wire) = (Ok None, take n wire)"
proof (rule frame_parser.strict_prefix_waits)
  obtain padding where "length padding = unat pad"
      "wire = header_bytes (sent_header sid ft (length payload) key pad) @ payload @ padding"
    using frame_into_bytes_layout assms(4) by metis
  with assms(1,2) show "frame_parse wire =
      (Ok (Some \<lparr>fr_payload = payload, fr_header = sent_header sid ft (length payload) key pad\<rparr>), [])"
    by (auto simp: frame_parse_iff sent_header_def)
  show "n < length wire"
    using assms by (simp add: length_frame_into_bytes)
qed

lemma frame_prefix_waits_witness:
  "frame_parse (take 26 (fst (frame_into_bytes (frame_new 1 Close [8, 9]) (replicate 16 3) 1 (\<lambda>_. 0)))) =
    (Ok None, take 26 (fst (frame_into_bytes (frame_new 1 Close [8, 9]) (replicate 16 3) 1 (\<lambda>_. 0))))"
  by (rule frame_prefix_waits [OF _ _ _ refl]) (simp_all add: wire_len_def)

text \<open>A parsed frame, written back with its own tag and
  padding length and the padding bytes that were on the wire, is byte for byte what was
  consumed; the parser accepts nothing else.\<close>

theorem frame_parse_reserialise:
  assumes "frame_parse bs = (Ok (Some f), rest)"
  shows "\<exists>r. bs = fst (frame_into_bytes f (fh_auth_tag (fr_header f))
                      (fh_padding_len (fr_header f)) r) @ rest"
proof -
  let ?h = "fr_header f"
  from assms obtain pad where bs: "bs = header_bytes ?h @ fr_payload f @ pad @ rest"
    and pad: "length pad = unat (fh_padding_len ?h)"
    by (auto simp: frame_parse_iff)
  have "map (\<lambda>i. pad ! i) [0..<length pad] = pad"
    by (rule map_nth)
  moreover have "fh_padding_len ?h = 0 \<Longrightarrow> pad = []"
    using pad by simp
  ultimately have "bs = fst (frame_into_bytes f (fh_auth_tag ?h) (fh_padding_len ?h) (\<lambda>i. pad ! i)) @ rest"
    using pad by (auto simp: bs frame_into_bytes_def fill_bytes_def Let_def word_neq_0_conv [symmetric]
        simp del: word_neq_0_conv)
  then show ?thesis
    by blast
qed

lemma frame_parse_reserialise_witness:
  "\<exists>r. replicate 20 1 @ [3, 0, 1, 0, 2, 7, 8, 9, 4] =
     fst (frame_into_bytes \<lparr>fr_payload = [7], fr_header = sent_header 0x01010101 Heartbeat 1 (replicate 16 1) 2\<rparr>
            (replicate 16 1) 2 r) @ [4]"
proof -
  have "frame_parse (replicate 20 1 @ [3, 0, 1, 0, 2, 7, 8, 9, 4]) =
      (Ok (Some \<lparr>fr_payload = [7], fr_header = sent_header 0x01010101 Heartbeat 1 (replicate 16 1) 2\<rparr>), [4])"
    by code_simp
  from frame_parse_reserialise [OF this] show ?thesis
    by (simp add: sent_header_def)
qed

text \<open>Property C30 (frame_parse_outcome): on any input the parser waits (buffer untouched);
  or returns a frame whose header, payload and padding, laid out again, are byte for byte what
  it consumed, with payload and padding of the lengths the header gives; or reports the unknown
  type byte, which happens exactly when a whole frame is there and its byte 20 is above 8
  (buffer untouched).  It never panics.\<close>

theorem frame_parse_outcome:
  "case frame_parse bs of
     (Ok None, bs') \<Rightarrow> \<not> frame_can_parse bs \<and> bs' = bs
   | (Ok (Some f), bs') \<Rightarrow>
       frame_can_parse bs \<and> frame_type_code (fh_frame_type (fr_header f)) = bs ! 20 \<and> bs ! 20 \<le> 8 \<and>
       (\<exists>padding. bs = header_bytes (fr_header f) @ fr_payload f @ padding @ bs' \<and>
          length (fr_payload f) = unat (fh_payload_len (fr_header f)) \<and>
          length padding = unat (fh_padding_len (fr_header f)))
   | (Err e, bs') \<Rightarrow>
       frame_can_parse bs \<and> 8 < bs ! 20 \<and> e = UnknownFrameType (bs ! 20) \<and> bs' = bs
   | (Panic, bs') \<Rightarrow> False"
proof (cases "frame_can_parse bs")
  case True
  then show ?thesis
  proof (cases rule: frame_parse_cases)
    case (parsed f rest)
    then have "\<not> 8 < bs ! 20"
      using frame_parse_err_iff [of bs "UnknownFrameType (bs ! 20)" bs] True by auto
    moreover from parsed have "frame_type_code (fh_frame_type (fr_header f)) = bs ! 20"
      by (elim frame_parse_header) (simp add: header_bytes_def nth_append)
    moreover from parsed obtain padding where "bs = header_bytes (fr_header f) @ fr_payload f @ padding @ rest"
      "length (fr_payload f) = unat (fh_payload_len (fr_header f))"
      "length padding = unat (fh_padding_len (fr_header f))"
      unfolding frame_parse_iff by blast
    ultimately show ?thesis
      using parsed True by auto
  qed (use True in auto)
qed (simp add: frame_parse_early)

text \<open>\<open>payload.len() as u16\<close> silently keeps the low
  sixteen bits, so a payload of 65536 bytes or more is cut by the receiver and its tail is
  left in the buffer as if it were the next frame.\<close>

theorem frame_oversize_truncates:
  assumes "length key = 16" and "65536 \<le> length payload"
  shows "frame_parse (fst (frame_into_bytes (frame_new sid ft payload) key 0 r) @ rest) =
    (Ok (Some \<lparr>fr_payload = take (length payload mod 65536) payload,
               fr_header = sent_header sid ft (length payload) key 0\<rparr>),
     drop (length payload mod 65536) payload @ rest)"
proof -
  let ?k = "length payload mod 65536"
  obtain padding where "length padding = unat (0 :: u16)"
      "fst (frame_into_bytes (frame_new sid ft payload) key 0 r) =
        header_bytes (sent_header sid ft (length payload) key 0) @ payload @ padding"
    by (rule frame_into_bytes_layout)
  then have wire: "fst (frame_into_bytes (frame_new sid ft payload) key 0 r) @ rest =
      header_bytes (sent_header sid ft (length payload) key 0) @
      take ?k payload @ [] @ drop ?k payload @ rest"
    by simp
  have "?k < length payload"
    using assms(2) by (meson less_le_trans mod_less_divisor zero_less_numeral)
  then show ?thesis
    unfolding frame_parse_iff wire
    using assms(1) by (intro exI [of _ "[]"]) (simp add: sent_header_def unat_of_nat_u16_mod)
qed

lemma frame_oversize_truncates_witness:
  "frame_parse (fst (frame_into_bytes (frame_new 1 Diag (replicate 65537 (0::u8))) (replicate 16 0) 0 (\<lambda>_. 0)) @ []) =
    (Ok (Some \<lparr>fr_payload = take (length (replicate 65537 (0::u8)) mod 65536) (replicate 65537 0),
               fr_header = sent_header 1 Diag (length (replicate 65537 (0::u8))) (replicate 16 0) 0\<rparr>),
     drop (length (replicate 65537 (0::u8)) mod 65536) (replicate 65537 0) @ [])"
  by (rule frame_oversize_truncates) simp_all

end
