(* ===== verification/Pad_Shaper.thy ===== *)
theory Pad_Shaper
  imports Frame
begin

text \<open>
  The record-length shaper of \<open>engine/src/nrxp/codec.rs\<close> (\<open>PadShaper\<close>): a strictly increasing
  list of boundaries, drawn once per connection, to which record lengths are rounded up.
  The random draws are inputs; the lemmas show that the construction ends for all draws in
  the ranges the code asks for, what the boundaries look like, and that rounding picks the
  least boundary and never costs more than one gap.
\<close>

section \<open>Building the boundaries\<close>

definition aead_tag_len :: nat where
  "aead_tag_len = 16"

definition max_record_len :: nat where
  "max_record_len = max_record_plaintext + aead_tag_len"

definition min_gap :: nat where
  "min_gap = 16"

lemma record_sizes [simp]: "aead_tag_len = 16" "max_record_len = 16401" "min_gap = 16"
  by (simp_all add: aead_tag_len_def max_record_len_def min_gap_def)

text \<open>
  The draws of one connection.  The ratio is a floating-point number; it only occurs in
  \<open>(current as f64 * ratio) as usize\<close>, so the draw of gap \<open>k\<close> is given as the function
  \<open>sd_scale k\<close> from \<open>current\<close> to that truncated product.
\<close>

record shaper_draws =
  sd_floor :: nat
  sd_scale :: "nat \<Rightarrow> nat \<Rightarrow> nat"
  sd_cap :: "nat \<Rightarrow> nat"

definition draws_in_range :: "shaper_draws \<Rightarrow> bool" where
  "draws_in_range d \<longleftrightarrow> 64 \<le> sd_floor d \<and> sd_floor d \<le> 256 \<and> (\<forall>k. 128 \<le> sd_cap d k \<and> sd_cap d k \<le> 320)"

text \<open>\<open>Ord::clamp\<close> panics when the bounds are crossed; \<open>usize\<close> is 64 bits wide.\<close>

definition clamp_usize :: "nat \<Rightarrow> nat \<Rightarrow> nat \<Rightarrow> nat option" where
  "clamp_usize lo hi x = (if lo \<le> hi then Some (max lo (min hi x)) else None)"

definition saturating_add :: "nat \<Rightarrow> nat \<Rightarrow> nat" where
  "saturating_add a b = min (a + b) (2 ^ 64 - 1)"

lemma clamp_usize_Some:
  "clamp_usize lo hi x = Some y \<Longrightarrow> lo \<le> y \<and> y \<le> hi"
  by (auto simp: clamp_usize_def split: if_splits)

function boundary_loop :: "shaper_draws \<Rightarrow> nat \<Rightarrow> nat \<Rightarrow> nat list option" where
  "boundary_loop d k current =
     (if current < max_record_len
      then (case clamp_usize min_gap (sd_cap d k) (sd_scale d k current) of
              None \<Rightarrow> None
            | Some gap \<Rightarrow> map_option ((#) current)
                (boundary_loop d (Suc k) (saturating_add current gap)))
      else Some [])"
  by auto
termination
  by (relation "measure (\<lambda>(d, k, current). max_record_len - current)")
     (auto simp: saturating_add_def dest: clamp_usize_Some)

declare boundary_loop.simps [simp del]

record pad_shaper =
  ps_boundaries :: "nat list"

definition pad_shaper_new :: "shaper_draws \<Rightarrow> pad_shaper option" where
  "pad_shaper_new d =
     map_option (\<lambda>bs. \<lparr>ps_boundaries = bs @ [max_record_len]\<rparr>) (boundary_loop d 0 (sd_floor d))"

section \<open>Rounding a record length up\<close>

text \<open>
  \<open>slice::binary_search\<close> on a sorted slice: the index of the element, or the index where it
  would be inserted.
\<close>

datatype search = Found nat | Missing nat

definition binary_search :: "nat list \<Rightarrow> nat \<Rightarrow> search" where
  "binary_search xs x =
     (let i = length (takeWhile (\<lambda>y. y < x) xs)
      in if i < length xs \<and> xs ! i = x then Found i else Missing i)"

definition target_record_len :: "pad_shaper \<Rightarrow> nat \<Rightarrow> nat" where
  "target_record_len s plaintext_len =
     (let record_len = plaintext_len + aead_tag_len
      in if max_record_len \<le> record_len then record_len
         else (case binary_search (ps_boundaries s) record_len of
                 Found idx \<Rightarrow> ps_boundaries s ! idx
               | Missing idx \<Rightarrow>
                   if idx < length (ps_boundaries s) then ps_boundaries s ! idx else record_len))"

section \<open>What the boundaries look like\<close>

definition close_steps :: "nat list \<Rightarrow> bool" where
  "close_steps bs \<longleftrightarrow> (\<forall>i. Suc i < length bs \<longrightarrow> bs ! i < bs ! Suc i \<and> bs ! Suc i \<le> bs ! i + 320)"

definition shaper_wf :: "pad_shaper \<Rightarrow> bool" where
  "shaper_wf s \<longleftrightarrow> sorted_wrt (<) (ps_boundaries s) \<and> ps_boundaries s \<noteq> [] \<and>
     last (ps_boundaries s) = max_record_len"

lemma close_steps_Cons:
  "close_steps (x # y # zs) \<longleftrightarrow> x < y \<and> y \<le> x + 320 \<and> close_steps (y # zs)"
  unfolding close_steps_def by (auto simp: nth_Cons split: nat.splits)

lemma close_steps_single [simp]: "close_steps [x]"
  by (simp add: close_steps_def)

lemma close_steps_sorted: "close_steps bs \<Longrightarrow> sorted_wrt (<) bs"
proof (induction bs rule: induct_list012)
  case (3 x y zs)
  then show ?case
    by (auto simp: close_steps_Cons)
qed auto

lemma boundary_loop_shape:
  assumes "\<forall>k. 128 \<le> sd_cap d k \<and> sd_cap d k \<le> 320" "c < max_record_len"
  shows "\<exists>bs. boundary_loop d k c = Some (c # bs) \<and> close_steps (c # bs @ [max_record_len])"
  using assms(2)
proof (induction "max_record_len - c" arbitrary: c k rule: less_induct)
  case less
  have cap: "16 \<le> sd_cap d k" "sd_cap d k \<le> 320"
    using assms(1) [rule_format, of k] by simp_all
  then obtain gap where gap: "clamp_usize min_gap (sd_cap d k) (sd_scale d k c) = Some gap"
    by (simp add: clamp_usize_def)
  with cap have "16 \<le> gap" "gap \<le> 320"
    using clamp_usize_Some [OF gap] by auto
  moreover from this less.prems have next_c: "saturating_add c gap = c + gap"
    by (simp add: saturating_add_def)
  ultimately have step: "boundary_loop d k c = map_option ((#) c) (boundary_loop d (Suc k) (c + gap))"
    using less.prems gap by (simp add: boundary_loop.simps [of d k c])
  show ?case
  proof (cases "c + gap < max_record_len")
    case True
    moreover have "max_record_len - (c + gap) < max_record_len - c"
      using less.prems \<open>16 \<le> gap\<close> by simp
    ultimately obtain bs where "boundary_loop d (Suc k) (c + gap) = Some ((c + gap) # bs)"
        "close_steps ((c + gap) # bs @ [max_record_len])"
      using less.hyps by blast
    with step \<open>16 \<le> gap\<close> \<open>gap \<le> 320\<close> show ?thesis
      by (auto simp: close_steps_Cons)
  next
    case False
    then have "boundary_loop d (Suc k) (c + gap) = Some []"
      by (simp add: boundary_loop.simps)
    with step less.prems \<open>gap \<le> 320\<close> False show ?thesis
      by (simp add: close_steps_Cons)
  qed
qed

lemma pad_shaper_new_shape:
  assumes "draws_in_range d"
  obtains s where "pad_shaper_new d = Some s" "close_steps (ps_boundaries s)" "shaper_wf s"
    "hd (ps_boundaries s) = sd_floor d"
proof -
  from assms obtain bs where "boundary_loop d 0 (sd_floor d) = Some (sd_floor d # bs)"
    "close_steps (sd_floor d # bs @ [max_record_len])"
    using boundary_loop_shape [of d "sd_floor d" 0] by (auto simp: draws_in_range_def)
  moreover from this have "sorted_wrt (<) (sd_floor d # bs @ [max_record_len])"
    by (blast dest: close_steps_sorted)
  ultimately show thesis
    by (intro that [of "\<lparr>ps_boundaries = sd_floor d # bs @ [max_record_len]\<rparr>"])
       (simp_all add: pad_shaper_new_def shaper_wf_def)
qed

section \<open>What rounding does\<close>

lemma takeWhile_less_nth:
  assumes "sorted_wrt (<) xs" "i = length (takeWhile (\<lambda>y. y < x) xs)" "i < length xs"
  shows "x \<le> xs ! i" "\<And>b. b \<in> set xs \<Longrightarrow> x \<le> b \<Longrightarrow> xs ! i \<le> (b :: nat)"
proof -
  show "x \<le> xs ! i"
    using nth_length_takeWhile [of "\<lambda>y. y < x" xs] assms(2,3) by simp
  fix b
  assume "b \<in> set xs" "x \<le> b"
  then obtain j where j: "j < length xs" "xs ! j = b"
    by (auto simp: in_set_conv_nth)
  have "\<not> j < i"
  proof
    assume "j < i"
    then have "xs ! j \<in> set (takeWhile (\<lambda>y. y < x) xs)"
      using assms(2) by (metis nth_mem takeWhile_nth)
    then show False
      using j \<open>x \<le> b\<close> by (auto dest: set_takeWhileD)
  qed
  then show "xs ! i \<le> b"
    using assms(1) j sorted_wrt_nth_less [OF assms(1), of i j] by (cases "i = j") auto
qed

text \<open>The target is the least boundary at or above the record length.\<close>

lemma target_record_len_least:
  assumes "shaper_wf s" "n + 16 < 16401"
  shows "target_record_len s n \<in> set (ps_boundaries s)"
    and "n + 16 \<le> target_record_len s n"
    and "\<And>b. b \<in> set (ps_boundaries s) \<Longrightarrow> n + 16 \<le> b \<Longrightarrow> target_record_len s n \<le> b"
proof -
  let ?bs = "ps_boundaries s"
  define i where "i = length (takeWhile (\<lambda>y. y < n + 16) ?bs)"
  have mem: "16401 \<in> set ?bs"
    using assms(1) last_in_set [of ?bs] by (auto simp: shaper_wf_def)
  have "i < length ?bs"
  proof (rule ccontr)
    assume "\<not> i < length ?bs"
    then have "takeWhile (\<lambda>y. y < n + 16) ?bs = ?bs"
      using length_takeWhile_le [of "\<lambda>y. y < n + 16" ?bs]
      by (metis i_def linorder_not_less take_all takeWhile_eq_take)
    then have "16401 < n + 16"
      using mem by (metis set_takeWhileD)
    with assms(2) show False
      by simp
  qed
  moreover from this assms(2) have t: "target_record_len s n = ?bs ! i"
    by (auto simp: target_record_len_def binary_search_def Let_def i_def)
  ultimately show "target_record_len s n \<in> set ?bs" "n + 16 \<le> target_record_len s n"
    "\<And>b. b \<in> set ?bs \<Longrightarrow> n + 16 \<le> b \<Longrightarrow> target_record_len s n \<le> b"
    using takeWhile_less_nth [OF _ i_def] assms(1) by (auto simp: shaper_wf_def)
qed

lemma target_record_len_bounds:
  assumes "shaper_wf s"
  shows "n + 16 \<le> target_record_len s n" "n \<le> 16385 \<Longrightarrow> target_record_len s n \<le> 16401"
proof -
  have "16401 \<in> set (ps_boundaries s)"
    using assms last_in_set [of "ps_boundaries s"] by (auto simp: shaper_wf_def)
  moreover have "target_record_len s n = n + 16" if "\<not> n + 16 < 16401"
    using that by (simp add: target_record_len_def)
  ultimately show "n + 16 \<le> target_record_len s n" "n \<le> 16385 \<Longrightarrow> target_record_len s n \<le> 16401"
    using target_record_len_least [OF assms, of n] by (cases "n + 16 < 16401"; force)+
qed

lemma close_steps_gap:
  assumes "close_steps bs" "bs \<noteq> []" "hd bs \<le> x" "t \<in> set bs" "x \<le> t"
    "\<And>b. b \<in> set bs \<Longrightarrow> x \<le> b \<Longrightarrow> t \<le> b"
  shows "t < x + 320"
proof -
  obtain j where j: "j < length bs" "bs ! j = t"
    using assms(4) by (auto simp: in_set_conv_nth)
  show ?thesis
  proof (cases j)
    case 0
    then have "t = hd bs"
      using j assms(2) by (simp add: hd_conv_nth)
    with assms show ?thesis by simp
  next
    case (Suc i)
    then have "bs ! i < x"
      using assms(1,6) j by (metis Suc_lessD close_steps_def linorder_not_less nth_mem)
    moreover have "t \<le> bs ! i + 320"
      using assms(1) j Suc by (auto simp: close_steps_def)
    ultimately show ?thesis by simp
  qed
qed

text \<open>Property C29 (shaper_boundaries): for every outcome of the random draws the constructor
  returns; its boundaries start at the drawn floor, increase strictly by at most 320 and end
  in the TLS maximum 16401.\<close>

theorem shaper_boundaries:
  assumes "draws_in_range d"
  shows "\<exists>s. pad_shaper_new d = Some s \<and> hd (ps_boundaries s) = sd_floor d \<and>
    sorted_wrt (<) (ps_boundaries s) \<and> close_steps (ps_boundaries s) \<and>
    last (ps_boundaries s) = 16401"
  using assms by (rule pad_shaper_new_shape) (auto simp: shaper_wf_def)

lemma shaper_boundaries_witness:
  "\<exists>s. pad_shaper_new \<lparr>sd_floor = 100, sd_scale = (\<lambda>k c. c div 8), sd_cap = (\<lambda>k. 200)\<rparr> = Some s \<and>
    hd (ps_boundaries s) = 100 \<and> sorted_wrt (<) (ps_boundaries s) \<and> close_steps (ps_boundaries s) \<and>
    last (ps_boundaries s) = 16401"
  using shaper_boundaries [of "\<lparr>sd_floor = 100, sd_scale = (\<lambda>k c. c div 8), sd_cap = (\<lambda>k. 200)\<rparr>"]
  by (simp add: draws_in_range_def)

text \<open>With the boundaries of a connection, a record that is not
  already at the TLS maximum is sent with a length that is one of the boundaries, the least
  one it fits in; beyond the floor this adds fewer than 320 bytes, and equal targets hide
  which of the lengths between two boundaries was the real one.\<close>

theorem shaper_rounds_up:
  assumes "draws_in_range d" and "pad_shaper_new d = Some s" and "n < 16385"
  shows "target_record_len s n \<in> set (ps_boundaries s) \<and> n + 16 \<le> target_record_len s n \<and>
    target_record_len s n \<le> 16401 \<and>
    target_record_len s n < max (sd_floor d + 1) (n + 16 + 320) \<and>
    target_record_len s (target_record_len s n - 16) = target_record_len s n"
proof -
  from assms(1,2) have wf: "shaper_wf s" "close_steps (ps_boundaries s)" "hd (ps_boundaries s) = sd_floor d"
    by (metis pad_shaper_new_shape option.inject)+
  let ?t = "target_record_len s n"
  have n: "n + 16 < 16401"
    using assms(3) by simp
  note least = target_record_len_least [OF wf(1) n]
  have ne: "ps_boundaries s \<noteq> []"
    using wf(1) by (simp add: shaper_wf_def)
  have "?t < max (sd_floor d + 1) (n + 16 + 320)"
  proof (cases "sd_floor d \<le> n + 16")
    case True
    then show ?thesis
      using close_steps_gap [OF wf(2) ne, of "n + 16" ?t] least wf(3) by simp
  next
    case False
    then have "?t \<le> hd (ps_boundaries s)"
      using least(3) [OF hd_in_set [OF ne]] wf(3) by simp
    with wf(3) show ?thesis by simp
  qed
  moreover have "target_record_len s (?t - 16) = ?t"
  proof (cases "?t < 16401")
    case True
    then show ?thesis
      using target_record_len_least [OF wf(1), of "?t - 16"] least by (intro antisym) auto
  next
    case False
    then show ?thesis
      by (simp add: target_record_len_def)
  qed
  ultimately show ?thesis
    using least target_record_len_bounds [OF wf(1), of n] assms(3) by simp
qed

lemma shaper_rounds_up_witness:
  "let d = \<lparr>sd_floor = 100, sd_scale = (\<lambda>k c. c div 8), sd_cap = (\<lambda>k. 200)\<rparr>
   in \<exists>s. pad_shaper_new d = Some s \<and> 1016 \<le> target_record_len s 1000 \<and>
        target_record_len s 1000 < 1336"
proof -
  let ?d = "\<lparr>sd_floor = 100, sd_scale = (\<lambda>k c. c div 8), sd_cap = (\<lambda>k. 200)\<rparr> :: shaper_draws"
  have d: "draws_in_range ?d"
    by (simp add: draws_in_range_def)
  then obtain s where s: "pad_shaper_new ?d = Some s"
    by (rule pad_shaper_new_shape)
  from shaper_rounds_up [OF d s, of 1000] s show ?thesis
    by (simp add: Let_def)
qed

end
