(* ===== verification/Codec.thy ===== *)
theory Codec
  imports Frame Tls_Record Chacha Pad_Shaper Session_Auth
begin

text \<open>
  The encrypting codec of \<open>engine/src/nrxp/codec.rs\<close>: \<open>TxCodec\<close> packs frames greedily into
  padded, encrypted TLS records; \<open>RxCodec\<close> decrypts records into its staging buffer and parses
  frames out of it.  The lemmas show that the receiver is a lawful stream decoder, that every
  batch arrives frame by frame and in order however the bytes are cut, what lengths an
  observer sees, and how errors leave the receiver.
\<close>

section \<open>Sending\<close>

type_synonym frame_item = "u32 \<times> frame_type \<times> bytes"

record tx_codec =
  tx_crypto :: chacha_stream
  tx_auth :: session_auth
  tx_shaper :: pad_shaper

definition tx_codec_new :: "chacha_stream \<Rightarrow> session_auth \<Rightarrow> pad_shaper \<Rightarrow> tx_codec" where
  "tx_codec_new c a shaper = \<lparr>tx_crypto = c, tx_auth = a, tx_shaper = shaper\<rparr>"

definition item_len :: "frame_item \<Rightarrow> nat" where
  "item_len it = wire_len (length (snd (snd it))) 0"

definition encryption_failed :: tls_error where
  "encryption_failed = tls_error_new (StageTls ''Encryption failed'') Drop []"

text \<open>The loop of \<open>flush_record\<close>: the padding goes into the last frame, \<open>pad as u16\<close>.\<close>

fun record_plaintext :: "bytes \<Rightarrow> nat \<Rightarrow> frame_item list \<Rightarrow> rng \<Rightarrow> bytes \<times> rng" where
  "record_plaintext tag pad [] r = ([], r)"
| "record_plaintext tag pad ((sid, ft, payload) # items) r =
     (let pad_here = (if items = [] then of_nat pad else 0);
          (b, r1) = frame_into_bytes (frame_new sid ft payload) tag pad_here r;
          (bs, r2) = record_plaintext tag pad items r1
      in (b @ bs, r2))"

type_synonym 'a tx_step = "(tls_error, 'a) result \<times> tx_codec \<times> rng"

definition flush_record ::
  "crypto \<Rightarrow> tx_codec \<Rightarrow> bytes \<Rightarrow> frame_item list \<Rightarrow> nat \<Rightarrow> bytes \<Rightarrow> rng \<Rightarrow> bytes tx_step" where
  "flush_record P tx tag frames pad out r =
     (let (buf, r') = record_plaintext tag pad frames r;
          (res, cs) = chacha_encrypt P (tx_crypto tx) buf;
          tx' = tx\<lparr>tx_crypto := cs\<rparr>
      in case res of
           Ok c \<Rightarrow> (Ok (out @ pack_app_data c), tx', r')
         | Err e \<Rightarrow> (Err encryption_failed, tx', r')
         | Panic \<Rightarrow> (Panic, tx', r'))"

definition shaped_pad :: "pad_shaper \<Rightarrow> nat \<Rightarrow> nat" where
  "shaped_pad s plain_len =
     min (target_record_len s plain_len - (plain_len + aead_tag_len)) (max_record_plaintext - plain_len)"

definition flush_shaped ::
  "crypto \<Rightarrow> tx_codec \<Rightarrow> bytes \<Rightarrow> frame_item list \<Rightarrow> nat \<Rightarrow> bytes \<Rightarrow> rng \<Rightarrow> bytes tx_step" where
  "flush_shaped P tx tag frames plain_len out r =
     flush_record P tx tag frames (shaped_pad (tx_shaper tx) plain_len) out r"

definition bind_tx :: "'a tx_step \<Rightarrow> ('a \<Rightarrow> tx_codec \<Rightarrow> rng \<Rightarrow> 'b tx_step) \<Rightarrow> 'b tx_step" where
  "bind_tx st k =
     (case st of
        (Ok x, tx, r) \<Rightarrow> k x tx r
      | (Err e, tx, r) \<Rightarrow> (Err e, tx, r)
      | (Panic, tx, r) \<Rightarrow> (Panic, tx, r))"

text \<open>The \<open>for item in items\<close> loop with its accumulated batch, and the final flush.\<close>

fun batch_loop ::
  "crypto \<Rightarrow> bytes \<Rightarrow> tx_codec \<Rightarrow> frame_item list \<Rightarrow> nat \<Rightarrow> bytes \<Rightarrow> frame_item list \<Rightarrow> rng \<Rightarrow> bytes tx_step"
where
  "batch_loop P tag tx batch batch_len out [] r =
     (if batch \<noteq> [] then flush_shaped P tx tag batch batch_len out r else (Ok out, tx, r))"
| "batch_loop P tag tx batch batch_len out (item # items) r =
     (let need = item_len item
      in if max_record_plaintext < need then
           bind_tx (if batch \<noteq> [] then flush_shaped P tx tag batch batch_len out r else (Ok out, tx, r))
             (\<lambda>out1 tx1 r1. bind_tx (flush_record P tx1 tag [item] 0 out1 r1)
               (\<lambda>out2 tx2 r2. batch_loop P tag tx2 [] (if batch \<noteq> [] then 0 else batch_len) out2 items r2))
         else if max_record_plaintext < batch_len + need then
           bind_tx (flush_shaped P tx tag batch batch_len out r)
             (\<lambda>out1 tx1 r1. batch_loop P tag tx1 [item] need out1 items r1)
         else batch_loop P tag tx (batch @ [item]) (batch_len + need) out items r)"

definition encode_batch :: "crypto \<Rightarrow> u64 \<Rightarrow> tx_codec \<Rightarrow> frame_item list \<Rightarrow> rng \<Rightarrow> bytes tx_step" where
  "encode_batch P now tx items r =
     (if items = [] then (Ok [], tx, r)
      else batch_loop P (generate_current_tag P (tx_auth tx) now) tx [] 0 [] items r)"

definition encode_frame ::
  "crypto \<Rightarrow> u64 \<Rightarrow> tx_codec \<Rightarrow> u32 \<Rightarrow> frame_type \<Rightarrow> bytes \<Rightarrow> rng \<Rightarrow> bytes tx_step" where
  "encode_frame P now tx sid ft payload r = encode_batch P now tx [(sid, ft, payload)] r"

definition empty_cover_record :: nat where
  "empty_cover_record = frame_header_size + aead_tag_len"

definition encode_cover :: "crypto \<Rightarrow> u64 \<Rightarrow> tx_codec \<Rightarrow> nat \<Rightarrow> rng \<Rightarrow> bytes tx_step" where
  "encode_cover P now tx target_len r =
     (let target = max empty_cover_record (min max_record_len target_len);
          pad = target - empty_cover_record
      in flush_record P tx (generate_current_tag P (tx_auth tx) now) [(0, Cover, [])] pad [] r)"

section \<open>Receiving\<close>

record rx_codec =
  rx_crypto :: chacha_stream
  rx_auth :: session_auth
  rx_staging :: bytes

definition rx_codec_new :: "chacha_stream \<Rightarrow> session_auth \<Rightarrow> bytes \<Rightarrow> rx_codec" where
  "rx_codec_new c a staging = \<lparr>rx_crypto = c, rx_auth = a, rx_staging = staging\<rparr>"

definition frame_parse_failed :: tls_error where
  "frame_parse_failed = tls_error_new (StageTls ''Frame parse error'') Drop []"

definition aead_decrypt_failed :: tls_error where
  "aead_decrypt_failed = tls_error_new (StageTls ''AEAD Decrypt Failed'') Drop []"

definition try_parse_frame :: "rx_codec \<Rightarrow> (tls_error, frame option) result \<times> rx_codec" where
  "try_parse_frame rx =
     (case frame_parse (rx_staging rx) of
        (Ok x, staging) \<Rightarrow> (Ok x, rx\<lparr>rx_staging := staging\<rparr>)
      | (Err e, staging) \<Rightarrow> (Err frame_parse_failed, rx\<lparr>rx_staging := []\<rparr>)
      | (Panic, staging) \<Rightarrow> (Panic, rx\<lparr>rx_staging := staging\<rparr>))"

text \<open>The \<open>while let Some(app_data)\<close> loop: one record per turn.\<close>

function decode_loop ::
  "crypto \<Rightarrow> rx_codec \<Rightarrow> bytes \<Rightarrow> (tls_error, frame option) result \<times> rx_codec \<times> bytes" where
  "decode_loop P rx buffer =
     (case unpack_app_data buffer of
        (Err e, buffer') \<Rightarrow> (Err e, rx, buffer')
      | (Panic, buffer') \<Rightarrow> (Panic, rx, buffer')
      | (Ok None, buffer') \<Rightarrow> (Ok None, rx, buffer')
      | (Ok (Some app_data), buffer') \<Rightarrow>
          (case chacha_decrypt P (rx_crypto rx) (ad_payload app_data) of
             (Ok p, cs) \<Rightarrow>
               (case try_parse_frame (rx\<lparr>rx_crypto := cs, rx_staging := rx_staging rx @ p\<rparr>) of
                  (Ok None, rx') \<Rightarrow> decode_loop P rx' buffer'
                | (Ok (Some f), rx') \<Rightarrow> (Ok (Some f), rx', buffer')
                | (Err e, rx') \<Rightarrow> (Err e, rx', buffer')
                | (Panic, rx') \<Rightarrow> (Panic, rx', buffer'))
           | (_, cs) \<Rightarrow> (Err aead_decrypt_failed, rx\<lparr>rx_crypto := cs, rx_staging := []\<rparr>, buffer')))"
  by auto
termination
  by (relation "measure (\<lambda>(P, rx, buffer). length buffer)") (auto dest: unpack_app_data_shrinks [OF sym])

declare decode_loop.simps [simp del]

definition decode_inbound :: "crypto \<Rightarrow> (rx_codec, tls_error, frame) decoder" where
  "decode_inbound P rx buffer =
     (if rx_staging rx \<noteq> []
      then (case try_parse_frame rx of
              (Ok None, rx') \<Rightarrow> decode_loop P rx' buffer
            | (Ok (Some f), rx') \<Rightarrow> (Ok (Some f), rx', buffer)
            | (Err e, rx') \<Rightarrow> (Err e, rx', buffer)
            | (Panic, rx') \<Rightarrow> (Panic, rx', buffer))
      else decode_loop P rx buffer)"

section \<open>The codec factory\<close>

record codec =
  co_tx :: "tx_codec option"
  co_rx :: "rx_codec option"

definition codec_new :: "chacha_cipher \<Rightarrow> bytes \<Rightarrow> pad_shaper \<Rightarrow> codec" where
  "codec_new cipher auth_key shaper =
     (let (rx_stream, tx_stream) = chacha_split cipher;
          auth = session_auth_new auth_key
      in \<lparr>co_tx = Some (tx_codec_new tx_stream auth shaper),
          co_rx = Some (rx_codec_new rx_stream auth [])\<rparr>)"

definition codec_split :: "codec \<Rightarrow> (rx_codec \<times> tx_codec) option" where
  "codec_split c =
     (case (co_rx c, co_tx c) of (Some rx, Some tx) \<Rightarrow> Some (rx, tx) | _ \<Rightarrow> None)"

section \<open>The receiver is a stream decoder\<close>

lemma try_parse_frame_None:
  "try_parse_frame rx = (Ok None, rx') \<longleftrightarrow> \<not> frame_can_parse (rx_staging rx) \<and> rx' = rx"
  using frame_parser.none_iff [of "rx_staging rx"] frame_parse_early [of "rx_staging rx"]
  by (cases "frame_can_parse (rx_staging rx)")
     (auto simp: try_parse_frame_def split: prod.splits result.splits)

lemma frame_can_parse_Nil [simp]: "\<not> frame_can_parse []"
  by (simp add: frame_can_parse_def)

lemma try_parse_frame_Some:
  "try_parse_frame rx = (Ok (Some f), rx') \<Longrightarrow>
     length (rx_staging rx') < length (rx_staging rx) \<and> rx_staging rx \<noteq> []"
  using frame_parser.consumes [of "rx_staging rx" f]
  by (auto simp: try_parse_frame_def split: prod.splits result.splits dest!: frame_parser.consumes)

lemma decode_inbound_eq:
  "decode_inbound P rx buffer =
     (case try_parse_frame rx of
        (Ok None, rx') \<Rightarrow> decode_loop P rx' buffer
      | (Ok (Some f), rx') \<Rightarrow> (Ok (Some f), rx', buffer)
      | (Err e, rx') \<Rightarrow> (Err e, rx', buffer)
      | (Panic, rx') \<Rightarrow> (Panic, rx', buffer))"
proof (cases "rx_staging rx = []")
  case True
  then have "try_parse_frame rx = (Ok None, rx)"
    by (simp add: try_parse_frame_None)
  with True show ?thesis
    by (simp add: decode_inbound_def)
qed (simp add: decode_inbound_def)

lemma decode_inbound_parseless:
  "\<not> frame_can_parse (rx_staging rx) \<Longrightarrow> decode_inbound P rx buffer = decode_loop P rx buffer"
  by (simp add: decode_inbound_eq try_parse_frame_None [THEN iffD2])

lemma decode_loop_early:
  "\<not> record_can_parse buffer \<Longrightarrow> decode_loop P rx buffer = (Ok None, rx, buffer)"
  using unpack_app_data_early [of buffer buffer] by (simp add: decode_loop.simps)

text \<open>One turn of the loop on a ready record does not look past the record.\<close>

lemma decode_loop_stable:
  "decode_loop P rx buffer = (res, rx', buffer') \<Longrightarrow> \<not> frame_can_parse (rx_staging rx) \<Longrightarrow>
     (if res = Ok None
      then decode_loop P rx (buffer @ extra) = decode_loop P rx' (buffer' @ extra) \<and>
           \<not> frame_can_parse (rx_staging rx')
      else decode_loop P rx (buffer @ extra) = (res, rx', buffer' @ extra))"
proof (induction P rx buffer arbitrary: rule: decode_loop.induct)
  case (1 P rx buffer)
  show ?case
  proof (cases "record_can_parse buffer")
    case False
    with 1(2,3) show ?thesis
      by (simp add: decode_loop_early)
  next
    case True
    obtain x b where u: "unpack_app_data buffer = (x, b)"
      by fastforce
    with True have x: "x \<noteq> Ok None"
      using unpack_app_data_early by blast
    have ue: "unpack_app_data (buffer @ extra) = (x, b @ extra)"
      using unpack_app_data_local [OF u x] .
    show ?thesis
    proof (cases "\<exists>a. x = Ok (Some a)")
      case True
      then obtain a where a: "x = Ok (Some a)" ..
      obtain q cs where q: "chacha_decrypt P (rx_crypto rx) (ad_payload a) = (q, cs)"
        by fastforce
      show ?thesis
      proof (cases q)
        case (Ok p)
        define rx1 where "rx1 = rx\<lparr>rx_crypto := cs, rx_staging := rx_staging rx @ p\<rparr>"
        obtain t rx2 where t: "try_parse_frame rx1 = (t, rx2)"
          by fastforce
        show ?thesis
        proof (cases "t = Ok None")
          case True
          with t have np: "\<not> frame_can_parse (rx_staging rx1)" "rx2 = rx1"
            using try_parse_frame_None [of rx1 rx2] by simp_all
          have go: "decode_loop P rx buffer = decode_loop P rx1 b"
            "decode_loop P rx (buffer @ extra) = decode_loop P rx1 (b @ extra)"
            using u ue a q Ok t True np(2) by (simp_all add: decode_loop.simps [of P rx] rx1_def)
          have IH: "(if res = Ok None
              then decode_loop P rx1 (b @ extra) = decode_loop P rx' (buffer' @ extra) \<and>
                   \<not> frame_can_parse (rx_staging rx')
              else decode_loop P rx1 (b @ extra) = (res, rx', buffer' @ extra))"
            using 1(1) [OF u [symmetric] a refl q [symmetric] Ok t [unfolded rx1_def, symmetric] True refl]
              1(2) np unfolding go by blast
          then show ?thesis
            unfolding go .
        next
          case False
          then show ?thesis
            using 1(2) u ue a q Ok t unfolding decode_loop.simps [of P rx]
            by (auto simp: rx1_def [symmetric] split: result.splits option.splits)
        qed
      qed (use 1(2) u ue a q in \<open>auto simp: decode_loop.simps [of P rx]\<close>)
    next
      case False
      then show ?thesis
        using 1(2) u ue x unfolding decode_loop.simps [of P rx]
        by (auto split: result.splits option.splits)
    qed
  qed
qed

lemma decode_loop_shrinks:
  "decode_loop P rx buffer = (Ok (Some f), rx', buffer') \<Longrightarrow> length buffer' < length buffer"
proof (induction P rx buffer rule: decode_loop.induct)
  case (1 P rx buffer)
  from 1(2) obtain a b where u: "unpack_app_data buffer = (Ok (Some a), b)"
    by (subst (asm) decode_loop.simps) (auto split: prod.splits result.splits option.splits)
  from u have len: "length b < length buffer"
    by (rule unpack_app_data_shrinks)
  obtain q cs where q: "chacha_decrypt P (rx_crypto rx) (ad_payload a) = (q, cs)"
    by fastforce
  with 1(2) u obtain p where p: "q = Ok p"
    by (subst (asm) decode_loop.simps) (auto split: result.splits)
  obtain t rx2 where t: "try_parse_frame (rx\<lparr>rx_crypto := cs, rx_staging := rx_staging rx @ p\<rparr>) = (t, rx2)"
    by fastforce
  show ?case
  proof (cases "t = Ok None")
    case True
    then have "decode_loop P rx buffer = decode_loop P rx2 b"
      using u q p t by (simp add: decode_loop.simps [of P rx])
    with 1(1) [OF u [symmetric] refl refl q [symmetric] p t [symmetric] True refl] 1(2) len
    show ?thesis by simp
  next
    case False
    with 1(2) u q p t len show ?thesis
      by (subst (asm) decode_loop.simps) (auto split: result.splits option.splits)
  qed
qed

interpretation inbound: stream_decoder "decode_inbound P" "\<lambda>rx. length (rx_staging rx)" for P
proof
  fix rx rx' :: rx_codec and bs bs' extra
  assume D: "decode_inbound P rx bs = (Ok None, rx', bs')"
  then have np: "\<not> frame_can_parse (rx_staging rx)"
    using try_parse_frame_None [of rx]
    by (auto simp: decode_inbound_eq split: prod.splits result.splits option.splits)
  from decode_loop_stable [of P rx bs "Ok None" rx' bs' extra] D np
  show "decode_inbound P rx (bs @ extra) = decode_inbound P rx' (bs' @ extra)"
    by (simp add: decode_inbound_parseless)
next
  fix rx rx' :: rx_codec and bs r bs' extra
  assume D: "decode_inbound P rx bs = (r, rx', bs')" and r: "r \<noteq> Ok None"
  show "decode_inbound P rx (bs @ extra) = (r, rx', bs' @ extra)"
  proof (cases "frame_can_parse (rx_staging rx)")
    case True
    then have "fst (try_parse_frame rx) \<noteq> Ok None"
      using try_parse_frame_None [of rx "snd (try_parse_frame rx)"] by (auto simp: prod_eq_iff)
    with D show ?thesis
      by (auto simp: decode_inbound_eq split: prod.splits result.splits option.splits)
  next
    case False
    with decode_loop_stable [of P rx bs r rx' bs' extra] D r show ?thesis
      by (simp add: decode_inbound_parseless)
  qed
next
  fix rx rx' :: rx_codec and bs m bs'
  assume D: "decode_inbound P rx bs = (Ok (Some m), rx', bs')"
  show "length bs' < length bs \<or> length bs' = length bs \<and> length (rx_staging rx') < length (rx_staging rx)"
  proof (cases "frame_can_parse (rx_staging rx)")
    case True
    then have "fst (try_parse_frame rx) \<noteq> Ok None"
      using try_parse_frame_None [of rx "snd (try_parse_frame rx)"] by (auto simp: prod_eq_iff)
    with D show ?thesis
      by (auto simp: decode_inbound_eq split: prod.splits result.splits option.splits
          dest: try_parse_frame_Some)
  next
    case False
    with D show ?thesis
      by (auto simp: decode_inbound_parseless dest: decode_loop_shrinks)
  qed
qed

section \<open>From items to frames\<close>

definition item_of_frame :: "frame \<Rightarrow> frame_item" where
  "item_of_frame f = (fh_stream_id (fr_header f), fh_frame_type (fr_header f), fr_payload f)"

lemma frame_into_bytes_parse:
  assumes "length tag = 16" "length payload < 65536"
  shows "frame_parse (fst (frame_into_bytes (frame_new sid ft payload) tag pad r) @ rest) =
    (Ok (Some \<lparr>fr_payload = payload, fr_header = sent_header sid ft (length payload) tag pad\<rparr>), rest)"
proof -
  obtain padding where "length padding = unat pad"
    "fst (frame_into_bytes (frame_new sid ft payload) tag pad r) =
       header_bytes (sent_header sid ft (length payload) tag pad) @ payload @ padding"
    by (rule frame_into_bytes_layout)
  with assms show ?thesis
    by (auto simp: frame_parse_iff sent_header_def)
qed

text \<open>What the receiver gets for a list of items: every header carries the tag, the last one the
  padding.\<close>

fun sent_frames :: "bytes \<Rightarrow> nat \<Rightarrow> frame_item list \<Rightarrow> frame list" where
  "sent_frames tag pad [] = []"
| "sent_frames tag pad ((sid, ft, payload) # items) =
     \<lparr>fr_payload = payload,
      fr_header = sent_header sid ft (length payload) tag (if items = [] then of_nat pad else 0)\<rparr>
     # sent_frames tag pad items"

lemma items_of_sent_frames [simp]: "map item_of_frame (sent_frames tag pad items) = items"
  by (induction tag pad items rule: sent_frames.induct) (auto simp: item_of_frame_def sent_header_def)

lemma sent_frames_tags: "f \<in> set (sent_frames tag pad items) \<Longrightarrow> fh_auth_tag (fr_header f) = tag"
  by (induction tag pad items rule: sent_frames.induct) (auto simp: sent_header_def)

lemma length_record_plaintext:
  assumes "length tag = 16" "pad < 65536" "items \<noteq> []"
  shows "length (fst (record_plaintext tag pad items r)) = sum_list (map item_len items) + pad"
  using assms(3)
proof (induction items arbitrary: r)
  case (Cons it items)
  then show ?case
    using assms(1,2)
    by (cases it; cases "items = []")
       (simp_all add: split_beta Let_def length_frame_into_bytes item_len_def wire_len_def)
qed simp

text \<open>A plaintext that the frame parser cuts into exactly these frames.\<close>

fun staged :: "bytes \<Rightarrow> frame list \<Rightarrow> bool" where
  "staged bs [] \<longleftrightarrow> bs = []"
| "staged bs (f # fs) \<longleftrightarrow> fst (frame_parse bs) = Ok (Some f) \<and> staged (snd (frame_parse bs)) fs"

lemma staged_plaintext:
  assumes "length tag = 16" "\<And>it. it \<in> set items \<Longrightarrow> length (snd (snd it)) < 65536"
  shows "staged (fst (record_plaintext tag pad items r)) (sent_frames tag pad items)"
  using assms(2)
proof (induction items arbitrary: r)
  case (Cons it items)
  obtain sid ft payload where it: "it = (sid, ft, payload)"
    by (cases it)
  show ?case
    using Cons.IH Cons.prems [of it] Cons.prems assms(1)
    by (simp add: it split_beta Let_def frame_into_bytes_parse)
qed simp

text \<open>Draining the staging buffer yields the frames of its record, then goes on with the stream.\<close>

lemma drain_staged:
  "staged p fs \<Longrightarrow> drain (decode_inbound P) (rx\<lparr>rx_staging := p\<rparr>) bs =
    Option.bind (drain (decode_inbound P) (rx\<lparr>rx_staging := []\<rparr>) bs) (\<lambda>(ms, res). Some (fs @ ms, res))"
proof (induction fs arbitrary: p)
  case Nil
  then show ?case
    by (cases "drain (decode_inbound P) (rx\<lparr>rx_staging := []\<rparr>) bs") auto
next
  case (Cons f fs)
  then obtain p' where p': "frame_parse p = (Ok (Some f), p')" "staged p' fs"
    by (cases "frame_parse p") auto
  then have "decode_inbound P (rx\<lparr>rx_staging := p\<rparr>) bs = (Ok (Some f), rx\<lparr>rx_staging := p'\<rparr>, bs)"
    by (simp add: decode_inbound_eq try_parse_frame_def)
  then have "drain (decode_inbound P) (rx\<lparr>rx_staging := p\<rparr>) bs =
      Option.bind (drain (decode_inbound P) (rx\<lparr>rx_staging := p'\<rparr>) bs) (\<lambda>(ms, res). Some (f # ms, res))"
    by (subst drain.simps) simp
  with Cons.IH [OF p'(2)] show ?case
    by (cases "drain (decode_inbound P) (rx\<lparr>rx_staging := []\<rparr>) bs") auto
qed

section \<open>What the sender emits\<close>

text \<open>The direction's state after \<open>k\<close> more records: only the counter has moved.\<close>

definition stream_after :: "nat \<Rightarrow> chacha_stream \<Rightarrow> chacha_stream" where
  "stream_after k s = s\<lparr>cs_state := (cs_state s)\<lparr>ns_counter := ns_counter (cs_state s) + of_nat k\<rparr>\<rparr>"

lemma stream_after_0 [simp]: "stream_after 0 s = s"
  by (simp add: stream_after_def)

lemma stream_after_add [simp]: "stream_after j (stream_after k s) = stream_after (k + j) s"
  by (simp add: stream_after_def add.assoc)

lemma stream_after_1: "s\<lparr>cs_state := snd (next_nonce (cs_state s))\<rparr> = stream_after (Suc 0) s"
  by (simp add: stream_after_def next_nonce_def)

text \<open>
  \<open>carries\<close>: a receiver in step with the sender, with nothing staged, gets these frames from
  these bytes and is then in step with the sender's new state.
\<close>

definition carries :: "crypto \<Rightarrow> chacha_stream \<Rightarrow> bytes \<Rightarrow> frame list \<Rightarrow> chacha_stream \<Rightarrow> bool" where
  "carries P cs wire frames cs' \<longleftrightarrow>
     (\<forall>rx rest. rx_crypto rx = cs \<longrightarrow> rx_staging rx = [] \<longrightarrow>
        drain (decode_inbound P) rx (wire @ rest) =
          Option.bind (drain (decode_inbound P) (rx\<lparr>rx_crypto := cs'\<rparr>) rest)
            (\<lambda>(ms, res). Some (frames @ ms, res)))"

lemma carries_Nil: "carries P cs [] [] cs"
proof -
  have "Option.bind d (\<lambda>(ms, res). Some ([] @ ms, res)) = d" for d :: "(rx_codec, tls_error, frame) drained option"
    by (cases d) auto
  then show ?thesis
    by (auto simp: carries_def)
qed

lemma carries_append:
  assumes "carries P cs w fs cs1" "carries P cs1 w' fs' cs2"
  shows "carries P cs (w @ w') (fs @ fs') cs2"
  unfolding carries_def
proof (intro allI impI)
  fix rx :: rx_codec and rest
  assume rx: "rx_crypto rx = cs" "rx_staging rx = []"
  let ?d = "drain (decode_inbound P) (rx\<lparr>rx_crypto := cs2\<rparr>) rest"
  have "drain (decode_inbound P) (rx\<lparr>rx_crypto := cs1\<rparr>) (w' @ rest) =
      Option.bind ?d (\<lambda>(ms, res). Some (fs' @ ms, res))"
    using assms(2) rx by (simp add: carries_def)
  moreover have "drain (decode_inbound P) rx (w @ w' @ rest) =
      Option.bind (drain (decode_inbound P) (rx\<lparr>rx_crypto := cs1\<rparr>) (w' @ rest))
        (\<lambda>(ms, res). Some (fs @ ms, res))"
    using assms(1) rx by (simp add: carries_def)
  ultimately show "drain (decode_inbound P) rx ((w @ w') @ rest) =
      Option.bind ?d (\<lambda>(ms, res). Some ((fs @ fs') @ ms, res))"
    by (cases ?d) auto
qed

text \<open>One record that opens.\<close>

lemma carries_opened:
  assumes dec: "chacha_decrypt P cs c = (Ok p, cs')" and fs: "staged p fs" "fs \<noteq> []"
    and len: "17 \<le> length c" "length c < 65536"
  shows "carries P cs (pack_app_data c) fs cs'"
  unfolding carries_def
proof (intro allI impI)
  fix rx :: rx_codec and rest
  assume rx: "rx_crypto rx = cs" "rx_staging rx = []"
  let ?rx1 = "rx\<lparr>rx_crypto := cs', rx_staging := p\<rparr>"
  have t: "fst (try_parse_frame ?rx1) \<noteq> Ok None"
    using fs by (cases fs) (auto simp: try_parse_frame_def split: prod.splits)
  have "decode_inbound P rx (pack_app_data c @ rest) = decode_loop P rx (pack_app_data c @ rest)"
    using rx by (simp add: decode_inbound_parseless)
  also have "\<dots> = decode_inbound P ?rx1 rest"
    using t rx dec len unfolding decode_inbound_eq
    by (subst decode_loop.simps)
       (auto simp: unpack_pack_app_data split: prod.splits result.splits option.splits)
  finally have "drain (decode_inbound P) rx (pack_app_data c @ rest) = drain (decode_inbound P) ?rx1 rest"
    by (subst (1 2) drain.simps) simp
  also have "\<dots> = Option.bind (drain (decode_inbound P) (rx\<lparr>rx_crypto := cs', rx_staging := []\<rparr>) rest)
      (\<lambda>(ms, res). Some (fs @ ms, res))"
    using drain_staged [OF fs(1), where rx = "rx\<lparr>rx_crypto := cs'\<rparr>"] by simp
  also have "rx\<lparr>rx_crypto := cs', rx_staging := []\<rparr> = rx\<lparr>rx_crypto := cs'\<rparr>"
    using rx by simp
  finally show "drain (decode_inbound P) rx (pack_app_data c @ rest) =
      Option.bind (drain (decode_inbound P) (rx\<lparr>rx_crypto := cs'\<rparr>) rest) (\<lambda>(ms, res). Some (fs @ ms, res))" .
qed

text \<open>Payloads that the record parser accepts.\<close>

definition records_fit :: "bytes list \<Rightarrow> bool" where
  "records_fit cs \<longleftrightarrow> (\<forall>c \<in> set cs. 17 \<le> length c \<and> length c < 65536)"

lemma records_fit_simps [simp]:
  "records_fit []" "records_fit (c # cs) \<longleftrightarrow> 17 \<le> length c \<and> length c < 65536 \<and> records_fit cs"
  "records_fit (xs @ ys) \<longleftrightarrow> records_fit xs \<and> records_fit ys"
  by (auto simp: records_fit_def)

text \<open>Records that open one after the other to plaintexts of these frames, one nonce each.\<close>

definition records_open :: "crypto \<Rightarrow> chacha_stream \<Rightarrow> bytes list \<Rightarrow> frame list list \<Rightarrow> bool" where
  "records_open P cs cts fss \<longleftrightarrow> length fss = length cts \<and>
     (\<forall>k < length cts. fss ! k \<noteq> [] \<and>
        (\<exists>p. chacha_decrypt P (stream_after k cs) (cts ! k) = (Ok p, stream_after (Suc k) cs) \<and> staged p (fss ! k)))"

lemma records_open_Nil [simp]: "records_open P cs [] []"
  by (simp add: records_open_def)

lemma records_open_append:
  assumes "records_open P cs cts fss" "records_open P (stream_after (length cts) cs) cts' fss'"
  shows "records_open P cs (cts @ cts') (fss @ fss')"
proof -
  have len: "length fss = length cts" "length fss' = length cts'"
    using assms by (simp_all add: records_open_def)
  let ?opens = "\<lambda>k c fs. fs \<noteq> [] \<and>
    (\<exists>p. chacha_decrypt P (stream_after k cs) c = (Ok p, stream_after (Suc k) cs) \<and> staged p fs)"
  have "?opens k ((cts @ cts') ! k) ((fss @ fss') ! k)" if "k < length (cts @ cts')" for k
  proof (cases "k < length cts")
    case True
    with assms(1) show ?thesis
      by (simp add: records_open_def nth_append len)
  next
    case False
    then have "k - length cts < length cts'"
      using that by simp
    with assms(2) have "?opens (length cts + (k - length cts)) (cts' ! (k - length cts)) (fss' ! (k - length cts))"
      by (simp add: records_open_def)
    with False show ?thesis
      by (simp add: nth_append len)
  qed
  then show ?thesis
    by (simp add: records_open_def len)
qed

text \<open>
  \<open>delivers\<close>: a sending step returns; it appends whole records to its output, each of a length
  accepted by \<open>Q\<close>, uses one nonce per record, changes nothing else, and what it appends
  carries the items, record by record.
\<close>

definition delivers ::
  "crypto \<Rightarrow> bytes \<Rightarrow> (nat \<Rightarrow> bool) \<Rightarrow> tx_codec \<Rightarrow> frame_item list \<Rightarrow> bytes \<Rightarrow> bytes tx_step \<Rightarrow> bool"
where
  "delivers P tag Q tx items out st \<longleftrightarrow>
     (\<exists>cts frames r'.
        st = (Ok (out @ concat (map pack_app_data cts)),
              tx\<lparr>tx_crypto := stream_after (length cts) (tx_crypto tx)\<rparr>, r') \<and>
        map item_of_frame frames = items \<and> (\<forall>f \<in> set frames. fh_auth_tag (fr_header f) = tag) \<and>
        (\<forall>c \<in> set cts. Q (length c)) \<and>
        carries P (tx_crypto tx) (concat (map pack_app_data cts)) frames
          (stream_after (length cts) (tx_crypto tx)) \<and>
        records_fit cts \<and> (\<exists>fss. concat fss = frames \<and> records_open P (tx_crypto tx) cts fss))"

lemma delivers_none: "delivers P tag Q tx [] out (Ok out, tx, r)"
  unfolding delivers_def
  by (rule exI [of _ "[]"], rule exI [of _ "[]"]) (simp add: carries_Nil exI [of _ "[]"])

lemma delivers_bind:
  assumes "delivers P tag Q tx items out st"
    and "\<And>out1 tx1 r1. tx_shaper tx1 = tx_shaper tx \<Longrightarrow> delivers P tag Q tx1 items' out1 (k out1 tx1 r1)"
  shows "delivers P tag Q tx (items @ items') out (bind_tx st k)"
proof -
  obtain cts frames r1 where 1: "st = (Ok (out @ concat (map pack_app_data cts)),
        tx\<lparr>tx_crypto := stream_after (length cts) (tx_crypto tx)\<rparr>, r1)"
      "map item_of_frame frames = items" "\<forall>f \<in> set frames. fh_auth_tag (fr_header f) = tag"
      "\<forall>c \<in> set cts. Q (length c)"
      "carries P (tx_crypto tx) (concat (map pack_app_data cts)) frames
         (stream_after (length cts) (tx_crypto tx))"
      "\<exists>fss. concat fss = frames \<and> records_open P (tx_crypto tx) cts fss" "records_fit cts"
    using assms(1) unfolding delivers_def by blast
  let ?tx1 = "tx\<lparr>tx_crypto := stream_after (length cts) (tx_crypto tx)\<rparr>"
  have "delivers P tag Q ?tx1 items' (out @ concat (map pack_app_data cts))
      (k (out @ concat (map pack_app_data cts)) ?tx1 r1)"
    by (rule assms(2)) simp
  then obtain cts' frames' r2 where 2: "k (out @ concat (map pack_app_data cts)) ?tx1 r1 =
        (Ok ((out @ concat (map pack_app_data cts)) @ concat (map pack_app_data cts')),
         ?tx1\<lparr>tx_crypto := stream_after (length cts') (tx_crypto ?tx1)\<rparr>, r2)"
      "map item_of_frame frames' = items'" "\<forall>f \<in> set frames'. fh_auth_tag (fr_header f) = tag"
      "\<forall>c \<in> set cts'. Q (length c)"
      "carries P (tx_crypto ?tx1) (concat (map pack_app_data cts')) frames'
         (stream_after (length cts') (tx_crypto ?tx1))"
      "\<exists>fss. concat fss = frames' \<and> records_open P (tx_crypto ?tx1) cts' fss" "records_fit cts'"
    unfolding delivers_def by blast
  obtain fss fss' where "concat (fss @ fss') = frames @ frames'" "records_open P (tx_crypto tx) (cts @ cts') (fss @ fss')"
    using 1(6) 2(6) records_open_append [of P "tx_crypto tx" cts _ cts'] by fastforce
  then have opens: "\<exists>fss. concat fss = frames @ frames' \<and> records_open P (tx_crypto tx) (cts @ cts') fss"
    by blast
  have "carries P (tx_crypto tx) (concat (map pack_app_data (cts @ cts'))) (frames @ frames')
      (stream_after (length (cts @ cts')) (tx_crypto tx))"
    using carries_append [OF 1(5), of "concat (map pack_app_data cts')" frames'
        "stream_after (length cts') (tx_crypto ?tx1)"] 2(5) by simp
  then show ?thesis
    unfolding delivers_def using 1(1-4,7) 2(1-4,7) opens
    by (intro exI [of _ "cts @ cts'"] exI [of _ "frames @ frames'"] exI [of _ r2])
       (auto simp: bind_tx_def)
qed

lemma delivers_weaken:
  "delivers P tag Q tx items out st \<Longrightarrow> (\<And>n. Q n \<Longrightarrow> Q' n) \<Longrightarrow> delivers P tag Q' tx items out st"
  unfolding delivers_def by blast

text \<open>The hypotheses of the sending theorems: the laws of the primitives and payloads whose
  record length fits its 16-bit field.\<close>

definition aead_laws :: "crypto \<Rightarrow> bool" where
  "aead_laws P \<longleftrightarrow> aead_correct P \<and> aead_total P \<and> hmac_32 P"

definition items_fit :: "nat \<Rightarrow> frame_item list \<Rightarrow> bool" where
  "items_fit n items \<longleftrightarrow> (\<forall>it \<in> set items. length (snd (snd it)) \<le> n)"

lemma items_fit_simps [simp]:
  "items_fit n []" "items_fit n (it # items) \<longleftrightarrow> length (snd (snd it)) \<le> n \<and> items_fit n items"
  "items_fit n (xs @ ys) \<longleftrightarrow> items_fit n xs \<and> items_fit n ys"
  by (auto simp: items_fit_def)

lemma length_current_tag: "hmac_32 P \<Longrightarrow> length (generate_current_tag P a now) = 16"
  by (simp add: generate_current_tag_def compute_tag_def hmac_32_def)

lemma flush_record_ok:
  assumes laws: "aead_laws P" and tag: "length tag = 16" and ne: "items \<noteq> []"
    and fit: "items_fit 65494 items" and len: "sum_list (map item_len items) + pad < 65520"
  obtains c where "flush_record P tx tag items pad out r =
      (Ok (out @ pack_app_data c), tx\<lparr>tx_crypto := stream_after 1 (tx_crypto tx)\<rparr>,
       snd (record_plaintext tag pad items r))"
    "length c = sum_list (map item_len items) + pad + 16"
    "carries P (tx_crypto tx) (pack_app_data c) (sent_frames tag pad items) (stream_after 1 (tx_crypto tx))"
    "records_open P (tx_crypto tx) [c] [sent_frames tag pad items]" "records_fit [c]"
proof -
  let ?pt = "fst (record_plaintext tag pad items r)" and ?n = "sum_list (map item_len items) + pad"
  have pt: "length ?pt = ?n"
    using tag ne len by (intro length_record_plaintext) auto
  moreover have "?n < 64 * (2 ^ 32 - 1)"
    using len by simp
  ultimately obtain c where c: "chacha_encrypt P (tx_crypto tx) ?pt = (Ok c, stream_after 1 (tx_crypto tx))"
    using laws chacha_encrypt_total [of P ?pt "tx_crypto tx"]
    by (auto simp: aead_laws_def stream_after_1)
  then have lc: "length c = ?n + 16"
    using laws chacha.overhead [of P "tx_crypto tx" "tx_crypto tx" ?pt c] pt
    by (auto simp: aead_laws_def stream_sync_def)
  have small: "length (snd (snd it)) < 65536" if "it \<in> set items" for it
    using fit that unfolding items_fit_def by fastforce
  have "25 \<le> sum_list (map item_len items)"
    using ne by (cases items) (simp_all add: item_len_def wire_len_def)
  then have bounds: "17 \<le> length c" "length c < 65536"
    using len lc by auto
  have dec: "chacha_decrypt P (tx_crypto tx) c = (Ok ?pt, stream_after 1 (tx_crypto tx))"
    using chacha.opens [of P "tx_crypto tx" "tx_crypto tx" ?pt c] c laws by (auto simp: aead_laws_def stream_sync_def)
  have fs: "staged ?pt (sent_frames tag pad items)" "sent_frames tag pad items \<noteq> []"
    using staged_plaintext [OF tag small, of items] ne items_of_sent_frames [of tag pad items] by (simp, metis list.simps(8))
  have "records_open P (tx_crypto tx) [c] [sent_frames tag pad items]"
    using dec fs by (auto simp: records_open_def)
  with c lc carries_opened [OF dec fs bounds] bounds that show thesis
    by (simp add: flush_record_def split_beta Let_def)
qed

lemma flush_record_delivers:
  assumes laws: "aead_laws P" and tag: "length tag = 16" and ne: "items \<noteq> []"
    and fit: "items_fit 65494 items" and len: "sum_list (map item_len items) + pad < 65520"
  shows "delivers P tag (\<lambda>n. n = sum_list (map item_len items) + pad + 16) tx items out
    (flush_record P tx tag items pad out r)"
  using assms
proof (rule flush_record_ok [of P tag items pad tx out r])
  fix c
  assume "flush_record P tx tag items pad out r =
      (Ok (out @ pack_app_data c), tx\<lparr>tx_crypto := stream_after 1 (tx_crypto tx)\<rparr>,
       snd (record_plaintext tag pad items r))"
    "length c = sum_list (map item_len items) + pad + 16"
    "carries P (tx_crypto tx) (pack_app_data c) (sent_frames tag pad items) (stream_after 1 (tx_crypto tx))"
    "records_open P (tx_crypto tx) [c] [sent_frames tag pad items]" "records_fit [c]"
  then show ?thesis
    unfolding delivers_def
    by (intro exI [of _ "[c]"] exI [of _ "sent_frames tag pad items"]
        exI [of _ "snd (record_plaintext tag pad items r)"])
       (auto dest: sent_frames_tags intro!: exI [of _ "[sent_frames tag pad items]"])
qed

text \<open>The length of a record is one of the connection's boundaries.\<close>

definition shaped_len :: "pad_shaper \<Rightarrow> nat \<Rightarrow> bool" where
  "shaped_len s n \<longleftrightarrow> n \<in> set (ps_boundaries s)"

lemma shaped_pad_target:
  assumes "shaper_wf s" "n \<le> 16385"
  shows "n + shaped_pad s n + 16 = target_record_len s n"
    "target_record_len s n \<in> set (ps_boundaries s)" "n + shaped_pad s n \<le> 16385"
proof -
  note b = target_record_len_bounds [OF assms(1), of n]
  show *: "n + shaped_pad s n + 16 = target_record_len s n"
    using b assms(2) by (simp add: shaped_pad_def)
  show "n + shaped_pad s n \<le> 16385"
    using b(2) assms(2) * by simp
  have "16401 \<in> set (ps_boundaries s)"
    using assms(1) last_in_set [of "ps_boundaries s"] by (auto simp: shaper_wf_def)
  then show "target_record_len s n \<in> set (ps_boundaries s)"
    using target_record_len_least(1) [OF assms(1), of n] assms(2)
    by (cases "n = 16385") (auto simp: target_record_len_def)
qed

lemma item_len_le: "it \<in> set items \<Longrightarrow> item_len it \<le> sum_list (map item_len items)"
  by (simp add: member_le_sum_list)

lemma items_fit_of_sum: "sum_list (map item_len items) \<le> 16385 \<Longrightarrow> items_fit 16360 items"
  using item_len_le [of _ items] by (fastforce simp: items_fit_def item_len_def wire_len_def)

lemma items_fit_mono: "items_fit n items \<Longrightarrow> n \<le> m \<Longrightarrow> items_fit m items"
  unfolding items_fit_def by fastforce

lemma flush_shaped_delivers:
  assumes laws: "aead_laws P" and tag: "length tag = 16" and ne: "items \<noteq> []"
    and wf: "shaper_wf (tx_shaper tx)" and n: "n = sum_list (map item_len items)" "n \<le> 16385"
  shows "delivers P tag (shaped_len (tx_shaper tx)) tx items out (flush_shaped P tx tag items n out r)"
proof -
  note sp = shaped_pad_target [OF wf n(2)]
  have "items_fit 65494 items"
    using items_fit_mono [OF items_fit_of_sum] n by simp
  then have "delivers P tag (\<lambda>m. m = n + shaped_pad (tx_shaper tx) n + 16) tx items out
      (flush_shaped P tx tag items n out r)"
    unfolding flush_shaped_def n(1) using laws tag ne sp(3) n
    by (intro flush_record_delivers) auto
  then show ?thesis
    by (rule delivers_weaken) (use sp in \<open>simp add: shaped_len_def\<close>)
qed

text \<open>The batch loop: boundary-length records, and one unpadded record per oversize frame.\<close>

definition batch_record_len :: "pad_shaper \<Rightarrow> nat \<Rightarrow> nat \<Rightarrow> bool" where
  "batch_record_len s m n \<longleftrightarrow> shaped_len s n \<or> 16401 < n \<and> n \<le> m + 41"

lemma batch_loop_delivers:
  assumes laws: "aead_laws P" and tag: "length tag = 16"
  shows "\<lbrakk>shaper_wf (tx_shaper tx); items_fit m items; m \<le> 65494;
      batch_len = sum_list (map item_len batch); batch_len \<le> 16385\<rbrakk> \<Longrightarrow>
    delivers P tag (batch_record_len (tx_shaper tx) m) tx (batch @ items) out
      (batch_loop P tag tx batch batch_len out items r)"
proof (induction items arbitrary: tx batch batch_len out r)
  case Nil
  then show ?case
    using flush_shaped_delivers [OF laws tag, of batch tx batch_len out r]
    by (auto simp: delivers_none batch_record_len_def elim!: delivers_weaken)
next
  case (Cons item items)
  let ?Q = "batch_record_len (tx_shaper tx) m"
  have flush: "delivers P tag ?Q tx batch out (flush_shaped P tx tag batch batch_len out r)" if "batch \<noteq> []"
    using flush_shaped_delivers [OF laws tag that Cons.prems(1,4,5), of out r]
    by (rule delivers_weaken) (simp add: batch_record_len_def)
  consider (big) "16385 < item_len item" | (full) "item_len item \<le> 16385" "16385 < batch_len + item_len item"
    | (fits) "batch_len + item_len item \<le> 16385"
    by fastforce
  then show ?case
  proof cases
    case big
    have one: "delivers P tag ?Q tx2 [item] out2 (flush_record P tx2 tag [item] 0 out2 r2)"
      if "tx_shaper tx2 = tx_shaper tx" for tx2 out2 r2
      using flush_record_delivers [OF laws tag, of "[item]" 0 tx2 out2 r2] Cons.prems big
      by (auto simp: batch_record_len_def item_len_def wire_len_def elim!: delivers_weaken)
    have rest: "delivers P tag ?Q tx2 items out2 (batch_loop P tag tx2 [] 0 out2 items r2)"
      if "tx_shaper tx2 = tx_shaper tx" for tx2 out2 r2
      using Cons.IH [of tx2 0 "[]" out2 r2] Cons.prems that by simp
    have "delivers P tag ?Q tx1 ([item] @ items) out1
        (bind_tx (flush_record P tx1 tag [item] 0 out1 r1)
          (\<lambda>out2 tx2 r2. batch_loop P tag tx2 [] 0 out2 items r2))"
      if "tx_shaper tx1 = tx_shaper tx" for tx1 out1 r1
      by (rule delivers_bind [OF one [OF that]]) (simp add: rest that)
    then have tail: "delivers P tag ?Q tx1 (item # items) out1
        (bind_tx (flush_record P tx1 tag [item] 0 out1 r1)
          (\<lambda>out2 tx2 r2. batch_loop P tag tx2 [] 0 out2 items r2))"
      if "tx_shaper tx1 = tx_shaper tx" for tx1 out1 r1
      using that by simp
    have "(if batch \<noteq> [] then 0 else batch_len) = 0"
      using Cons.prems(4) by simp
    then have "batch_loop P tag tx batch batch_len out (item # items) r =
        bind_tx (if batch \<noteq> [] then flush_shaped P tx tag batch batch_len out r else (Ok out, tx, r))
          (\<lambda>out1 tx1 r1. bind_tx (flush_record P tx1 tag [item] 0 out1 r1)
            (\<lambda>out2 tx2 r2. batch_loop P tag tx2 [] 0 out2 items r2))"
      using big by simp
    moreover have "delivers P tag ?Q tx batch out
        (if batch \<noteq> [] then flush_shaped P tx tag batch batch_len out r else (Ok out, tx, r))"
      using flush by (auto simp: delivers_none)
    ultimately show ?thesis
      using delivers_bind [OF _ tail] by simp
  next
    case full
    then have ne: "batch \<noteq> []"
      using Cons.prems(4) by auto
    have "delivers P tag ?Q tx1 ([item] @ items) out1
        (batch_loop P tag tx1 [item] (item_len item) out1 items r1)"
      if "tx_shaper tx1 = tx_shaper tx" for tx1 out1 r1
      using Cons.IH [of tx1 "item_len item" "[item]" out1 r1] Cons.prems that full by simp
    then have "delivers P tag ?Q tx (batch @ ([item] @ items)) out
        (bind_tx (flush_shaped P tx tag batch batch_len out r)
          (\<lambda>out1 tx1 r1. batch_loop P tag tx1 [item] (item_len item) out1 items r1))"
      by (rule delivers_bind [OF flush [OF ne]])
    then show ?thesis
      using full by simp
  next
    case fits
    then show ?thesis
      using Cons.IH [of tx "batch_len + item_len item" "batch @ [item]" out r] Cons.prems by simp
  qed
qed

lemma encode_batch_delivers:
  assumes "aead_laws P" "shaper_wf (tx_shaper tx)" "items_fit m items" "m \<le> 65494"
  shows "delivers P (generate_current_tag P (tx_auth tx) now) (batch_record_len (tx_shaper tx) m)
    tx items [] (encode_batch P now tx items r)"
proof -
  have "length (generate_current_tag P (tx_auth tx) now) = 16"
    using assms(1) by (simp add: aead_laws_def length_current_tag)
  from batch_loop_delivers [OF assms(1) this assms(2,3,4), of 0 "[]" "[]" r] show ?thesis
    by (cases "items = []") (simp_all add: encode_batch_def delivers_none)
qed

lemma drain_idle:
  assumes "rx_staging rx = []"
  shows "drain (decode_inbound P) rx [] = Some ([], Ok (), rx, [])"
proof -
  have "\<not> record_can_parse []"
    by (simp add: record_can_parse_def)
  with assms show ?thesis
    by (simp add: drain.simps decode_inbound_parseless decode_loop_early)
qed

lemma carries_delivered:
  assumes "carries P cs wire frames cs'" "rx_crypto rx = cs" "rx_staging rx = []"
  shows "drain (decode_inbound P) rx wire = Some (frames, Ok (), rx\<lparr>rx_crypto := cs'\<rparr>, [])"
  using assms drain_idle [of "rx\<lparr>rx_crypto := cs'\<rparr>"]
  by (auto simp: carries_def dest!: spec [of _ rx] spec [of _ "[]"])

lemma encode_cover_carries:
  assumes "aead_laws P"
  obtains c f r' where "encode_cover P now tx target r =
      (Ok (pack_app_data c), tx\<lparr>tx_crypto := stream_after 1 (tx_crypto tx)\<rparr>, r')"
    "length c = max 41 (min 16401 target)" "item_of_frame f = (0, Cover, [])"
    "carries P (tx_crypto tx) (pack_app_data c) [f] (stream_after 1 (tx_crypto tx))"
    "records_open P (tx_crypto tx) [c] [[f]]"
proof -
  let ?tag = "generate_current_tag P (tx_auth tx) now"
  define pad where "pad = max 41 (min 16401 target) - 41"
  have tag: "length ?tag = 16"
    using assms by (simp add: aead_laws_def length_current_tag)
  have fit: "items_fit 65494 [(0, Cover, [])]" "sum_list (map item_len [(0, Cover, [])]) + pad < 65520"
    by (simp_all add: item_len_def wire_len_def pad_def)
  obtain c where c: "flush_record P tx ?tag [(0, Cover, [])] pad [] r =
      (Ok ([] @ pack_app_data c), tx\<lparr>tx_crypto := stream_after 1 (tx_crypto tx)\<rparr>,
       snd (record_plaintext ?tag pad [(0, Cover, [])] r))"
    "length c = sum_list (map item_len [(0, Cover, [])]) + pad + 16"
    "carries P (tx_crypto tx) (pack_app_data c) (sent_frames ?tag pad [(0, Cover, [])])
       (stream_after 1 (tx_crypto tx))"
    "records_open P (tx_crypto tx) [c] [sent_frames ?tag pad [(0, Cover, [])]]"
    by (rule flush_record_ok [OF assms tag _ fit]) simp
  have enc: "encode_cover P now tx target r =
      (Ok (pack_app_data c), tx\<lparr>tx_crypto := stream_after 1 (tx_crypto tx)\<rparr>,
       snd (record_plaintext ?tag pad [(0, Cover, [])] r))"
    using c(1) by (simp add: encode_cover_def empty_cover_record_def pad_def)
  obtain f where f: "sent_frames ?tag pad [(0, Cover, [])] = [f]" "item_of_frame f = (0, Cover, [])"
    using items_of_sent_frames [of ?tag pad "[(0, Cover, [])]"] by (auto simp: item_of_frame_def sent_header_def)
  show thesis
    by (rule that [OF enc _ f(2)]) (use c(2-4) f(1) in \<open>simp_all add: item_len_def wire_len_def pad_def\<close>)
qed

section \<open>Properties of the codec\<close>

text \<open>Property C7 (batch_roundtrip): encoding a batch always succeeds, and a receiver in step with
  the sender that reads the bytes in whatever pieces they arrive gets exactly the frames of
  the batch, in order, each with the sender's current tag, and no error.\<close>

theorem batch_roundtrip:
  assumes "aead_laws P" and "shaper_wf (tx_shaper tx)" and "items_fit 65494 items"
    and "rx_crypto rx = tx_crypto tx" and "rx_staging rx = []" and "\<And>bs. concat (chunks bs) = bs"
  shows "\<exists>out tx' r' frames. encode_batch P now tx items r = (Ok out, tx', r') \<and>
    map item_of_frame frames = items \<and>
    map (fh_auth_tag \<circ> fr_header) frames = map (\<lambda>_. generate_current_tag P (tx_auth tx) now) items \<and>
    map_option delivered (feed (decode_inbound P) rx [] (chunks out)) = Some (frames, Ok ())"
proof -
  obtain cts frames r' where *: "encode_batch P now tx items r = (Ok (concat (map pack_app_data cts)),
        tx\<lparr>tx_crypto := stream_after (length cts) (tx_crypto tx)\<rparr>, r')"
      "map item_of_frame frames = items"
      "\<forall>f \<in> set frames. fh_auth_tag (fr_header f) = generate_current_tag P (tx_auth tx) now"
      "carries P (tx_crypto tx) (concat (map pack_app_data cts)) frames
         (stream_after (length cts) (tx_crypto tx))"
    using encode_batch_delivers [OF assms(1-3), of now r] unfolding delivers_def by auto
  have "map_option delivered (feed (decode_inbound P) rx [] (chunks (concat (map pack_app_data cts)))) =
      Some (frames, Ok ())"
    using carries_delivered [OF *(4) assms(4,5)] assms(6) by (simp add: inbound.feed_chunks)
  moreover have "map (fh_auth_tag \<circ> fr_header) frames = map (\<lambda>_. generate_current_tag P (tx_auth tx) now) items"
    using *(2,3) by (auto simp: list_eq_iff_nth_eq)
  ultimately show ?thesis
    using *(1,2) by blast
qed

lemma toy_aead_laws: "aead_laws toy_crypto"
  by (simp add: aead_laws_def toy_crypto_laws)

definition demo_tx :: tx_codec where
  "demo_tx = tx_codec_new (chacha_stream_new (replicate 32 5) (replicate 12 9)) (session_auth_new [1])
     \<lparr>ps_boundaries = [64, 100, 16401]\<rparr>"

definition demo_rx :: rx_codec where
  "demo_rx = rx_codec_new (tx_crypto demo_tx) (session_auth_new [1]) []"

lemma demo_wf [simp]: "shaper_wf (tx_shaper demo_tx)" "rx_crypto demo_rx = tx_crypto demo_tx"
    "rx_staging demo_rx = []" "ps_boundaries (tx_shaper demo_tx) = [64, 100, 16401]"
  by (simp_all add: demo_tx_def demo_rx_def tx_codec_new_def rx_codec_new_def shaper_wf_def)

lemma batch_roundtrip_witness:
  "\<exists>out tx' r' frames. encode_batch toy_crypto 600 demo_tx [(1, Data, [7, 8]), (2, Close, [])] (\<lambda>_. 3) =
      (Ok out, tx', r') \<and>
    map item_of_frame frames = [(1, Data, [7, 8]), (2, Close, [])] \<and>
    map (fh_auth_tag \<circ> fr_header) frames =
      map (\<lambda>_. generate_current_tag toy_crypto (tx_auth demo_tx) 600) [(1 :: u32, Data, [7, 8 :: u8]), (2, Close, [])] \<and>
    map_option delivered (feed (decode_inbound toy_crypto) demo_rx [] (map (\<lambda>b. [b]) out)) =
      Some (frames, Ok ())"
  by (rule batch_roundtrip [OF toy_aead_laws, where chunks = "map (\<lambda>b. [b])"]) simp_all

text \<open>
  What an observer sees of a batch with frames of any size: a frame that is too long for a
  record is a record of its own, of its own length; everything else is shaped.
\<close>

definition oversize :: "frame_item \<Rightarrow> bool" where
  "oversize it \<longleftrightarrow> max_record_plaintext < item_len it"

definition observed_lengths :: "pad_shaper \<Rightarrow> frame_item list \<Rightarrow> nat list \<Rightarrow> bool" where
  "observed_lengths s items ns \<longleftrightarrow>
     filter (\<lambda>n. max_record_len < n) ns = map (\<lambda>it. item_len it + 16) (filter oversize items) \<and>
     (\<forall>n \<in> set ns. n \<le> max_record_len \<longrightarrow> n \<in> set (ps_boundaries s))"

lemma observed_lengths_simps [simp]:
  "observed_lengths s [] []"
  "observed_lengths s xs ns \<Longrightarrow> observed_lengths s ys ms \<Longrightarrow> observed_lengths s (xs @ ys) (ns @ ms)"
  by (auto simp: observed_lengths_def)

definition emits :: "frame_item list \<Rightarrow> tx_codec \<Rightarrow> bytes \<Rightarrow> bytes tx_step \<Rightarrow> bool" where
  "emits items tx out st \<longleftrightarrow>
     (\<exists>cts r'. st = (Ok (out @ concat (map pack_app_data cts)),
                     tx\<lparr>tx_crypto := stream_after (length cts) (tx_crypto tx)\<rparr>, r') \<and>
        observed_lengths (tx_shaper tx) items (map length cts))"

lemma emits_none [simp]: "emits [] tx out (Ok out, tx, r)"
  unfolding emits_def by (rule exI [of _ "[]"]) simp

lemma emits_bind:
  assumes "emits items tx out st" "\<And>out1 tx1 r1. tx_shaper tx1 = tx_shaper tx \<Longrightarrow> emits items' tx1 out1 (k out1 tx1 r1)"
  shows "emits (items @ items') tx out (bind_tx st k)"
proof -
  obtain cts r1 where 1: "st = (Ok (out @ concat (map pack_app_data cts)),
      tx\<lparr>tx_crypto := stream_after (length cts) (tx_crypto tx)\<rparr>, r1)"
    "observed_lengths (tx_shaper tx) items (map length cts)"
    using assms(1) unfolding emits_def by blast
  let ?tx1 = "tx\<lparr>tx_crypto := stream_after (length cts) (tx_crypto tx)\<rparr>"
  have "emits items' ?tx1 (out @ concat (map pack_app_data cts)) (k (out @ concat (map pack_app_data cts)) ?tx1 r1)"
    by (rule assms(2)) simp
  then obtain cts' r2 where 2: "k (out @ concat (map pack_app_data cts)) ?tx1 r1 =
      (Ok ((out @ concat (map pack_app_data cts)) @ concat (map pack_app_data cts')),
       ?tx1\<lparr>tx_crypto := stream_after (length cts') (tx_crypto ?tx1)\<rparr>, r2)"
    "observed_lengths (tx_shaper tx) items' (map length cts')"
    unfolding emits_def by auto
  then show ?thesis
    using 1 unfolding emits_def
    by (intro exI [of _ "cts @ cts'"] exI [of _ r2]) (simp add: bind_tx_def)
qed

text \<open>One record, whatever the frames in it.\<close>

lemma flush_record_emits:
  assumes laws: "aead_laws P" and tag: "length tag = 16" and ne: "frames \<noteq> []" and pad: "pad < 65536"
    and len: "sum_list (map item_len frames) + pad < 64 * (2 ^ 32 - 1)"
    and seen: "observed_lengths (tx_shaper tx) items [sum_list (map item_len frames) + pad + 16]"
  shows "emits items tx out (flush_record P tx tag frames pad out r)"
proof -
  let ?pt = "fst (record_plaintext tag pad frames r)"
  have pt: "length ?pt = sum_list (map item_len frames) + pad"
    using tag ne pad by (intro length_record_plaintext) auto
  then obtain c where c: "chacha_encrypt P (tx_crypto tx) ?pt = (Ok c, stream_after 1 (tx_crypto tx))"
    using laws len chacha_encrypt_total [of P ?pt "tx_crypto tx"] by (auto simp: aead_laws_def stream_after_1)
  then have "length c = length ?pt + 16"
    using laws chacha.overhead [of P "tx_crypto tx" "tx_crypto tx" ?pt c] by (auto simp: aead_laws_def stream_sync_def)
  with c pt seen show ?thesis
    unfolding emits_def by (intro exI [of _ "[c]"]) (simp add: flush_record_def split_beta Let_def)
qed

lemma small_not_oversize: "sum_list (map item_len items) \<le> 16385 \<Longrightarrow> filter oversize items = []"
  using item_len_le [of _ items] by (fastforce simp: filter_empty_conv oversize_def)

lemma flush_shaped_emits:
  assumes laws: "aead_laws P" and tag: "length tag = 16" and ne: "items \<noteq> []"
    and wf: "shaper_wf (tx_shaper tx)" and n: "n = sum_list (map item_len items)" "n \<le> 16385"
  shows "emits items tx out (flush_shaped P tx tag items n out r)"
  unfolding flush_shaped_def
proof (rule flush_record_emits [OF laws tag ne])
  note sp = shaped_pad_target [OF wf n(2)]
  show "shaped_pad (tx_shaper tx) n < 65536" "sum_list (map item_len items) + shaped_pad (tx_shaper tx) n < 64 * (2 ^ 32 - 1)"
    using sp(3) n(1) by simp_all
  have "sum_list (map item_len items) + shaped_pad (tx_shaper tx) n + 16 \<le> 16401"
    using sp(3) n(1) by simp
  then show "observed_lengths (tx_shaper tx) items [sum_list (map item_len items) + shaped_pad (tx_shaper tx) n + 16]"
    using sp(1,2) n small_not_oversize [of items] by (simp add: observed_lengths_def)
qed

lemma flush_oversize_emits:
  assumes "aead_laws P" "length tag = 16" "oversize it" "item_len it < 64 * (2 ^ 32 - 1)"
  shows "emits [it] tx out (flush_record P tx tag [it] 0 out r)"
  using assms by (intro flush_record_emits) (simp_all add: observed_lengths_def oversize_def)

lemma batch_loop_emits:
  assumes laws: "aead_laws P" and tag: "length tag = 16"
  shows "\<lbrakk>shaper_wf (tx_shaper tx); \<forall>it \<in> set items. item_len it < 64 * (2 ^ 32 - 1);
      batch_len = sum_list (map item_len batch); batch_len \<le> 16385\<rbrakk> \<Longrightarrow>
    emits (batch @ items) tx out (batch_loop P tag tx batch batch_len out items r)"
proof (induction items arbitrary: tx batch batch_len out r)
  case Nil
  then show ?case
    using flush_shaped_emits [OF laws tag, of batch tx batch_len out r] by auto
next
  case (Cons item items)
  have flush: "emits batch tx out (flush_shaped P tx tag batch batch_len out r)" if "batch \<noteq> []"
    by (rule flush_shaped_emits [OF laws tag that Cons.prems(1,3,4)])
  have go: "emits (b @ items) tx1 out1 (batch_loop P tag tx1 b n out1 items r1)"
    if "tx_shaper tx1 = tx_shaper tx" "n = sum_list (map item_len b)" "n \<le> 16385" for tx1 b n out1 r1
    using Cons.IH [of tx1 n b out1 r1] Cons.prems(1,2) that by simp
  consider (big) "oversize item" | (full) "\<not> oversize item" "16385 < batch_len + item_len item"
    | (fits) "batch_len + item_len item \<le> 16385"
    by fastforce
  then show ?case
  proof cases
    case big
    have one: "emits (item # items) tx1 out1 (bind_tx (flush_record P tx1 tag [item] 0 out1 r1)
          (\<lambda>out2 tx2 r2. batch_loop P tag tx2 [] 0 out2 items r2))"
      if "tx_shaper tx1 = tx_shaper tx" for tx1 out1 r1
    proof -
      have "emits ([item] @ items) tx1 out1 (bind_tx (flush_record P tx1 tag [item] 0 out1 r1)
          (\<lambda>out2 tx2 r2. batch_loop P tag tx2 [] 0 out2 items r2))"
        using Cons.prems(2) that go [of _ 0 "[]"]
        by (intro emits_bind [OF flush_oversize_emits [OF laws tag big]]) simp_all
      then show ?thesis
        by simp
    qed
    have "emits batch tx out (if batch \<noteq> [] then flush_shaped P tx tag batch batch_len out r else (Ok out, tx, r))"
      using flush by auto
    then have "emits (batch @ item # items) tx out
        (bind_tx (if batch \<noteq> [] then flush_shaped P tx tag batch batch_len out r else (Ok out, tx, r))
          (\<lambda>out1 tx1 r1. bind_tx (flush_record P tx1 tag [item] 0 out1 r1)
            (\<lambda>out2 tx2 r2. batch_loop P tag tx2 [] 0 out2 items r2)))"
      by (rule emits_bind) (rule one)
    moreover have "(if batch \<noteq> [] then 0 else batch_len) = 0"
      using Cons.prems(3) by simp
    ultimately show ?thesis
      using big by (simp add: oversize_def)
  next
    case full
    then have ne: "batch \<noteq> []"
      using Cons.prems(3) by (auto simp: oversize_def)
    have "emits ([item] @ items) tx1 out1 (batch_loop P tag tx1 [item] (item_len item) out1 items r1)"
      if "tx_shaper tx1 = tx_shaper tx" for tx1 out1 r1
      using full(1) that by (intro go) (simp_all add: oversize_def)
    from emits_bind [OF flush [OF ne] this] show ?thesis
      using full by (simp add: oversize_def)
  next
    case fits
    then show ?thesis
      using go [of tx "batch_len + item_len item" "batch @ [item]" out r] Cons.prems(3,4)
        Cons.IH [of tx "batch_len + item_len item" "batch @ [item]" out r] Cons.prems
      by simp
  qed
qed

text \<open>Property C28 (batch_record_lengths): encoding frames of any size (below the limit of the cipher)
  succeeds and sends application-data records, with one nonce for each.  The records longer than
  a TLS record may be are exactly the frames that do not fit one, each alone and unpadded, so
  16 bytes longer than the frame, in order; the length of every other record is a boundary of
  the connection's shaper.  A batch whose frames all fit thus shows boundaries only.  (The length
  field in a record's header holds these lengths up to payloads of 65494 bytes; beyond that it
  is truncated, \<open>record_oversize_truncates\<close>.)\<close>

theorem batch_record_lengths:
  assumes "aead_laws P" and "shaper_wf (tx_shaper tx)" and "\<forall>it \<in> set items. item_len it < 64 * (2 ^ 32 - 1)"
  shows "\<exists>cts r'. encode_batch P now tx items r =
      (Ok (concat (map pack_app_data cts)),
       tx\<lparr>tx_crypto := stream_after (length cts) (tx_crypto tx)\<rparr>, r') \<and>
    filter (\<lambda>n. max_record_len < n) (map length cts) =
      map (\<lambda>it. item_len it + 16) (filter (\<lambda>it. max_record_plaintext < item_len it) items) \<and>
    (\<forall>n \<in> set (map length cts). n \<le> max_record_len \<longrightarrow> n \<in> set (ps_boundaries (tx_shaper tx))) \<and>
    (items_fit 16360 items \<longrightarrow> set (map length cts) \<subseteq> set (ps_boundaries (tx_shaper tx)))"
proof -
  have "length (generate_current_tag P (tx_auth tx) now) = 16"
    using assms(1) by (simp add: aead_laws_def length_current_tag)
  from batch_loop_emits [OF assms(1) this assms(2,3), of 0 "[]" "[]" r]
  have "emits items tx [] (encode_batch P now tx items r)"
    by (cases "items = []") (simp_all add: encode_batch_def)
  then obtain cts r' where *: "encode_batch P now tx items r =
      (Ok (concat (map pack_app_data cts)), tx\<lparr>tx_crypto := stream_after (length cts) (tx_crypto tx)\<rparr>, r')"
    "observed_lengths (tx_shaper tx) items (map length cts)"
    by (auto simp: emits_def)
  have over: "oversize = (\<lambda>it. 16385 < item_len it)"
    by (simp add: oversize_def fun_eq_iff)
  have "filter oversize items = []" if "items_fit 16360 items"
    using that by (auto simp: filter_empty_conv oversize_def items_fit_def item_len_def wire_len_def not_less)
  with * show ?thesis
    by (intro exI [of _ cts] exI [of _ r'])
       (auto simp: observed_lengths_def over filter_empty_conv not_less simp flip: filter_map)
qed

lemma batch_record_lengths_witness:
  "\<exists>cts r'. encode_batch toy_crypto 600 demo_tx [(1, Data, [7, 8]), (1, Data, replicate 20000 7)] (\<lambda>_. 3) =
      (Ok (concat (map pack_app_data cts)),
       demo_tx\<lparr>tx_crypto := stream_after (length cts) (tx_crypto demo_tx)\<rparr>, r') \<and>
    filter (\<lambda>n. max_record_len < n) (map length cts) = [20041] \<and>
    (\<forall>n \<in> set (map length cts). n \<le> max_record_len \<longrightarrow> n \<in> {64, 100, 16401})"
  using batch_record_lengths [OF toy_aead_laws demo_wf(1), of "[(1, Data, [7, 8]), (1, Data, replicate 20000 7)]" 600 "\<lambda>_. 3"]
  by (simp add: item_len_def wire_len_def)

text \<open>A cover frame is one record of exactly the asked length, clamped
  to 41..16401, and the receiver gets one empty cover frame from it.\<close>

theorem cover_exact:
  assumes "aead_laws P" and "rx_crypto rx = tx_crypto tx" and "rx_staging rx = []"
  shows "\<exists>c tx' r' f. encode_cover P now tx target r = (Ok (pack_app_data c), tx', r') \<and>
    length c = max 41 (min 16401 target) \<and> item_of_frame f = (0, Cover, []) \<and>
    drain (decode_inbound P) rx (pack_app_data c) =
      Some ([f], Ok (), rx\<lparr>rx_crypto := tx_crypto tx'\<rparr>, [])"
proof -
  obtain c f r' where c: "encode_cover P now tx target r =
      (Ok (pack_app_data c), tx\<lparr>tx_crypto := stream_after 1 (tx_crypto tx)\<rparr>, r')"
    "length c = max 41 (min 16401 target)" "item_of_frame f = (0, Cover, [])"
    "carries P (tx_crypto tx) (pack_app_data c) [f] (stream_after 1 (tx_crypto tx))"
    by (rule encode_cover_carries [OF assms(1)])
  with carries_delivered [OF c(4) assms(2,3)] show ?thesis
    by (intro exI [of _ c] exI [of _ "tx\<lparr>tx_crypto := stream_after 1 (tx_crypto tx)\<rparr>"]
        exI [of _ r'] exI [of _ f]) simp
qed

lemma cover_exact_witness:
  "\<exists>c tx' r' f. encode_cover toy_crypto 600 demo_tx 500 (\<lambda>_. 3) = (Ok (pack_app_data c), tx', r') \<and>
    length c = max 41 (min 16401 500) \<and> item_of_frame f = (0, Cover, []) \<and>
    drain (decode_inbound toy_crypto) demo_rx (pack_app_data c) =
      Some ([f], Ok (), demo_rx\<lparr>rx_crypto := tx_crypto tx'\<rparr>, [])"
  by (rule cover_exact [OF toy_aead_laws]) simp_all

section \<open>Errors of the receiver\<close>

lemma unpack_app_data_no_panic: "fst (unpack_app_data bs) \<noteq> Panic"
proof (cases "record_can_parse bs")
  case True
  then show ?thesis
    by (cases rule: record_parse_cases) (auto simp: unpack_app_data_def start_process_def handle_app_data_def)
qed (simp add: unpack_app_data_def start_process_def record_parse_early)

lemma try_parse_frame_cases:
  obtains (none) "try_parse_frame rx = (Ok None, rx)"
  | (some) f rx' where "try_parse_frame rx = (Ok (Some f), rx')"
  | (err) "try_parse_frame rx = (Err frame_parse_failed, rx\<lparr>rx_staging := []\<rparr>)"
proof (cases "frame_can_parse (rx_staging rx)")
  case True
  then show thesis
    by (cases rule: frame_parse_cases) (use some err in \<open>auto simp: try_parse_frame_def\<close>)
qed (use none try_parse_frame_None in blast)

lemma try_parse_frame_from: "try_parse_frame rx = (Ok (Some f), rx') \<Longrightarrow>
    frame_parse (rx_staging rx) = (Ok (Some f), rx_staging rx')"
  by (auto simp: try_parse_frame_def split: prod.splits result.splits)

lemma chacha_decrypt_no_panic: "fst (chacha_decrypt P s c) \<noteq> Panic"
  by (auto simp: chacha_decrypt_def Let_def split_beta split: option.splits)

text \<open>
  What one call of the receiver may do with a buffer.  In every case it leaves a suffix of the
  buffer.  It waits only if neither a frame is staged nor a record is complete; a frame is one
  cut from the front of what was staged; an error of the codec itself leaves nothing staged, and any
  other error is the one the record layer gives at the place where reading stopped.
\<close>

definition rx_outcome :: "bytes \<Rightarrow> (tls_error, frame option) result \<times> rx_codec \<times> bytes \<Rightarrow> bool" where
  "rx_outcome buffer res =
     (case res of
        (Ok None, rx', rest) \<Rightarrow>
          suffix rest buffer \<and> \<not> frame_can_parse (rx_staging rx') \<and> \<not> record_can_parse rest
      | (Ok (Some f), rx', rest) \<Rightarrow>
          suffix rest buffer \<and> (\<exists>staged. frame_parse staged = (Ok (Some f), rx_staging rx'))
      | (Err e, rx', rest) \<Rightarrow>
          suffix rest buffer \<and>
          ((e = aead_decrypt_failed \<or> e = frame_parse_failed) \<and> rx_staging rx' = [] \<or>
           (\<exists>b. suffix b buffer \<and> unpack_app_data b = (Err e, rest)))
      | (Panic, rx', rest) \<Rightarrow> False)"

lemma rx_outcome_suffix: "rx_outcome b res \<Longrightarrow> suffix b buffer \<Longrightarrow> rx_outcome buffer res"
  by (auto simp: rx_outcome_def split: prod.splits result.splits option.splits intro: suffix_order.trans)

lemma decode_loop_outcome: "\<not> frame_can_parse (rx_staging rx) \<Longrightarrow> rx_outcome buffer (decode_loop P rx buffer)"
proof (induction P rx buffer rule: decode_loop.induct)
  case (1 P rx buffer)
  obtain x b where u: "unpack_app_data buffer = (x, b)"
    by fastforce
  then have b: "suffix b buffer"
    using unpack_app_data_suffix [of buffer] by simp
  show ?case
  proof (cases "\<exists>a. x = Ok (Some a)")
    case True
    then obtain a where a: "x = Ok (Some a)" ..
    obtain q cs where q: "chacha_decrypt P (rx_crypto rx) (ad_payload a) = (q, cs)"
      by fastforce
    show ?thesis
    proof (cases q)
      case (Ok p)
      let ?rx1 = "rx\<lparr>rx_crypto := cs, rx_staging := rx_staging rx @ p\<rparr>"
      show ?thesis
      proof (cases rule: try_parse_frame_cases [of ?rx1])
        case none
        then have "decode_loop P rx buffer = decode_loop P ?rx1 b"
          using u a q Ok by (simp add: decode_loop.simps [of P rx])
        moreover have "\<not> frame_can_parse (rx_staging ?rx1)"
          using none try_parse_frame_None by blast
        ultimately show ?thesis
          using 1(1) [OF u [symmetric] a refl q [symmetric] Ok none [symmetric] refl refl] rx_outcome_suffix b by simp
      next
        case (some f rx')
        from try_parse_frame_from [OF some] show ?thesis
          using u a q Ok some b by (auto simp: decode_loop.simps [of P rx] rx_outcome_def)
      qed (use u a q Ok b in \<open>simp_all add: decode_loop.simps [of P rx] rx_outcome_def\<close>)
    next
      case (Err e)
      with u a q b show ?thesis
        by (simp add: decode_loop.simps [of P rx] rx_outcome_def)
    next
      case Panic
      with q chacha_decrypt_no_panic [of P "rx_crypto rx" "ad_payload a"] show ?thesis
        by simp
    qed
  next
    case False
    have "x \<noteq> Panic"
      using unpack_app_data_no_panic [of buffer] u by simp
    moreover have "x = Ok None \<Longrightarrow> b = buffer \<and> \<not> record_can_parse buffer"
      using u unpack_app_data_early by blast
    ultimately show ?thesis
      using u b False 1(2)
      by (auto simp: decode_loop.simps [of P rx] rx_outcome_def split: result.splits option.splits
          intro!: exI [of _ buffer])
  qed
qed

text \<open>Property C22 (decode_outcome): whatever bytes are in the buffer, reading a frame never panics and
  never eats bytes it does not have to; it asks for more only when no frame is staged and no
  record is complete; a frame it returns is the first of what is staged; when the codec itself fails (authentication or
  an unknown frame type) nothing stays staged, and every other error is the one the record layer
  reports at the place where reading stopped.\<close>

theorem decode_outcome:
  "case decode_inbound P rx buffer of
     (Ok None, rx', rest) \<Rightarrow>
       suffix rest buffer \<and> \<not> frame_can_parse (rx_staging rx') \<and> \<not> record_can_parse rest
   | (Ok (Some f), rx', rest) \<Rightarrow>
       suffix rest buffer \<and> (\<exists>staged. frame_parse staged = (Ok (Some f), rx_staging rx'))
   | (Err e, rx', rest) \<Rightarrow>
       suffix rest buffer \<and>
       ((e = aead_decrypt_failed \<or> e = frame_parse_failed) \<and> rx_staging rx' = [] \<or>
        (\<exists>b. suffix b buffer \<and> unpack_app_data b = (Err e, rest)))
   | (Panic, rx', rest) \<Rightarrow> False"
proof -
  have "rx_outcome buffer (decode_inbound P rx buffer)"
  proof (cases rule: try_parse_frame_cases [of rx])
    case none
    then have "\<not> frame_can_parse (rx_staging rx)"
      using try_parse_frame_None by blast
    then show ?thesis
      using none decode_loop_outcome by (simp add: decode_inbound_eq)
  next
    case (some f rx')
    then show ?thesis
      using try_parse_frame_from by (auto simp: decode_inbound_eq rx_outcome_def)
  next
    case err
    then show ?thesis
      by (simp add: decode_inbound_eq rx_outcome_def)
  qed
  then show ?thesis
    by (simp only: rx_outcome_def)
qed

text \<open>Property C24 (forged_record_dropped): a record that does not authenticate is consumed, reported
  with the action \<open>Drop\<close>, clears the staging buffer and does not move the nonce counter.\<close>

theorem forged_record_dropped:
  assumes "rx_staging rx = []" and "17 \<le> length c" and "length c < 65536"
    and "aead_open P (cs_key (rx_crypto rx)) (fst (next_nonce (cs_state (rx_crypto rx))))
           (fst (next_nonce (cs_state (rx_crypto rx)))) c = None"
  shows "decode_inbound P rx (pack_app_data c @ rest) = (Err aead_decrypt_failed, rx, rest) \<and>
    err_action aead_decrypt_failed = Drop"
proof -
  have "chacha_decrypt P (rx_crypto rx) c = (Err (), rx_crypto rx)"
    using assms(4) by (simp add: chacha_decrypt_def next_nonce_def)
  then have "decode_inbound P rx (pack_app_data c @ rest) =
      (Err aead_decrypt_failed, rx\<lparr>rx_crypto := rx_crypto rx, rx_staging := []\<rparr>, rest)"
    using assms(1-3) by (simp add: decode_inbound_parseless decode_loop.simps unpack_pack_app_data)
  then show ?thesis
    using assms(1) by (simp add: aead_decrypt_failed_def tls_error_new_def)
qed

lemma forged_record_dropped_witness:
  "decode_inbound toy_crypto demo_rx (pack_app_data (replicate 40 1) @ [9]) =
     (Err aead_decrypt_failed, demo_rx, [9]) \<and> err_action aead_decrypt_failed = Drop"
proof (rule forged_record_dropped)
  show "aead_open toy_crypto (cs_key (rx_crypto demo_rx)) (fst (next_nonce (cs_state (rx_crypto demo_rx))))
      (fst (next_nonce (cs_state (rx_crypto demo_rx)))) (replicate 40 1) = None"
    by (rule toy_open_None)
       (simp_all add: demo_rx_def demo_tx_def rx_codec_new_def tx_codec_new_def chacha_stream_new_def
         nonce_state_new_def next_nonce_def xor_counter_layout be64_def nth_append)
qed simp_all

lemma try_parse_frame_auth:
  "try_parse_frame (rx\<lparr>rx_auth := a\<rparr>) = apsnd (\<lambda>rx'. rx'\<lparr>rx_auth := a\<rparr>) (try_parse_frame rx)"
  by (simp add: try_parse_frame_def split: prod.splits result.splits)

lemma decode_loop_auth:
  "decode_loop P (rx\<lparr>rx_auth := a\<rparr>) buffer =
     apsnd (apfst (\<lambda>rx'. rx'\<lparr>rx_auth := a\<rparr>)) (decode_loop P rx buffer)"
proof (induction P rx buffer rule: decode_loop.induct)
  case (1 P rx buffer)
  have "try_parse_frame (rx\<lparr>rx_auth := a, rx_crypto := cs, rx_staging := st\<rparr>) =
      apsnd (\<lambda>rx'. rx'\<lparr>rx_auth := a\<rparr>) (try_parse_frame (rx\<lparr>rx_crypto := cs, rx_staging := st\<rparr>))" for cs st
    by (simp add: try_parse_frame_def split: prod.splits result.splits)
  with 1 show ?case
    by (simp add: decode_loop.simps [of P rx] decode_loop.simps [of P "rx\<lparr>rx_auth := a\<rparr>"]
        split: prod.splits result.splits option.splits)
qed

text \<open>What the receiver does with a stream does not depend on
  its \<open>SessionAuth\<close> at all: the tag in the frame header is never checked after the record has
  been decrypted.\<close>

theorem inbound_ignores_auth:
  "decode_inbound P (rx\<lparr>rx_auth := a\<rparr>) buffer =
     apsnd (apfst (\<lambda>rx'. rx'\<lparr>rx_auth := a\<rparr>)) (decode_inbound P rx buffer)"
  by (simp add: decode_inbound_eq try_parse_frame_auth decode_loop_auth
      split: prod.splits result.splits option.splits)

section \<open>Two codecs with mirrored keys\<close>

text \<open>When the write keys of one side are the read keys of the
  other, the codecs made from the two ciphers are in step in both directions, with nothing
  staged and the same tag key.\<close>

theorem mirrored_codecs:
  "case (codec_split (codec_new (chacha_set_keys c1 k iv k' iv') auth s1),
         codec_split (codec_new (chacha_set_keys c2 k' iv' k iv) auth s2)) of
     (Some (rx1, tx1), Some (rx2, tx2)) \<Rightarrow>
        rx_crypto rx2 = tx_crypto tx1 \<and> rx_crypto rx1 = tx_crypto tx2 \<and>
        rx_staging rx1 = [] \<and> rx_staging rx2 = [] \<and>
        tx_auth tx1 = rx_auth rx2 \<and> tx_auth tx2 = rx_auth rx1 \<and>
        tx_shaper tx1 = s1 \<and> tx_shaper tx2 = s2
   | _ \<Rightarrow> False"
  by (simp add: codec_split_def codec_new_def chacha_split_def chacha_set_keys_def Let_def
      rx_codec_new_def tx_codec_new_def)

end
