(* ===== verification/Bridge.thy ===== *)
theory Bridge
  imports Hello Codec
begin

text \<open>
  The handshake half of \<open>engine/src/bridge.rs\<close>: reading a hello out of a record, answering a
  client hello, and the facade functions.  The lemmas follow a whole handshake: the hello a
  client writes is the one the server reads, an admissible client is let in, and both sides
  end with mirrored keys; they show that a wrong tag is refused before any key is
  derived, and that a recorded hello is answered again while its window lasts.
\<close>

section \<open>Handshake messages\<close>

datatype handshake_msg =
    MsgClient client_hello extension_stack
  | MsgServer server_hello extension_stack

fun msg_random :: "handshake_msg \<Rightarrow> bytes" where
  "msg_random (MsgClient base _) = ch_random base"
| "msg_random (MsgServer base _) = sh_random base"

fun msg_extensions :: "handshake_msg \<Rightarrow> extension_stack" where
  "msg_extensions (MsgClient _ exts) = exts"
| "msg_extensions (MsgServer _ exts) = exts"

definition handshake_error :: "string \<Rightarrow> tls_error" where
  "handshake_error msg = tls_error_new (StageHandshake msg) Drop []"

definition malformed :: tls_error where
  "malformed = handshake_error ''Malformed handshake message''"

text \<open>\<open>parse(..)?.ok_or_else(..)\<close>.\<close>

definition ok_or :: "('e, 'a option) result \<Rightarrow> 'e \<Rightarrow> ('e, 'a) result" where
  "ok_or r e = bind_result r (\<lambda>x. case x of Some y \<Rightarrow> Ok y | None \<Rightarrow> Err e)"

definition handle_handshake :: "tls_record \<Rightarrow> (tls_error, handshake_msg option) result" where
  "handle_handshake rec =
     (if tr_content_type rec \<noteq> Handshake
      then Err (tls_error_new (StageHandshake ''Expected Handshake record'') Drop (tls_record_serialize rec))
      else
        let (header_result, payload) = header_parse (tr_payload rec)
        in bind_result (ok_or header_result malformed) (\<lambda>header.
             case hh_type header of
               HelloClient \<Rightarrow>
                 bind_result (ok_or (fst (client_hello_parse payload)) malformed) (\<lambda>hello.
                 bind_result (ok_or (fst (stack_parse (ch_extensions hello))) (handshake_error ''Ext Err'')) (\<lambda>ext.
                   Ok (Some (MsgClient hello ext))))
             | HelloServer \<Rightarrow>
                 bind_result (ok_or (fst (server_hello_parse payload)) malformed) (\<lambda>hello.
                 bind_result (ok_or (fst (stack_parse (sh_extensions hello))) (handshake_error ''Ext Err'')) (\<lambda>ext.
                   Ok (Some (MsgServer hello ext))))))"

definition unpack_handshake :: "bytes \<Rightarrow> (tls_error, handshake_msg option) result \<times> bytes" where
  "unpack_handshake buffer = start_process handle_handshake buffer"

definition wrap_client_hello ::
  "crypto \<Rightarrow> u64 \<Rightarrow> browser_profile \<Rightarrow> bytes \<Rightarrow> session_keys \<Rightarrow> rng \<Rightarrow> (bytes \<times> rng) option" where
  "wrap_client_hello P now profile host keys r = make_client_hello P now profile host keys r"

section \<open>Answering a client\<close>

text \<open>The keys are changed in place: the peer version first, then the derivation.\<close>

definition wrap_server_hello ::
  "crypto \<Rightarrow> u64 \<Rightarrow> handshake_msg \<Rightarrow> session_keys \<Rightarrow> server_profile \<Rightarrow>
     (tls_error, bytes \<times> u8) result \<times> session_keys" where
  "wrap_server_hello P now client_msg keys profile =
     (case client_msg of
        MsgServer _ _ \<Rightarrow> (Err (handshake_error ''Expected ClientHello''), keys)
      | MsgClient base extensions \<Rightarrow>
          if length (ch_session_id base) \<noteq> 32
          then (Err (handshake_error ''Invalid SessionID len''), keys)
          else
            let peer_version = ch_session_id base ! 0;
                keys1 = set_peer_version keys peer_version;
                received_tag = take 16 (drop 16 (ch_session_id base))
            in case extract_peer_public extensions True of
                 Err e \<Rightarrow> (Err (handshake_error ''Bad KeyShare''), keys1)
               | Panic \<Rightarrow> (Panic, keys1)
               | Ok peer_public \<Rightarrow>
                   if \<not> check_hello_tag P now keys1 received_tag (ch_random base) peer_public
                   then (Err (handshake_error ''Auth Failed''), keys1)
                   else
                     (case update_keys P keys1 (ch_random base) extensions True of
                        (Err e, keys2) \<Rightarrow> (Err (handshake_error ''Key Exchange Failed''), keys2)
                      | (Panic, keys2) \<Rightarrow> (Panic, keys2)
                      | (Ok _, keys2) \<Rightarrow>
                          let server_pub_key = public_key_bytes keys2;
                              hello = make_server_hello base server_pub_key (keys_local_salt keys2) profile
                          in (Ok (hello, peer_version), keys2)))"

section \<open>Reading back what was written\<close>

lemma bind_result_Ok: "bind_result r k = Ok y \<longleftrightarrow> (\<exists>x. r = Ok x \<and> k x = Ok y)"
  by (cases r) auto

lemma handle_handshake_not_None: "handle_handshake rec \<noteq> Ok None"
  by (cases "header_parse (tr_payload rec)")
     (auto simp: handle_handshake_def Let_def bind_result_Ok split: hello_type.splits)

interpretation hello_parser: incremental_parser record_can_parse unpack_handshake
  unfolding unpack_handshake_def by (rule start_process_parser) (rule handle_handshake_not_None)

lemma unpack_record:
  assumes "length payload < 65536"
  shows "unpack_handshake (tls_record_serialize (tls_record_new Handshake v payload) @ rest) =
    (handle_handshake (tls_record_new Handshake v payload), rest)"
  unfolding unpack_handshake_def start_process_def
  by (subst record_parse_serialized [OF assms]) simp_all

lemma unpack_client:
  assumes "ch_wf h" "list_all extension_wf exts" "ch_extensions h = stack_bytes exts"
    and "length (client_hello_serialize h) < 65536"
  shows "unpack_handshake (tls_record_serialize (tls_record_new Handshake v (client_hello_serialize h)) @ rest) =
    (Ok (Some (MsgClient h exts)), rest)"
proof -
  have "header_parse (client_hello_serialize h) =
      (Ok (Some \<lparr>hh_type = HelloClient, hh_len =
         u24_from_u32 (from_be (drop 1 (be32 (of_nat (length (client_hello_body h))))))\<rparr>), client_hello_body h)"
    unfolding client_hello_serialize_body by (rule header_parse_hello)
  moreover have "client_hello_parse (client_hello_body h) = (Ok (Some h), [])"
    using client_hello_parse_body [OF assms(1), of "[]"] by simp
  ultimately show ?thesis
    unfolding unpack_record [OF assms(4)]
    by (simp add: handle_handshake_def tls_record_new_def ok_or_def assms(3) stack_parse_stack_bytes [OF assms(2)])
qed

lemma unpack_server:
  assumes "sh_wf h" "list_all extension_wf exts" "sh_extensions h = stack_bytes exts"
    and "length (server_hello_serialize h) < 65536"
  shows "unpack_handshake (tls_record_serialize (tls_record_new Handshake v (server_hello_serialize h)) @ rest) =
    (Ok (Some (MsgServer h exts)), rest)"
proof -
  have "header_parse (server_hello_serialize h) =
      (Ok (Some \<lparr>hh_type = HelloServer, hh_len =
         u24_from_u32 (from_be (drop 1 (be32 (of_nat (length (server_hello_body h))))))\<rparr>), server_hello_body h)"
    unfolding server_hello_serialize_body by (rule header_parse_hello)
  moreover have "server_hello_parse (server_hello_body h) = (Ok (Some h), [])"
    using server_hello_parse_body [OF assms(1), of "[]"] by simp
  ultimately show ?thesis
    unfolding unpack_record [OF assms(4)]
    by (simp add: handle_handshake_def tls_record_new_def ok_or_def assms(3) stack_parse_stack_bytes [OF assms(2)])
qed

section \<open>The client's hello reaches the server\<close>

text \<open>What the keys of a side must satisfy before a handshake.\<close>

definition keys_ready :: "session_keys \<Rightarrow> bool" where
  "keys_ready k \<longleftrightarrow>
     length (keys_local_salt k) = 32 \<and> length (public_key_bytes k) = 32 \<and>
     \<not> list_all (\<lambda>x. x = 0) (public_key_bytes k)"

definition client_msg_ok :: "crypto \<Rightarrow> u64 \<Rightarrow> session_keys \<Rightarrow> bytes \<Rightarrow> handshake_msg \<Rightarrow> bool" where
  "client_msg_ok P sent k host m \<longleftrightarrow>
     (\<exists>h exts rnd. m = MsgClient h exts \<and> ch_random h = keys_local_salt k \<and> length rnd = 15 \<and>
        ch_session_id h = [claimed_version k] @ rnd @ hello_tag_for P sent k (keys_local_salt k) \<and>
        length (ch_session_id h) = 32 \<and> extract_peer_public exts True = Ok (public_key_bytes k) \<and>
        stack_server_name exts = Some host)"

text \<open>
  The hello as it was made, with the GREASE draw and the extension block the builder produced
  for it, and as the other side reads it.
\<close>

definition hello_made :: "crypto \<Rightarrow> u64 \<Rightarrow> session_keys \<Rightarrow> browser_profile \<Rightarrow> grease_set \<Rightarrow> client_hello \<Rightarrow> bool" where
  "hello_made P sent k profile g h \<longleftrightarrow>
     ch_version h = Tls12 \<and> ch_random h = keys_local_salt k \<and> length (ch_session_id h) = 32 \<and>
     (\<exists>rnd. length rnd = 15 \<and> ch_session_id h = [claimed_version k] @ rnd @ hello_tag_for P sent k (keys_local_salt k)) \<and>
     ch_cipher_suites h = (if bp_has_grease profile then [gs_cipher g] else []) @ bp_cipher_suites profile"

lemma client_hello_wire:
  assumes "hmac_32 P" "keys_ready k" "hello_fits host (public_key_bytes k) profile" "generous r"
  obtains wire r' h es g r2 overhead b where "wrap_client_hello P sent profile host k r = Some (wire, r')"
    "\<forall>rest. unpack_handshake (wire @ rest) = (Ok (Some (MsgClient h es)), rest)" "hello_made P sent k profile g h"
    "all_grease g" "generous r2"
    "apply_profile profile host (public_key_bytes k) overhead (builder_with_grease g) r2 = Some (b, r')"
    "eb_payload b = stack_bytes es" "list_all (good_ext host (public_key_bytes k)) es"
    "ext_sni \<in> ex_etype ` set es" "ext_key_share \<in> ex_etype ` set es"
    "g = fst (grease_random (snd (fill_bytes 15 r)))" "r2 = snd (grease_random (snd (fill_bytes 15 r)))"
    "overhead = 77 + 2 * (length (bp_cipher_suites profile) + (if bp_has_grease profile then 1 else 0))"
proof -
  define rnd where "rnd = fst (fill_bytes 15 r)"
  define r1 where "r1 = snd (fill_bytes 15 r)"
  define g where "g = fst (grease_random r1)"
  define r2 where "r2 = snd (grease_random r1)"
  define suites where "suites = (if bp_has_grease profile then [gs_cipher g] else []) @ bp_cipher_suites profile"
  define sid where "sid = [claimed_version k] @ rnd @ hello_tag_for P sent k (keys_local_salt k)"
  have gen: "generous r2"
    using generous_fill [OF generous_fill [OF assms(4)]]
    by (simp add: r2_def r1_def grease_random_def case_prod_beta Let_def)
  have grease: "all_grease g"
    by (simp add: g_def grease_random_all)
  obtain b r3 es where b:
    "apply_profile profile host (public_key_bytes k) (4 + (2 + 32 + 1 + 32 + 2 + (length suites * 2) + 2 + 2))
       (builder_with_grease g) r2 = Some (b, r3)"
    "eb_payload b = stack_bytes es" "list_all (good_ext host (public_key_bytes k)) es"
    "ext_sni \<in> ex_etype ` set es" "ext_key_share \<in> ex_etype ` set es" "length (stack_bytes es) \<le> 50100"
    by (rule apply_profile_ok [OF assms(3) grease gen])
  define h where "h = \<lparr>ch_version = Tls12, ch_random = keys_local_salt k, ch_session_id = sid,
    ch_cipher_suites = suites, ch_extensions = stack_bytes es\<rparr>"
  have len: "length rnd = 15" "length sid = 32" "length suites \<le> 101"
    using hello_tag_length [OF assms(1)] hello_fitsD(3) [OF assms(3)]
    by (simp_all add: rnd_def sid_def suites_def profile_fits_def)
  have wf: "ch_wf h"
    using len b(6) assms(2) by (simp add: ch_wf_def h_def keys_ready_def)
  have small: "length (client_hello_serialize h) < 65536"
    using len b(6) assms(2) by (simp add: length_client_hello h_def keys_ready_def)
  let ?wire = "tls_record_serialize (tls_record_new Handshake (bp_record_layer_version profile) (client_hello_serialize h))"
  have "wrap_client_hello P sent profile host k r = Some (?wire, r3)"
    unfolding wrap_client_hello_def make_client_hello_def Let_def case_prod_beta builder_build_def
      r1_def [symmetric] rnd_def [symmetric] g_def [symmetric] r2_def [symmetric] suites_def [symmetric]
      sid_def [symmetric] b(1)
    by (simp add: h_def b(2))
  moreover have "unpack_handshake (?wire @ rest) = (Ok (Some (MsgClient h es)), rest)" for rest
    using unpack_client [OF wf good_wf [OF b(3)] _ small] by (simp add: h_def)
  moreover have "hello_made P sent k profile g h"
    using len by (auto simp: hello_made_def h_def sid_def suites_def)
  moreover have "4 + (2 + 32 + 1 + 32 + 2 + (length suites * 2) + 2 + 2) =
      77 + 2 * (length (bp_cipher_suites profile) + (if bp_has_grease profile then 1 else 0))"
    by (simp add: suites_def)
  ultimately show thesis
    using that [OF _ _ _ grease gen b(1-5)] by (simp add: g_def r2_def r1_def)
qed

lemma client_hello_arrives:
  assumes "hmac_32 P" "keys_ready k" "hello_fits host (public_key_bytes k) profile" "valid_utf8 host" "generous r"
  obtains wire r' m where "wrap_client_hello P sent profile host k r = Some (wire, r')"
    "\<forall>rest. unpack_handshake (wire @ rest) = (Ok (Some m), rest)" "client_msg_ok P sent k host m"
proof -
  obtain wire r' h es g where wire: "wrap_client_hello P sent profile host k r = Some (wire, r')"
    "\<forall>rest. unpack_handshake (wire @ rest) = (Ok (Some (MsgClient h es)), rest)" "hello_made P sent k profile g h"
    and es: "list_all (good_ext host (public_key_bytes k)) es"
      "ext_sni \<in> ex_etype ` set es" "ext_key_share \<in> ex_etype ` set es"
    by (rule client_hello_wire [OF assms(1-3,5), of sent]) blast
  have "client_msg_ok P sent k host (MsgClient h es)"
    using wire(3) good_peer_public [OF es(1,3)] good_server_name [OF es(1,2) _ assms(4)] assms(2) hello_fitsD(1) [OF assms(3)]
    by (auto simp: client_msg_ok_def hello_made_def keys_ready_def)
  with wire(1,2) show thesis
    by (intro that) blast+
qed

section \<open>The server's answer reaches the client\<close>

definition server_exts :: "bytes \<Rightarrow> server_profile \<Rightarrow> extension_stack" where
  "server_exts pub profile =
     [extension_new 0x002b (be16 (protocol_version_code (tls_versions_max (sv_versions profile)))),
      extension_new 0x0033 (be16 0x001d @ be16 (of_nat (length pub)) @ pub)]"

lemma from_client_hello_exts:
  "sh_extensions (from_client_hello ch pub salt profile) = stack_bytes (server_exts pub profile)"
proof -
  have "(of_nat (length pub) + 4 :: u16) = of_nat (length pub + 4)"
    by simp
  then show ?thesis
    by (simp add: from_client_hello_def Let_def server_exts_def stack_bytes_def extension_bytes_def extension_new_def)
qed

lemma server_share_found:
  assumes "length pub = 32" "\<not> list_all (\<lambda>x. x = 0) pub"
  shows "extract_peer_public (server_exts pub profile) False = Ok pub"
proof -
  obtain a b where ab: "be16 0x001d = [a, b]"
    by (simp add: be16_def)
  obtain c d where cd: "be16 32 = [c, d]" "(from_be [c, d] :: u16) = 32"
    using be16_cons by blast
  have "find_by_type ext_key_share (server_exts pub profile) = Some (a # b # c # d # pub)"
    using assms(1) by (simp add: find_by_type_def server_exts_def extension_new_def ext_defs ab cd)
  then show ?thesis
    using assms by (simp add: extract_peer_public_def Let_def cd(2))
qed

lemma make_server_hello_read:
  assumes "length (ch_session_id ch) = 32" "length pub = 32" "length salt = 32"
  shows "unpack_handshake (make_server_hello ch pub salt profile @ rest) =
      (Ok (Some (MsgServer (from_client_hello ch pub salt profile) (server_exts pub profile))), rest)"
proof -
  let ?h = "from_client_hello ch pub salt profile"
  have len: "length (sh_extensions ?h) = 46"
    using assms(2) by (simp add: from_client_hello_def Let_def)
  then have wf: "sh_wf ?h"
    using assms by (simp add: sh_wf_def) (simp add: from_client_hello_def Let_def)
  have "length (server_hello_serialize ?h) < 65536"
    using len assms by (simp add: server_hello_serialize_def server_hello_body_def from_client_hello_def Let_def)
  moreover have "list_all extension_wf (server_exts pub profile)"
    using assms(2) by (simp add: server_exts_def extension_wf_def extension_new_def)
  ultimately show ?thesis
    unfolding make_server_hello_def Let_def by (intro unpack_server [OF wf _ from_client_hello_exts])
qed

lemma make_server_hello_arrives:
  assumes "length (ch_session_id ch) = 32" "length pub = 32" "length salt = 32"
  shows "\<exists>h. (\<forall>rest. unpack_handshake (make_server_hello ch pub salt profile @ rest) =
      (Ok (Some (MsgServer h (server_exts pub profile))), rest)) \<and> sh_random h = salt"
  using make_server_hello_read [OF assms] by (auto simp: from_client_hello_def Let_def)

text \<open>The tag the server cuts out of the session id is the one the client put in.\<close>

lemma client_msg_parts:
  assumes "client_msg_ok P sent k host (MsgClient h exts)"
  shows "ch_session_id h ! 0 = claimed_version k"
    and "take 16 (drop 16 (ch_session_id h)) = hello_tag_for P sent k (keys_local_salt k)"
  using assms by (auto simp: client_msg_ok_def)

lemma wrap_server_hello_ok:
  assumes "ch_session_id base ! 0 = v" "length (ch_session_id base) = 32"
    and "extract_peer_public exts True = Ok pub"
    and "check_hello_tag P now (set_peer_version keys v) (take 16 (drop 16 (ch_session_id base))) (ch_random base) pub"
    and "update_keys P (set_peer_version keys v) (ch_random base) exts True = (Ok ks, keys2)"
  shows "wrap_server_hello P now (MsgClient base exts) keys profile =
    (Ok (make_server_hello base (public_key_bytes keys) (keys_local_salt keys) profile, v), keys2)"
proof -
  have "public_key_bytes keys2 = public_key_bytes keys" "keys_local_salt keys2 = keys_local_salt keys"
    using update_keys_keeps [of P "set_peer_version keys v" "ch_random base" exts True, unfolded assms(5)]
    by (simp_all add: set_peer_version_def public_key_bytes_def keys_local_salt_def)
  with assms show ?thesis
    by (simp add: wrap_server_hello_def Let_def)
qed

lemma wrap_server_hello_reply:
  assumes "wrap_server_hello P now (MsgClient base exts) keys profile = (Ok (reply, v), keys')"
  shows "reply = make_server_hello base (public_key_bytes keys) (keys_local_salt keys) profile"
proof -
  let ?k = "set_peer_version keys (ch_session_id base ! 0)"
  have "public_key_bytes ?k = public_key_bytes keys" "keys_local_salt ?k = keys_local_salt keys"
    by (simp_all add: set_peer_version_def public_key_bytes_def keys_local_salt_def)
  then show ?thesis
    using assms update_keys_keeps [of P ?k "ch_random base" exts True]
    by (auto simp: wrap_server_hello_def Let_def split: if_splits result.splits prod.splits)
qed

section \<open>A whole handshake\<close>

text \<open>
  A client and a node before they talk: both ready, credentials that belong together (those
  of the key derivation at the version the client claims, and those of the tag), and opposite
  roles.
\<close>

definition can_talk :: "crypto \<Rightarrow> session_keys \<Rightarrow> session_keys \<Rightarrow> bool" where
  "can_talk P c s \<longleftrightarrow>
     keys_ready c \<and> keys_ready s \<and> admissible c s \<and>
     honest_pair P c (set_peer_version s (claimed_version c))"

lemma handshake_runs:
  assumes "hkdf_lengths P" "dh_commutes P" "hmac_32 P" "can_talk P c s"
    and "unat sent \<le> unat now + 120" "unat now \<le> unat sent + 120"
    and "hello_fits host (public_key_bytes c) profile" "valid_utf8 host" "generous r"
  obtains wire r' m reply s' m' c' prk where
    "wrap_client_hello P sent profile host c r = Some (wire, r')"
    "\<forall>rest. unpack_handshake (wire @ rest) = (Ok (Some m), rest)"
    "stack_server_name (msg_extensions m) = Some host"
    "wrap_server_hello P now m s sprofile = (Ok (reply, claimed_version c), s')"
    "\<forall>rest. unpack_handshake (reply @ rest) = (Ok (Some m'), rest)"
    "update_keys P c (msg_random m') (msg_extensions m') False = (Ok (schedule P prk False), c')"
    "get_aead_parameters s' = Some (schedule P prk True)" "get_auth_key c' = get_auth_key s'"
    "keys_datagram_root c' = Some prk" "keys_datagram_root s' = Some prk"
    "length prk = 32" "is_initiator c'" "\<not> is_initiator s'"
proof -
  have ready: "keys_ready c" "keys_ready s" and adm: "admissible c s"
    and pair: "honest_pair P c (set_peer_version s (claimed_version c))"
    using assms(4) by (simp_all add: can_talk_def)
  obtain wire r' m where m: "wrap_client_hello P sent profile host c r = Some (wire, r')"
    "\<forall>rest. unpack_handshake (wire @ rest) = (Ok (Some m), rest)" "client_msg_ok P sent c host m"
    by (rule client_hello_arrives [OF assms(3) ready(1) assms(7,8,9), where sent = sent])
  then obtain h exts where h: "m = MsgClient h exts" "ch_random h = keys_local_salt c"
    "length (ch_session_id h) = 32" "extract_peer_public exts True = Ok (public_key_bytes c)"
    "stack_server_name exts = Some host"
    unfolding client_msg_ok_def by blast
  note sid = client_msg_parts [OF m(3) [unfolded h(1)]]
  let ?s = "set_peer_version s (claimed_version c)"
  have same: "keys_local_salt ?s = keys_local_salt s" "public_key_bytes ?s = public_key_bytes s"
    by (simp_all add: set_peer_version_def keys_local_salt_def public_key_bytes_def)
  have share: "extract_peer_public (server_exts (public_key_bytes s) sprofile) False = Ok (public_key_bytes ?s)"
    unfolding same(2) using server_share_found ready(2) by (simp add: keys_ready_def)
  obtain prk c' s' where prk: "length prk = 32" "is_initiator c'" "\<not> is_initiator s'"
    and k: "update_keys P c (keys_local_salt ?s) (server_exts (public_key_bytes s) sprofile) False =
      (Ok (schedule P prk False), c')"
    "update_keys P ?s (keys_local_salt c) exts True = (Ok (schedule P prk True), s')"
    "sk_auth_key c' = sk_auth_key s'" "sk_datagram_root c' = Some prk" "sk_datagram_root s' = Some prk"
    "sk_current_aead s' = Some (schedule P prk True)"
    by (rule honest_update [OF assms(1,2) pair share h(4)])
  have tag: "check_hello_tag P now ?s (take 16 (drop 16 (ch_session_id h))) (ch_random h) (public_key_bytes c)"
    unfolding sid(2) h(2) using honest_check [OF adm assms(5,6)] .
  define reply where "reply = make_server_hello h (public_key_bytes s) (keys_local_salt s) sprofile"
  have reply: "wrap_server_hello P now m s sprofile = (Ok (reply, claimed_version c), s')"
    unfolding h(1) reply_def
    by (rule wrap_server_hello_ok [OF sid(1) h(3,4) tag]) (simp add: h(2) k(2))
  obtain h' where h': "\<forall>rest. unpack_handshake (reply @ rest) =
      (Ok (Some (MsgServer h' (server_exts (public_key_bytes s) sprofile))), rest)" "sh_random h' = keys_local_salt s"
    using make_server_hello_arrives [OF h(3), of "public_key_bytes s" "keys_local_salt s" sprofile] ready(2)
    unfolding reply_def keys_ready_def by blast
  show thesis
    by (rule that [OF m(1,2) _ reply h'(1)])
       (use prk h k h'(2) same in \<open>simp_all add: get_aead_parameters_def get_auth_key_def keys_datagram_root_def\<close>)
qed

section \<open>Properties\<close>

text \<open>Property C1 (handshake_agrees): with any profile within its limits and any random draws, the
  hello the client builds is one complete record the server reads; if the credentials belong
  together and the clocks are at most two minutes apart, the server lets the client in, tells
  the version the client claimed, and its reply is read by the client; the client's
  derivation then succeeds, what either side writes with is what the other reads with, and
  both hold the same tag key and datagram root.\<close>

theorem handshake_agrees:
  assumes "hkdf_lengths P" and "dh_commutes P" and "hmac_32 P" and "can_talk P c s"
    and "unat sent \<le> unat now + 120" and "unat now \<le> unat sent + 120"
    and "hello_fits host (public_key_bytes c) profile" and "valid_utf8 host" and "generous r"
  shows "\<exists>wire r' m reply s' m' c' k iv k' iv' root.
    wrap_client_hello P sent profile host c r = Some (wire, r') \<and>
    unpack_handshake wire = (Ok (Some m), []) \<and> stack_server_name (msg_extensions m) = Some host \<and>
    wrap_server_hello P now m s sprofile = (Ok (reply, claimed_version c), s') \<and>
    unpack_handshake reply = (Ok (Some m'), []) \<and>
    update_keys P c (msg_random m') (msg_extensions m') False = (Ok (k, iv, k', iv'), c') \<and>
    get_aead_parameters s' = Some (k', iv', k, iv) \<and> get_auth_key c' = get_auth_key s' \<and>
    keys_datagram_root c' = Some root \<and> keys_datagram_root s' = Some root"
  using assms
proof (rule handshake_runs [where sprofile = sprofile])
  fix wire r' m reply s' m' c' prk
  assume w: "\<forall>rest. unpack_handshake (wire @ rest) = (Ok (Some m), rest)"
    "\<forall>rest. unpack_handshake (reply @ rest) = (Ok (Some m'), rest)"
    and *: "wrap_client_hello P sent profile host c r = Some (wire, r')"
    "stack_server_name (msg_extensions m) = Some host"
    "wrap_server_hello P now m s sprofile = (Ok (reply, claimed_version c), s')"
    "update_keys P c (msg_random m') (msg_extensions m') False = (Ok (schedule P prk False), c')"
    "get_aead_parameters s' = Some (schedule P prk True)" "get_auth_key c' = get_auth_key s'"
    "keys_datagram_root c' = Some prk" "keys_datagram_root s' = Some prk"
  have "unpack_handshake wire = (Ok (Some m), [])" "unpack_handshake reply = (Ok (Some m'), [])"
    using w(1) [rule_format, of "[]"] w(2) [rule_format, of "[]"] by simp_all
  with * show ?thesis
    by (simp add: schedule_def Let_def)
qed

lemma demo_server_version: "set_peer_version demo_server_keys (claimed_version demo_client_keys) = demo_server_keys"
  by (simp add: set_peer_version_def claimed_version_def demo_client_keys_def demo_server_keys_def
      with_identity_def case_prod_beta)

lemma demo_ready: "keys_ready demo_client_keys" "keys_ready demo_server_keys"
  by code_simp+

lemma demo_can_talk: "can_talk toy_crypto demo_client_keys demo_server_keys"
  using demo_ready demo_honest
  by (simp add: can_talk_def demo_server_version)
     (simp add: admissible_def demo_client_keys_def demo_server_keys_def with_identity_def case_prod_beta)

text \<open>The same node on its next connection: the same credentials, a new salt and a new key.\<close>

definition demo_server_keys_again :: session_keys where
  "demo_server_keys_again =
     fst (with_identity toy_crypto False (IdLocal \<lparr>li_secret = [7], li_static_private = [9], li_strict = True\<rparr>) (\<lambda>i. 3))"

lemma demo_can_talk_again: "can_talk toy_crypto demo_client_keys demo_server_keys_again"
proof -
  have "set_peer_version demo_server_keys_again (claimed_version demo_client_keys) = demo_server_keys_again"
    by (simp add: set_peer_version_def claimed_version_def demo_client_keys_def demo_server_keys_again_def
        with_identity_def case_prod_beta)
  moreover have "keys_ready demo_server_keys_again"
    by code_simp
  moreover have "honest_pair toy_crypto demo_client_keys demo_server_keys_again"
    unfolding honest_pair_def
    by (simp add: demo_client_keys_def demo_server_keys_again_def fresh_constructors)
       (simp add: credentials_match_def uses_static_dh_def with_identity_def case_prod_beta)
  ultimately show ?thesis
    using demo_ready(1)
    by (simp add: can_talk_def)
       (simp add: admissible_def demo_client_keys_def demo_server_keys_again_def with_identity_def case_prod_beta)
qed

lemma demo_hello_fits:
  "hello_fits (ascii ''example.com'') (public_key_bytes demo_client_keys) chrome_140" "valid_utf8 (ascii ''example.com'')"
  using demo_ready(1) known_profiles_fit
  by (simp_all add: hello_fits_def known_profiles_def keys_ready_def ascii_def of_char_def)

lemma handshake_agrees_witness:
  "\<exists>wire r' m reply s' m' c' k iv k' iv' root.
    wrap_client_hello toy_crypto 1000 chrome_140 (ascii ''example.com'') demo_client_keys (\<lambda>i. 1) = Some (wire, r') \<and>
    unpack_handshake wire = (Ok (Some m), []) \<and> stack_server_name (msg_extensions m) = Some (ascii ''example.com'') \<and>
    wrap_server_hello toy_crypto 1100 m demo_server_keys server_modern = (Ok (reply, claimed_version demo_client_keys), s') \<and>
    unpack_handshake reply = (Ok (Some m'), []) \<and>
    update_keys toy_crypto demo_client_keys (msg_random m') (msg_extensions m') False = (Ok (k, iv, k', iv'), c') \<and>
    get_aead_parameters s' = Some (k', iv', k, iv) \<and> get_auth_key c' = get_auth_key s' \<and>
    keys_datagram_root c' = Some root \<and> keys_datagram_root s' = Some root"
  by (rule handshake_agrees [OF toy_crypto_laws(5,6,4) demo_can_talk _ _ demo_hello_fits generous_ones]) simp_all

text \<open>Property C16 (reply_only_for_valid_tag): answering never panics; an answer is only given to a
  client hello with a 32-byte session id whose tag passed the check, and then the session
  keys are set and the ephemeral key is gone; every refusal asks for \<open>Drop\<close> and leaves the
  tag key and the session keys as they were.\<close>

theorem reply_only_for_valid_tag:
  "case wrap_server_hello P now msg keys profile of
     (Ok (reply, v), keys') \<Rightarrow>
       (\<exists>base exts pub. msg = MsgClient base exts \<and> length (ch_session_id base) = 32 \<and>
          v = ch_session_id base ! 0 \<and> extract_peer_public exts True = Ok pub \<and>
          check_hello_tag P now (set_peer_version keys v) (drop 16 (ch_session_id base)) (ch_random base) pub) \<and>
       ec_private_key (sk_ecdh keys') = None \<and> get_aead_parameters keys' \<noteq> None
   | (Err e, keys') \<Rightarrow>
       err_action e = Drop \<and> get_aead_parameters keys' = get_aead_parameters keys \<and>
       get_auth_key keys' = get_auth_key keys
   | (Panic, keys') \<Rightarrow> False"
proof (cases msg)
  case (MsgClient base exts)
  show ?thesis
  proof (cases "length (ch_session_id base) = 32")
    case True
    let ?keys = "set_peer_version keys (ch_session_id base ! 0)"
    have "get_aead_parameters ?keys = get_aead_parameters keys" "get_auth_key ?keys = get_auth_key keys"
      by (simp_all add: set_peer_version_def get_aead_parameters_def get_auth_key_def)
    moreover have "take 16 (drop 16 (ch_session_id base)) = drop 16 (ch_session_id base)"
      using True by simp
    ultimately show ?thesis
      using True extract_peer_public_error [of exts True]
        update_keys_result [where P = P and k = ?keys and salt = "ch_random base" and exts = exts and is_server = True]
      by (auto simp: wrap_server_hello_def MsgClient Let_def handshake_error_def tls_error_new_def
          get_aead_parameters_def get_auth_key_def split: result.splits prod.splits)
  qed (simp add: wrap_server_hello_def MsgClient handshake_error_def tls_error_new_def)
qed (simp add: wrap_server_hello_def handshake_error_def tls_error_new_def)

text \<open>Property C36 (recorded_hello_answered): the node keeps no memory of the hellos it
  answered.  One recorded record, sent again byte for byte as a new connection by anybody, is
  answered by a server hello on every connection whose clock is at most two minutes from the
  clock it was made at: it was answered for its author at \<open>now\<close>, and it is answered again at
  \<open>later\<close> by the fresh keys of another connection.  Neither the tag of a static secret nor
  the tag without one stops this; both are functions of the minute, the random and the key
  share, which are all in the record.\<close>

theorem recorded_hello_answered:
  assumes "hkdf_lengths P" and "dh_commutes P" and "hmac_32 P"
    and "can_talk P c s" and "can_talk P c fresh"
    and "unat sent \<le> unat now + 120" and "unat now \<le> unat sent + 120"
    and "unat sent \<le> unat later + 120" and "unat later \<le> unat sent + 120"
    and "hello_fits host (public_key_bytes c) profile" and "valid_utf8 host" and "generous r"
  shows "\<exists>wire r' m reply s' reply' fresh'.
    wrap_client_hello P sent profile host c r = Some (wire, r') \<and>
    unpack_handshake wire = (Ok (Some m), []) \<and>
    wrap_server_hello P now m s sprofile = (Ok (reply, claimed_version c), s') \<and>
    wrap_server_hello P later m fresh sprofile = (Ok (reply', claimed_version c), fresh')"
proof -
  obtain wire r' m reply s' where first: "wrap_client_hello P sent profile host c r = Some (wire, r')"
    "\<forall>rest. unpack_handshake (wire @ rest) = (Ok (Some m), rest)"
    "wrap_server_hello P now m s sprofile = (Ok (reply, claimed_version c), s')"
    by (rule handshake_runs [OF assms(1-4,6,7,10-12), of sprofile])
  obtain wire' r'' m' reply' fresh' where again: "wrap_client_hello P sent profile host c r = Some (wire', r'')"
    "\<forall>rest. unpack_handshake (wire' @ rest) = (Ok (Some m'), rest)"
    "wrap_server_hello P later m' fresh sprofile = (Ok (reply', claimed_version c), fresh')"
    by (rule handshake_runs [OF assms(1-3,5,8-12), of sprofile])
  have "unpack_handshake wire = (Ok (Some m), [])" "m' = m"
    using first(1) again(1) first(2) [rule_format, of "[]"] again(2) [rule_format, of "[]"] by auto
  with first again(3) show ?thesis
    by blast
qed

lemma recorded_hello_answered_witness:
  "\<exists>wire r' m reply s' reply' fresh'.
    wrap_client_hello toy_crypto 1000 chrome_140 (ascii ''example.com'') demo_client_keys (\<lambda>i. 1) = Some (wire, r') \<and>
    unpack_handshake wire = (Ok (Some m), []) \<and>
    wrap_server_hello toy_crypto 1000 m demo_server_keys server_modern = (Ok (reply, claimed_version demo_client_keys), s') \<and>
    wrap_server_hello toy_crypto 1100 m demo_server_keys_again server_modern = (Ok (reply', claimed_version demo_client_keys), fresh')"
  by (rule recorded_hello_answered
      [OF toy_crypto_laws(5,6,4) demo_can_talk demo_can_talk_again _ _ _ _ demo_hello_fits generous_ones]) simp_all

text \<open>
  A hello that is entitled to an answer of the node with this secret: it claims a version with
  static keys, carries a usable key share, and its tag is that of a step of the node's window, for
  its own random and key share.
\<close>

definition entitled :: "crypto \<Rightarrow> u64 \<Rightarrow> bytes \<Rightarrow> client_hello \<Rightarrow> extension_stack \<Rightarrow> bytes \<Rightarrow> bool" where
  "entitled P now secret base exts pub \<longleftrightarrow>
     length (ch_session_id base) = 32 \<and> min_version_for_static_dh \<le> ch_session_id base ! 0 \<and>
     extract_peer_public exts True = Ok pub \<and>
     (\<exists>step. unat now div 60 \<le> unat step + 2 \<and> unat step \<le> unat now div 60 + 2 \<and>
        drop 16 (ch_session_id base) = compute_handshake_tag P secret step (ch_random base) pub)"

lemma strict_check:
  assumes "sk_identity s = Some (IdLocal l)" "li_strict l"
  shows "check_hello_tag P now (set_peer_version s v) tag random pub \<longleftrightarrow> min_version_for_static_dh \<le> v \<and>
    (\<exists>step. unat now div 60 \<le> unat step + 2 \<and> unat step \<le> unat now div 60 + 2 \<and>
       tag = compute_handshake_tag P (li_secret l) step random pub)"
  using assms hello_tag.accepts_window [of P "session_auth_new (li_secret l)" now tag random pub]
  by (simp add: check_hello_tag_def uses_static_dh_def set_peer_version_def rejects_anonymous_def session_auth_new_def)

lemma static_ikm:
  assumes "sk_identity s = Some (IdLocal l)" "ec_private_key (sk_ecdh s) = Some a" "min_version_for_static_dh \<le> v"
  shows "build_ikm P (set_peer_version s v) pub =
    Ok (x25519 P a pub @ x25519 P (li_static_private l) pub @ ikm_domain_v3)"
  using assms by (simp add: build_ikm_def ecdh_dh_def uses_static_dh_def set_peer_version_def)

text \<open>Property C6 (strict_node_answers): a node with strict credentials and a fresh key answers a client hello exactly
  if the hello is entitled to it: the claimed version has static keys (so there is no
  downgrade), and the tag was made with the node's secret, for a step of the window, for this random and
  this key share.  The session keys it then holds are those of the ephemeral and the static
  exchange with that key share.\<close>

theorem strict_node_answers:
  assumes "hkdf_lengths P" and "sk_identity s = Some (IdLocal l)" and "li_strict l"
    and "ec_private_key (sk_ecdh s) = Some a" and "\<not> is_initiator s"
  shows "case wrap_server_hello P now (MsgClient base exts) s profile of
     (Ok (reply, v), s') \<Rightarrow>
       \<exists>pub. entitled P now (li_secret l) base exts pub \<and> v = ch_session_id base ! 0 \<and>
         reply = make_server_hello base (public_key_bytes s) (keys_local_salt s) profile \<and>
         get_aead_parameters s' = Some (schedule P (hkdf_extract P (ch_random base @ keys_local_salt s)
           (x25519 P a pub @ x25519 P (li_static_private l) pub @ ikm_domain_v3)) True)
   | (Err e, s') \<Rightarrow> \<not> (\<exists>pub. entitled P now (li_secret l) base exts pub)
   | (Panic, s') \<Rightarrow> False"
proof -
  let ?sid = "ch_session_id base"
  have tag: "length ?sid = 32 \<Longrightarrow> take 16 (drop 16 ?sid) = drop 16 ?sid"
    by simp
  show ?thesis
  proof (cases "\<exists>pub. entitled P now (li_secret l) base exts pub")
    case True
    then obtain pub where pub: "entitled P now (li_secret l) base exts pub" ..
    then have ok: "length ?sid = 32" "extract_peer_public exts True = Ok pub"
      "check_hello_tag P now (set_peer_version s (?sid ! 0)) (take 16 (drop 16 ?sid)) (ch_random base) pub"
      and v: "min_version_for_static_dh \<le> ?sid ! 0"
      using strict_check [OF assms(2,3)] tag by (simp_all add: entitled_def)
    define prk where "prk = hkdf_extract P (ch_random base @ keys_local_salt s)
      (x25519 P a pub @ x25519 P (li_static_private l) pub @ ikm_domain_v3)"
    have "prk = hkdf_extract P (get_total (set_remote_salt (sk_salt (set_peer_version s (?sid ! 0))) (ch_random base)))
        (x25519 P a pub @ x25519 P (li_static_private l) pub @ ikm_domain_v3)"
      using assms(5) by (simp add: prk_def get_total_def set_remote_salt_def set_peer_version_def keys_local_salt_def is_initiator_def)
    from wrap_server_hello_ok [OF refl ok(1,2,3) update_keys_ok [OF assms(1) ok(2) static_ikm [OF assms(2,4) v] this]]
    show ?thesis
      using pub by (auto simp: get_aead_parameters_def prk_def)
  next
    case False
    have "\<not> check_hello_tag P now (set_peer_version s (?sid ! 0)) (take 16 (drop 16 ?sid)) (ch_random base) pub"
      if "length ?sid = 32" "extract_peer_public exts True = Ok pub" for pub
      using False that strict_check [OF assms(2,3)] by (simp add: entitled_def)
    then show ?thesis
      using False extract_peer_public_error [of exts True]
      by (auto simp: wrap_server_hello_def Let_def split: result.splits)
  qed
qed

lemma strict_node_answers_witness:
  "\<not> (\<exists>answer. fst (wrap_server_hello toy_crypto 1000 (MsgClient
     \<lparr>ch_version = Tls12, ch_random = [], ch_session_id = 2 # replicate 31 0, ch_cipher_suites = [], ch_extensions = []\<rparr> [])
     demo_server_keys server_modern) = Ok answer)"
proof -
  let ?base = "\<lparr>ch_version = Tls12, ch_random = [], ch_session_id = 2 # replicate 31 0, ch_cipher_suites = [], ch_extensions = []\<rparr>"
  let ?l = "\<lparr>li_secret = [7], li_static_private = [9], li_strict = True\<rparr>"
  have "\<not> entitled toy_crypto 1000 (li_secret ?l) ?base [] pub" for pub
    by (simp add: entitled_def)
  moreover have "case wrap_server_hello toy_crypto 1000 (MsgClient ?base []) demo_server_keys server_modern of
     (Ok (reply, v), s') \<Rightarrow>
       \<exists>pub. entitled toy_crypto 1000 (li_secret ?l) ?base [] pub \<and> v = ch_session_id ?base ! 0 \<and>
         reply = make_server_hello ?base (public_key_bytes demo_server_keys) (keys_local_salt demo_server_keys) server_modern \<and>
         get_aead_parameters s' = Some (schedule toy_crypto (hkdf_extract toy_crypto (ch_random ?base @ keys_local_salt demo_server_keys)
           (x25519 toy_crypto (replicate 32 2) pub @ x25519 toy_crypto (li_static_private ?l) pub @ ikm_domain_v3)) True)
   | (Err e, s') \<Rightarrow> \<not> (\<exists>pub. entitled toy_crypto 1000 (li_secret ?l) ?base [] pub)
   | (Panic, s') \<Rightarrow> False"
    by (rule strict_node_answers [OF toy_crypto_laws(5)])
       (simp_all add: demo_server_keys_def with_identity_def session_keys_new_def salt_pair_new_def ecdh_new_def
          is_initiator_def case_prod_beta Let_def fill_bytes_def map_replicate_const)
  ultimately show ?thesis
    by (auto split: prod.splits result.splits)
qed

text \<open>Only an incomplete record makes the reader wait for more
  bytes; a complete record gives a message, an error or a panic at once.\<close>

theorem hello_never_waits_twice:
  "fst (unpack_handshake bs) = Ok None \<longleftrightarrow> \<not> record_can_parse bs"
  by (rule hello_parser.none_iff)

text \<open>One record with a well-formed hello of any known version
  whose cipher list has an odd number of bytes makes the reader of an unauthenticated
  connection panic.\<close>

theorem odd_cipher_list_panics:
  assumes "ch_fits random sid ciphers cmp tail" and "odd (length ciphers)"
    and "body = ch_layout (protocol_version_code version) random sid ciphers cmp tail"
    and "length body < 65000"
  shows "fst (unpack_handshake (tls_record_serialize (tls_record_new Handshake rv
      ([hello_type_code HelloClient] @ drop 1 (be32 n) @ body)))) = Panic"
proof -
  let ?p = "[hello_type_code HelloClient] @ drop 1 (be32 n) @ body"
  have "client_hello_parse body = (Panic, [of_nat (length cmp)] @ cmp @ tail)"
    using assms(2) read_suites_None [of ciphers] by (simp add: assms(3) client_hello_parse_layout [OF assms(1)])
  moreover have "header_parse ?p = (Ok (Some \<lparr>hh_type = HelloClient, hh_len = u24_from_u32 (from_be (drop 1 (be32 n)))\<rparr>), body)"
    by (rule header_parse_hello)
  ultimately have "handle_handshake (tls_record_new Handshake rv ?p) = Panic"
    unfolding handle_handshake_def tls_record_new_def by (simp del: hello_type_code.simps add: ok_or_def)
  moreover have "length ?p < 65536"
    using assms(4) by simp
  ultimately show ?thesis
    using unpack_record [of ?p rv "[]"] by simp
qed

lemma odd_cipher_list_panics_witness:
  "fst (unpack_handshake (tls_record_serialize (tls_record_new Handshake Tls10
      ([hello_type_code HelloClient] @ drop 1 (be32 40) @
       ch_layout (protocol_version_code Tls12) (replicate 32 0) [] [0x13] [] [])))) = Panic"
  by (rule odd_cipher_list_panics [OF _ _ refl]) (simp_all add: ch_fits_def ch_layout_def)

end
