(* ===== verification/Connection.thy ===== *)
theory Connection
  imports Bridge Codec
begin

text \<open>
  One direction of an established connection as a state machine: a sender that encodes
  batches and cover frames, the bytes under way, and a receiver that reads them in pieces of
  any size and drains its buffer after every read.  The machine refines a queue of frames.
  The last part joins it to the handshake: the codecs both sides make from the derived keys
  carry frames in both directions, in order and without loss.
\<close>

section \<open>A link\<close>

text \<open>
  The two histories \<open>ln_sent\<close> and \<open>ln_got\<close> and the outcome of the last read are kept to
  state the properties; nothing reads them.
\<close>

record link =
  ln_tx :: tx_codec
  ln_wire :: bytes
  ln_rx :: rx_codec
  ln_buffer :: bytes
  ln_sent :: "frame_item list"
  ln_got :: "frame list"
  ln_outcome :: "(tls_error, unit) result"

definition link_new :: "tx_codec \<Rightarrow> rx_codec \<Rightarrow> link" where
  "link_new tx rx = \<lparr>ln_tx = tx, ln_wire = [], ln_rx = rx, ln_buffer = [], ln_sent = [], ln_got = [], ln_outcome = Ok ()\<rparr>"

inductive link_step :: "crypto \<Rightarrow> link \<Rightarrow> link \<Rightarrow> bool" for P where
  link_send: "\<lbrakk>items_fit 65494 items; encode_batch P now (ln_tx l) items r = (Ok out, tx', r')\<rbrakk> \<Longrightarrow>
    link_step P l (l\<lparr>ln_tx := tx', ln_wire := ln_wire l @ out, ln_sent := ln_sent l @ items\<rparr>)"
| link_cover: "encode_cover P now (ln_tx l) target r = (Ok out, tx', r') \<Longrightarrow>
    link_step P l (l\<lparr>ln_tx := tx', ln_wire := ln_wire l @ out, ln_sent := ln_sent l @ [(0, Cover, [])]\<rparr>)"
| link_read: "\<lbrakk>ln_outcome l = Ok ();
     drain (decode_inbound P) (ln_rx l) (ln_buffer l @ take n (ln_wire l)) = Some (ms, res, rx', buf')\<rbrakk> \<Longrightarrow>
    link_step P l (l\<lparr>ln_rx := rx', ln_buffer := buf', ln_wire := drop n (ln_wire l),
      ln_got := ln_got l @ ms, ln_outcome := res\<rparr>)"

section \<open>What a link keeps\<close>

text \<open>
  Reading everything that is under way would succeed, give the frames that are still missing
  and leave the receiver in step with the sender; nothing readable is left in the buffer.
\<close>

definition link_inv :: "crypto \<Rightarrow> link \<Rightarrow> bool" where
  "link_inv P l \<longleftrightarrow>
     ln_outcome l = Ok () \<and> shaper_wf (tx_shaper (ln_tx l)) \<and>
     drain (decode_inbound P) (ln_rx l) (ln_buffer l) = Some ([], Ok (), ln_rx l, ln_buffer l) \<and>
     (\<exists>ms rx. drain (decode_inbound P) (ln_rx l) (ln_buffer l @ ln_wire l) = Some (ms, Ok (), rx, []) \<and>
        ln_sent l = map item_of_frame (ln_got l @ ms) \<and> rx_crypto rx = tx_crypto (ln_tx l) \<and> rx_staging rx = [])"
definition link_ready :: "link \<Rightarrow> bool" where
  "link_ready l \<longleftrightarrow>
     l = link_new (ln_tx l) (ln_rx l) \<and> shaper_wf (tx_shaper (ln_tx l)) \<and>
     rx_crypto (ln_rx l) = tx_crypto (ln_tx l) \<and> rx_staging (ln_rx l) = []"

lemma link_ready_inv:
  assumes "link_ready l"
  shows "link_inv P l"
proof -
  obtain tx rx where l: "l = link_new tx rx"
    using assms by (auto simp: link_ready_def)
  then show ?thesis
    using assms drain_idle [of rx P] by (simp add: link_ready_def link_inv_def link_new_def)
qed

text \<open>Both ways of sending append bytes that a receiver in step turns into the frames.\<close>

lemma link_inv_send:
  assumes "link_inv P l" "carries P (tx_crypto (ln_tx l)) out frames (tx_crypto tx')"
    and "tx_shaper tx' = tx_shaper (ln_tx l)" "map item_of_frame frames = items"
  shows "link_inv P (l\<lparr>ln_tx := tx', ln_wire := ln_wire l @ out, ln_sent := ln_sent l @ items\<rparr>)"
proof -
  obtain ms rx where d: "drain (decode_inbound P) (ln_rx l) (ln_buffer l @ ln_wire l) = Some (ms, Ok (), rx, [])"
    and *: "ln_sent l = map item_of_frame (ln_got l @ ms)" "rx_crypto rx = tx_crypto (ln_tx l)" "rx_staging rx = []"
    using assms(1) by (auto simp: link_inv_def)
  have "drain (decode_inbound P) rx out = Some (frames, Ok (), rx\<lparr>rx_crypto := tx_crypto tx'\<rparr>, [])"
    by (rule carries_delivered [OF assms(2) *(2,3)])
  then have "drain (decode_inbound P) (ln_rx l) (ln_buffer l @ ln_wire l @ out) =
      Some (ms @ frames, Ok (), rx\<lparr>rx_crypto := tx_crypto tx'\<rparr>, [])"
    using inbound.drain_append [OF d, of out] by simp
  then show ?thesis
    using assms(1,3,4) * by (auto simp: link_inv_def)
qed

lemma link_inv_read:
  assumes "link_inv P l"
    and "drain (decode_inbound P) (ln_rx l) (ln_buffer l @ take n (ln_wire l)) = Some (ms, res, rx', buf')"
  shows "link_inv P (l\<lparr>ln_rx := rx', ln_buffer := buf', ln_wire := drop n (ln_wire l),
      ln_got := ln_got l @ ms, ln_outcome := res\<rparr>)"
proof -
  obtain all rx where d: "drain (decode_inbound P) (ln_rx l) ((ln_buffer l @ take n (ln_wire l)) @ drop n (ln_wire l)) =
      Some (all, Ok (), rx, [])"
    and *: "ln_sent l = map item_of_frame (ln_got l @ all)" "rx_crypto rx = tx_crypto (ln_tx l)" "rx_staging rx = []"
    using assms(1) by (auto simp: link_inv_def)
  obtain ms2 where r: "res = Ok ()" "all = ms @ ms2"
    "drain (decode_inbound P) rx' (buf' @ drop n (ln_wire l)) = Some (ms2, Ok (), rx, [])"
    by (rule inbound.drain_part [OF d assms(2)])
  moreover have "drain (decode_inbound P) rx' buf' = Some ([], Ok (), rx', buf')"
    by (rule inbound.drain_again) (use assms(2) r(1) in simp)
  ultimately show ?thesis
    using assms(1) * by (auto simp: link_inv_def)
qed

lemma encode_batch_link:
  assumes "aead_laws P" "shaper_wf (tx_shaper tx)" "items_fit 65494 items"
  obtains out tx' r' frames where "encode_batch P now tx items r = (Ok out, tx', r')"
    "carries P (tx_crypto tx) out frames (tx_crypto tx')" "tx_shaper tx' = tx_shaper tx"
    "map item_of_frame frames = items"
  using encode_batch_delivers [OF assms order_refl, of now r] unfolding delivers_def by auto

lemma link_step_inv:
  assumes "aead_laws P" "link_inv P l" "link_step P l l'"
  shows "link_inv P l'"
  using assms(3)
proof cases
  case (link_send items now r out tx' r')
  have "shaper_wf (tx_shaper (ln_tx l))"
    using assms(2) by (simp add: link_inv_def)
  with encode_batch_link [OF assms(1) _ link_send(2), of "ln_tx l" now r] link_send(3) show ?thesis
    unfolding link_send(1) by (auto intro: link_inv_send [OF assms(2)])
next
  case (link_cover now target r out tx' r')
  obtain c f r2 where "encode_cover P now (ln_tx l) target r =
      (Ok (pack_app_data c), (ln_tx l)\<lparr>tx_crypto := stream_after 1 (tx_crypto (ln_tx l))\<rparr>, r2)"
    "item_of_frame f = (0, Cover, [])"
    "carries P (tx_crypto (ln_tx l)) (pack_app_data c) [f] (stream_after 1 (tx_crypto (ln_tx l)))"
    by (rule encode_cover_carries [OF assms(1)])
  with link_cover(2) show ?thesis
    unfolding link_cover(1) by (auto intro!: link_inv_send [OF assms(2)])
next
  case (link_read n ms res rx' buf')
  show ?thesis
    unfolding link_read(1) by (rule link_inv_read [OF assms(2) link_read(3)])
qed

lemma link_reachable_inv:
  assumes "aead_laws P" "link_ready l0" "rtranclp (link_step P) l0 l"
  shows "link_inv P l"
  using assms(3)
  by induction (use link_ready_inv [OF assms(2)] link_step_inv [OF assms(1)] in blast)+

section \<open>A link is a queue of frames\<close>

text \<open>The contract: what is waiting, and what has come out.\<close>

type_synonym fifo = "frame_item list \<times> frame_item list"

inductive fifo_step :: "fifo \<Rightarrow> fifo \<Rightarrow> bool" where
  fifo_put: "fifo_step (q, out) (q @ xs, out)"
| fifo_get: "fifo_step (xs @ q, out) (q, out @ xs)"

definition link_abs :: "link \<Rightarrow> fifo" where
  "link_abs l = (drop (length (ln_got l)) (ln_sent l), map item_of_frame (ln_got l))"

lemma link_inv_pending:
  assumes "link_inv P l"
  shows "ln_sent l = map item_of_frame (ln_got l) @ fst (link_abs l)"
  using assms by (auto simp: link_inv_def link_abs_def)

lemma fifo_of_histories:
  assumes "ln_sent l = map item_of_frame (ln_got l) @ q" "ln_sent l' = map item_of_frame (ln_got l') @ q'"
    and "ln_got l' = ln_got l \<and> ln_sent l' = ln_sent l @ xs \<or> ln_sent l' = ln_sent l \<and> ln_got l' = ln_got l @ ms"
  shows "fifo_step (link_abs l) (link_abs l')"
  using assms(3)
proof (elim disjE conjE)
  assume "ln_got l' = ln_got l" "ln_sent l' = ln_sent l @ xs"
  then have "link_abs l = (q, map item_of_frame (ln_got l))" "link_abs l' = (q @ xs, map item_of_frame (ln_got l))"
    using assms(1) by (simp_all add: link_abs_def)
  then show ?thesis
    using fifo_put by simp
next
  assume *: "ln_sent l' = ln_sent l" "ln_got l' = ln_got l @ ms"
  then have "q = map item_of_frame ms @ q'"
    using assms(1,2) by simp
  with * assms have "link_abs l = (map item_of_frame ms @ q', map item_of_frame (ln_got l))"
    "link_abs l' = (q', map item_of_frame (ln_got l) @ map item_of_frame ms)"
    by (simp_all add: link_abs_def)
  then show ?thesis
    using fifo_get by simp
qed

section \<open>After the handshake\<close>

text \<open>A side makes its codec from the keys it derived: write key and IV, read key and IV.\<close>

definition side_codec :: "directional_keys \<Rightarrow> bytes \<Rightarrow> pad_shaper \<Rightarrow> (rx_codec \<times> tx_codec) option" where
  "side_codec keys auth_key shaper =
     (case keys of (w_key, w_iv, r_key, r_iv) \<Rightarrow>
        codec_split (codec_new (chacha_set_keys chacha_cipher_new w_key w_iv r_key r_iv) auth_key shaper))"

definition in_order :: "link \<Rightarrow> bool" where
  "in_order l \<longleftrightarrow> ln_outcome l = Ok () \<and>
     (\<exists>missing. ln_sent l = map item_of_frame (ln_got l) @ missing \<and> (ln_wire l = [] \<longrightarrow> missing = []))"

lemma link_inv_in_order:
  assumes "link_inv P l"
  shows "in_order l"
proof -
  obtain ms rx where "drain (decode_inbound P) (ln_rx l) (ln_buffer l @ ln_wire l) = Some (ms, Ok (), rx, [])"
    "ln_sent l = map item_of_frame (ln_got l @ ms)"
    using assms by (auto simp: link_inv_def)
  with assms show ?thesis
    by (auto simp: link_inv_def in_order_def)
qed

lemma side_codecs_ready:
  assumes "shaper_wf a" "shaper_wf b"
  obtains rxc txc rxs txs where
    "side_codec (schedule P prk False) auth a = Some (rxc, txc)"
    "side_codec (schedule P prk True) auth' b = Some (rxs, txs)"
    "link_ready (link_new txc rxs)" "link_ready (link_new txs rxc)"
  using assms
  by (simp add: side_codec_def schedule_def Let_def codec_split_def codec_new_def chacha_split_def
      chacha_set_keys_def rx_codec_new_def tx_codec_new_def link_ready_def link_new_def)

definition demo_link :: link where
  "demo_link = link_new demo_tx demo_rx"

lemma demo_link_ready: "link_ready demo_link"
  by (simp add: demo_link_def link_ready_def link_new_def)

lemma demo_link_sends:
  obtains l where "link_step toy_crypto demo_link l" "ln_sent l = [(1, Data, [7, 8])]"
proof -
  obtain out tx' r' where "encode_batch toy_crypto 600 demo_tx [(1, Data, [7, 8])] (\<lambda>_. 3) = (Ok out, tx', r')"
    by (rule encode_batch_link [OF toy_aead_laws demo_wf(1), of "[(1, Data, [7, 8])]" 600 "\<lambda>_. 3"]) simp_all
  then have "link_step toy_crypto demo_link (demo_link\<lparr>ln_tx := tx', ln_wire := ln_wire demo_link @ out,
      ln_sent := ln_sent demo_link @ [(1, Data, [7, 8])]\<rparr>)"
    by (intro link_send) (simp_all add: demo_link_def link_new_def)
  from that [OF this] show thesis
    by (simp add: demo_link_def link_new_def)
qed

section \<open>Properties\<close>

text \<open>Property C8 (link_refines_fifo): every step of a link that is in order - a batch or a cover frame
  sent, any number of bytes read - is a step of a queue of frames, and leaves the link in order.\<close>

theorem link_refines_fifo:
  assumes "aead_laws P" and "link_inv P l" and "link_step P l l'"
  shows "link_inv P l' \<and> fifo_step (link_abs l) (link_abs l')"
proof
  show inv: "link_inv P l'"
    by (rule link_step_inv [OF assms])
  note h = link_inv_pending [OF assms(2)] link_inv_pending [OF inv]
  from assms(3) show "fifo_step (link_abs l) (link_abs l')"
    by cases (rule fifo_of_histories [OF h]; force)+
qed

lemma link_refines_fifo_witness:
  "\<exists>l. ln_sent l = [(1, Data, [7, 8])] \<and> link_inv toy_crypto l \<and> fifo_step (link_abs demo_link) (link_abs l)"
proof -
  obtain l where "link_step toy_crypto demo_link l" "ln_sent l = [(1, Data, [7, 8])]"
    by (rule demo_link_sends)
  with link_refines_fifo [OF toy_aead_laws link_ready_inv [OF demo_link_ready], of l] show ?thesis
    by blast
qed

text \<open>Whatever is sent and however the bytes are read, a link that starts
  with both sides in step never fails; the frames that came out are the first ones that were
  sent, in order, and all of them once no bytes are under way.\<close>

theorem link_in_order:
  assumes "aead_laws P" and "link_ready l0" and "rtranclp (link_step P) l0 l"
  shows "ln_outcome l = Ok () \<and>
    (\<exists>missing. ln_sent l = map item_of_frame (ln_got l) @ missing \<and> (ln_wire l = [] \<longrightarrow> missing = []))"
  using link_inv_in_order [OF link_reachable_inv [OF assms]] by (simp add: in_order_def)

lemma link_in_order_witness:
  "\<exists>l :: link. ln_sent l = [(1, Data, [7, 8])] \<and> ln_outcome l = Ok () \<and>
     (\<exists>missing. ln_sent l = map item_of_frame (ln_got l) @ missing \<and> (ln_wire l = [] \<longrightarrow> missing = []))"
proof -
  obtain l where l: "link_step toy_crypto demo_link l" "ln_sent l = [(1, Data, [7, 8])]"
    by (rule demo_link_sends)
  show ?thesis
    using link_in_order [OF toy_aead_laws demo_link_ready r_into_rtranclp [of "link_step toy_crypto", OF l(1)]] l(2) by blast
qed

text \<open>Property C15 (link_delivers): from every state a link can reach, one more read is enough for the
  receiver to have got everything that was sent.\<close>

theorem link_delivers:
  assumes "aead_laws P" and "link_ready l0" and "rtranclp (link_step P) l0 l"
  shows "\<exists>l'. link_step P l l' \<and> map item_of_frame (ln_got l') = ln_sent l' \<and> ln_wire l' = [] \<and> ln_sent l' = ln_sent l"
proof -
  obtain ms rx where d: "drain (decode_inbound P) (ln_rx l) (ln_buffer l @ ln_wire l) = Some (ms, Ok (), rx, [])"
    "ln_sent l = map item_of_frame (ln_got l @ ms)" "ln_outcome l = Ok ()"
    using link_reachable_inv [OF assms] by (auto simp: link_inv_def)
  then have "link_step P l (l\<lparr>ln_rx := rx, ln_buffer := [], ln_wire := drop (length (ln_wire l)) (ln_wire l),
      ln_got := ln_got l @ ms, ln_outcome := Ok ()\<rparr>)"
    by (intro link_read) simp_all
  with d(2) show ?thesis
    by (intro exI [of _ "l\<lparr>ln_rx := rx, ln_buffer := [], ln_wire := drop (length (ln_wire l)) (ln_wire l),
      ln_got := ln_got l @ ms, ln_outcome := Ok ()\<rparr>"]) simp
qed

lemma link_delivers_witness:
  "\<exists>l' :: link. map item_of_frame (ln_got l') = [(1, Data, [7, 8])] \<and> ln_wire l' = []"
proof -
  obtain l where l: "link_step toy_crypto demo_link l" "ln_sent l = [(1, Data, [7, 8])]"
    by (rule demo_link_sends)
  show ?thesis
    using link_delivers [OF toy_aead_laws demo_link_ready r_into_rtranclp [of "link_step toy_crypto", OF l(1)]] l(2) by metis
qed

text \<open>Property C3 (connection_in_order): client and server with credentials that belong together go
  through the handshake; the codecs they make from the keys each derived then carry frames in
  both directions: no link between them ever fails, and what comes out is what was sent, in
  order, and all of it once no bytes are under way.\<close>

theorem connection_in_order:
  assumes "hkdf_lengths P" and "dh_commutes P" and "aead_laws P" and "can_talk P c s"
    and "unat sent \<le> unat now + 120" and "unat now \<le> unat sent + 120"
    and "hello_fits host (public_key_bytes c) profile" and "valid_utf8 host" and "generous r"
    and "shaper_wf a" and "shaper_wf b"
  shows "\<exists>wire r' m reply s' m' kc c' ks rxc txc rxs txs.
    wrap_client_hello P sent profile host c r = Some (wire, r') \<and> unpack_handshake wire = (Ok (Some m), []) \<and>
    wrap_server_hello P now m s sprofile = (Ok (reply, claimed_version c), s') \<and>
    unpack_handshake reply = (Ok (Some m'), []) \<and>
    update_keys P c (msg_random m') (msg_extensions m') False = (Ok kc, c') \<and> get_aead_parameters s' = Some ks \<and>
    side_codec kc (get_auth_key c') a = Some (rxc, txc) \<and> side_codec ks (get_auth_key s') b = Some (rxs, txs) \<and>
    (\<forall>l. rtranclp (link_step P) (link_new txc rxs) l \<longrightarrow> in_order l) \<and>
    (\<forall>l. rtranclp (link_step P) (link_new txs rxc) l \<longrightarrow> in_order l)"
proof -
  have hmac: "hmac_32 P"
    using assms(3) by (simp add: aead_laws_def)
  obtain wire r' m reply s' m' c' prk where
    w: "\<forall>rest. unpack_handshake (wire @ rest) = (Ok (Some m), rest)"
      "\<forall>rest. unpack_handshake (reply @ rest) = (Ok (Some m'), rest)"
    and *: "wrap_client_hello P sent profile host c r = Some (wire, r')"
      "wrap_server_hello P now m s sprofile = (Ok (reply, claimed_version c), s')"
      "update_keys P c (msg_random m') (msg_extensions m') False = (Ok (schedule P prk False), c')"
      "get_aead_parameters s' = Some (schedule P prk True)"
    by (rule handshake_runs [OF assms(1,2) hmac assms(4-9), where sprofile = sprofile])
  have "unpack_handshake wire = (Ok (Some m), [])" "unpack_handshake reply = (Ok (Some m'), [])"
    using w(1) [rule_format, of "[]"] w(2) [rule_format, of "[]"] by simp_all
  moreover obtain rxc txc rxs txs where sides: "side_codec (schedule P prk False) (get_auth_key c') a = Some (rxc, txc)"
    "side_codec (schedule P prk True) (get_auth_key s') b = Some (rxs, txs)"
    "link_ready (link_new txc rxs)" "link_ready (link_new txs rxc)"
    by (rule side_codecs_ready [OF assms(10,11)])
  ultimately show ?thesis
    using * link_inv_in_order [OF link_reachable_inv [OF assms(3) sides(3)]]
      link_inv_in_order [OF link_reachable_inv [OF assms(3) sides(4)]]
    by blast
qed

lemma connection_in_order_witness:
  "\<exists>wire r' m reply s' m' kc c' ks rxc txc rxs txs.
    wrap_client_hello toy_crypto 1000 chrome_140 (ascii ''example.com'') demo_client_keys (\<lambda>i. 1) = Some (wire, r') \<and>
    unpack_handshake wire = (Ok (Some m), []) \<and>
    wrap_server_hello toy_crypto 1100 m demo_server_keys server_modern = (Ok (reply, claimed_version demo_client_keys), s') \<and>
    unpack_handshake reply = (Ok (Some m'), []) \<and>
    update_keys toy_crypto demo_client_keys (msg_random m') (msg_extensions m') False = (Ok kc, c') \<and>
    get_aead_parameters s' = Some ks \<and>
    side_codec kc (get_auth_key c') (tx_shaper demo_tx) = Some (rxc, txc) \<and>
    side_codec ks (get_auth_key s') (tx_shaper demo_tx) = Some (rxs, txs) \<and>
    (\<forall>l. rtranclp (link_step toy_crypto) (link_new txc rxs) l \<longrightarrow> in_order l) \<and>
    (\<forall>l. rtranclp (link_step toy_crypto) (link_new txs rxc) l \<longrightarrow> in_order l)"
  by (rule connection_in_order [OF toy_crypto_laws(5,6) toy_aead_laws demo_can_talk _ _ demo_hello_fits generous_ones]) simp_all

end
