(* ===== verification/Session_Stream.thy ===== *)
theory Session_Stream
  imports Connection
begin

text \<open>
  One side reading its peer from the first byte on: the hello, the change-cipher-spec record
  that follows it, then the frames of the codec made from the derived keys.  All three come
  out of one TCP stream, cut by the network wherever it likes; the reader is a chain of the
  readers of the single parts, and the law of \<open>stream_decoder\<close> holds of it, so that neither a
  hello cut in the middle nor data that arrive glued to the reply make a difference.
\<close>

section \<open>The reader of one side\<close>

definition ccs_then_frames :: "crypto \<Rightarrow> (rx_codec + rx_codec, tls_error, unit + frame) decoder" where
  "ccs_then_frames P = chain_step unpack_middlebox_ccs (\<lambda>rx _. Ok rx) (decode_inbound P)"

definition side_reader ::
  "crypto \<Rightarrow> (handshake_msg \<Rightarrow> (tls_error, rx_codec) result) \<Rightarrow>
     (unit + rx_codec + rx_codec, tls_error, handshake_msg + unit + frame) decoder" where
  "side_reader P accept =
     chain_step unpack_handshake (\<lambda>_ m. bind_result (accept m) (\<lambda>rx. Ok (Inl rx))) (ccs_then_frames P)"

text \<open>What a side does with the hello it has read, up to the codec it receives with.\<close>

definition server_accept ::
  "crypto \<Rightarrow> u64 \<Rightarrow> session_keys \<Rightarrow> server_profile \<Rightarrow> pad_shaper \<Rightarrow> handshake_msg \<Rightarrow> (tls_error, rx_codec) result" where
  "server_accept P now keys profile shaper m =
     (case wrap_server_hello P now m keys profile of
        (Ok _, keys') \<Rightarrow>
          (case Option.bind (get_aead_parameters keys') (\<lambda>ks. side_codec ks (get_auth_key keys') shaper) of
             Some (rx, _) \<Rightarrow> Ok rx
           | None \<Rightarrow> Panic)
      | (Err e, _) \<Rightarrow> Err e
      | (Panic, _) \<Rightarrow> Panic)"

definition client_accept ::
  "crypto \<Rightarrow> session_keys \<Rightarrow> pad_shaper \<Rightarrow> handshake_msg \<Rightarrow> (tls_error, rx_codec) result" where
  "client_accept P keys shaper m =
     (case update_keys P keys (msg_random m) (msg_extensions m) False of
        (Ok ks, keys') \<Rightarrow>
          (case side_codec ks (get_auth_key keys') shaper of Some (rx, _) \<Rightarrow> Ok rx | None \<Rightarrow> Panic)
      | (Err e, _) \<Rightarrow> Err (handshake_error ''Key Exchange Failed'')
      | (Panic, _) \<Rightarrow> Panic)"

section \<open>It is a stream decoder\<close>

interpretation ccs_chain: parser_then_decoder record_can_parse unpack_middlebox_ccs "decode_inbound P"
    "\<lambda>rx. length (rx_staging rx)" for P
  by intro_locales

lemma ccs_then_frames_decoder:
  "stream_decoder (ccs_then_frames P) (case_sum (\<lambda>_. 0) (\<lambda>rx. length (rx_staging rx)))"
  unfolding ccs_then_frames_def by (rule ccs_chain.chain_decoder)

interpretation hello_chain: parser_then_decoder record_can_parse unpack_handshake "ccs_then_frames P"
    "case_sum (\<lambda>_. 0) (\<lambda>rx. length (rx_staging rx))" for P
  by (intro parser_then_decoder.intro hello_parser.incremental_parser_axioms ccs_then_frames_decoder)

interpretation reader: stream_decoder "side_reader P accept"
    "case_sum (\<lambda>_. 0) (case_sum (\<lambda>_. 0) (\<lambda>rx. length (rx_staging rx)))" for P accept
  unfolding side_reader_def by (rule hello_chain.chain_decoder)

text \<open>The whole conversation, however it is cut.\<close>

lemma side_reader_reads:
  assumes "\<forall>rest. unpack_handshake (hello @ rest) = (Ok (Some m), rest)" "accept m = Ok rx"
    and "carries P (rx_crypto rx) out frames cs" "rx_staging rx = []"
    and "concat chunks = hello @ build_middlebox_ccs @ out"
  shows "map_option delivered (feed (side_reader P accept) (Inl ()) [] chunks) =
    Some (Inl m # Inr (Inl ()) # map (Inr \<circ> Inr) frames, Ok ())"
proof -
  have frames: "drain (decode_inbound P) rx out = Some (frames, Ok (), rx\<lparr>rx_crypto := cs\<rparr>, [])"
    by (rule carries_delivered [OF assms(3) refl assms(4)])
  have "unpack_middlebox_ccs (build_middlebox_ccs @ out) = (Ok (Some ()), out)"
    using ccs_exact by blast
  then have "drain (ccs_then_frames P) (Inl rx) (build_middlebox_ccs @ out) =
      Some (Inl () # map Inr frames, Ok (), Inr (rx\<lparr>rx_crypto := cs\<rparr>), [])"
    unfolding ccs_then_frames_def
    by (subst drain_chain_first) (auto simp: drain_chain_later [OF frames])
  note later = drain_chain_later [OF this]
  have "drain (side_reader P accept) (Inl ()) (hello @ build_middlebox_ccs @ out) =
      Some (Inl m # map Inr (Inl () # map Inr frames), Ok (), Inr (Inr (rx\<lparr>rx_crypto := cs\<rparr>)), [])"
    unfolding side_reader_def
    by (subst drain_chain_first) (use assms(1,2) in \<open>auto simp: later\<close>)
  then show ?thesis
    by (simp add: reader.feed_chunks assms(5))
qed

section \<open>Properties\<close>

text \<open>Property C2 (session_in_chunks): client and server with credentials that belong together; each side sends
  its hello, the change-cipher-spec record and any batch of frames in one stream, and the network cuts both
  streams into any pieces.  Reading piece by piece, the server gets the client's hello, the marker and exactly
  the client's frames, and the client gets the reply, the marker and exactly the server's frames.\<close>

theorem session_in_chunks:
  assumes "hkdf_lengths P" and "dh_commutes P" and "aead_laws P" and "can_talk P c s"
    and "unat sent \<le> unat now + 120" and "unat now \<le> unat sent + 120"
    and "hello_fits host (public_key_bytes c) profile" and "valid_utf8 host" and "generous r"
    and "shaper_wf a" and "shaper_wf b" and "items_fit 65494 up" and "items_fit 65494 down"
    and "\<And>bs. concat (chunks bs) = bs"
  shows "\<exists>wire r' m reply s' m' kc c' ks rxc txc rxs txs outc tc rc fc outs ts rs fs.
    wrap_client_hello P sent profile host c r = Some (wire, r') \<and>
    wrap_server_hello P now m s sprofile = (Ok (reply, claimed_version c), s') \<and>
    update_keys P c (msg_random m') (msg_extensions m') False = (Ok kc, c') \<and> get_aead_parameters s' = Some ks \<and>
    side_codec kc (get_auth_key c') a = Some (rxc, txc) \<and> side_codec ks (get_auth_key s') b = Some (rxs, txs) \<and>
    encode_batch P t txc up rnd = (Ok outc, tc, rc) \<and> map item_of_frame fc = up \<and>
    map_option delivered (feed (side_reader P (server_accept P now s sprofile b)) (Inl ()) []
        (chunks (wire @ build_middlebox_ccs @ outc))) = Some (Inl m # Inr (Inl ()) # map (Inr \<circ> Inr) fc, Ok ()) \<and>
    encode_batch P t txs down rnd = (Ok outs, ts, rs) \<and> map item_of_frame fs = down \<and>
    map_option delivered (feed (side_reader P (client_accept P c a)) (Inl ()) []
        (chunks (reply @ build_middlebox_ccs @ outs))) = Some (Inl m' # Inr (Inl ()) # map (Inr \<circ> Inr) fs, Ok ())"
proof -
  have hmac: "hmac_32 P"
    using assms(3) by (simp add: aead_laws_def)
  obtain wire r' m reply s' m' c' prk where
    w: "\<forall>rest. unpack_handshake (wire @ rest) = (Ok (Some m), rest)"
      "\<forall>rest. unpack_handshake (reply @ rest) = (Ok (Some m'), rest)"
    and *: "wrap_client_hello P sent profile host c r = Some (wire, r')"
      "wrap_server_hello P now m s sprofile = (Ok (reply, claimed_version c), s')"
      "update_keys P c (msg_random m') (msg_extensions m') False = (Ok (schedule P prk False), c')"
      "get_aead_parameters s' = Some (schedule P prk True)"
    by (rule handshake_runs [OF assms(1,2) hmac assms(4-9), where sprofile = sprofile])
  obtain rxc txc rxs txs where sides: "side_codec (schedule P prk False) (get_auth_key c') a = Some (rxc, txc)"
    "side_codec (schedule P prk True) (get_auth_key s') b = Some (rxs, txs)"
    "link_ready (link_new txc rxs)" "link_ready (link_new txs rxc)"
    by (rule side_codecs_ready [OF assms(10,11)])
  have ready: "rx_crypto rxs = tx_crypto txc" "rx_staging rxs = []" "shaper_wf (tx_shaper txc)"
    "rx_crypto rxc = tx_crypto txs" "rx_staging rxc = []" "shaper_wf (tx_shaper txs)"
    using sides(3,4) by (simp_all add: link_ready_def link_new_def)
  have accept: "server_accept P now s sprofile b m = Ok rxs" "client_accept P c a m' = Ok rxc"
    using * sides(1,2) by (simp_all add: server_accept_def client_accept_def)
  obtain outc tc rc fc where up: "encode_batch P t txc up rnd = (Ok outc, tc, rc)"
    "carries P (tx_crypto txc) outc fc (tx_crypto tc)" "map item_of_frame fc = up"
    by (rule encode_batch_link [OF assms(3) ready(3) assms(12), of t rnd])
  obtain outs ts rs fs where down: "encode_batch P t txs down rnd = (Ok outs, ts, rs)"
    "carries P (tx_crypto txs) outs fs (tx_crypto ts)" "map item_of_frame fs = down"
    by (rule encode_batch_link [OF assms(3) ready(6) assms(13), of t rnd])
  have reads: "map_option delivered (feed (side_reader P (server_accept P now s sprofile b)) (Inl ()) []
      (chunks (wire @ build_middlebox_ccs @ outc))) = Some (Inl m # Inr (Inl ()) # map (Inr \<circ> Inr) fc, Ok ())"
    "map_option delivered (feed (side_reader P (client_accept P c a)) (Inl ()) []
      (chunks (reply @ build_middlebox_ccs @ outs))) = Some (Inl m' # Inr (Inl ()) # map (Inr \<circ> Inr) fs, Ok ())"
    using side_reader_reads [where P = P and out = outc and frames = fc and cs = "tx_crypto tc" and
        accept = "server_accept P now s sprofile b", OF w(1) accept(1)] up(2)
      side_reader_reads [where P = P and out = outs and frames = fs and cs = "tx_crypto ts" and
        accept = "client_accept P c a", OF w(2) accept(2)] down(2) ready assms(14)
    by simp_all
  show ?thesis
    by (rule exI [of _ wire], rule exI [of _ r'], rule exI [of _ m], rule exI [of _ reply], rule exI [of _ s'],
        rule exI [of _ m'], rule exI [of _ "schedule P prk False"], rule exI [of _ c'],
        rule exI [of _ "schedule P prk True"], rule exI [of _ rxc], rule exI [of _ txc], rule exI [of _ rxs],
        rule exI [of _ txs], rule exI [of _ outc], rule exI [of _ tc], rule exI [of _ rc], rule exI [of _ fc],
        rule exI [of _ outs], rule exI [of _ ts], rule exI [of _ rs], rule exI [of _ fs])
       (use * sides(1,2) up(1,3) down(1,3) reads in \<open>simp only: simp_thms\<close>)
qed

text \<open>The example reads both streams byte by byte.\<close>

lemma session_in_chunks_witness:
  "\<exists>wire r' m reply s' m' kc c' ks rxc txc rxs txs outc tc rc fc outs ts rs fs.
    wrap_client_hello toy_crypto 1000 chrome_140 (ascii ''example.com'') demo_client_keys (\<lambda>i. 1) = Some (wire, r') \<and>
    wrap_server_hello toy_crypto 1100 m demo_server_keys server_modern = (Ok (reply, claimed_version demo_client_keys), s') \<and>
    update_keys toy_crypto demo_client_keys (msg_random m') (msg_extensions m') False = (Ok kc, c') \<and>
    get_aead_parameters s' = Some ks \<and>
    side_codec kc (get_auth_key c') (tx_shaper demo_tx) = Some (rxc, txc) \<and>
    side_codec ks (get_auth_key s') (tx_shaper demo_tx) = Some (rxs, txs) \<and>
    encode_batch toy_crypto 1200 txc [(1, Data, [7, 8])] (\<lambda>_. 3) = (Ok outc, tc, rc) \<and>
    map item_of_frame fc = [(1, Data, [7, 8])] \<and>
    map_option delivered (feed (side_reader toy_crypto (server_accept toy_crypto 1100 demo_server_keys server_modern
        (tx_shaper demo_tx))) (Inl ()) [] (map (\<lambda>b. [b]) (wire @ build_middlebox_ccs @ outc))) =
      Some (Inl m # Inr (Inl ()) # map (Inr \<circ> Inr) fc, Ok ()) \<and>
    encode_batch toy_crypto 1200 txs [(1, Data, [9]), (1, Close, [])] (\<lambda>_. 3) = (Ok outs, ts, rs) \<and>
    map item_of_frame fs = [(1, Data, [9]), (1, Close, [])] \<and>
    map_option delivered (feed (side_reader toy_crypto (client_accept toy_crypto demo_client_keys
        (tx_shaper demo_tx))) (Inl ()) [] (map (\<lambda>b. [b]) (reply @ build_middlebox_ccs @ outs))) =
      Some (Inl m' # Inr (Inl ()) # map (Inr \<circ> Inr) fs, Ok ())"
  by (rule session_in_chunks [OF toy_crypto_laws(5,6) toy_aead_laws demo_can_talk _ _ demo_hello_fits generous_ones,
        where chunks = "map (\<lambda>b. [b])"]) simp_all

end
