(* ===== verification/Hostile_Stream.thy ===== *)
theory Hostile_Stream
  imports Connection
begin

text \<open>
  The record stream under attack.  Whoever sits between the two sides decides which bytes the
  receiver sees: it may drop, repeat, reorder, cut and alter the sender's records and insert
  its own.  What is assumed of the cipher is stated on the run (\<open>unforged\<close>): a record only opens
  if it is the one the sender sealed with the nonce the receiver has come to.  Then the
  frames delivered are always a prefix of the frames sent, refused bytes change nothing, and
  the sender's next record is still accepted.
\<close>

section \<open>The sender's records\<close>

text \<open>A run of the sender: the records it made, one after the other, and the items in them.\<close>

inductive sender_run :: "crypto \<Rightarrow> tx_codec \<Rightarrow> tx_codec \<Rightarrow> bytes list \<Rightarrow> frame_item list \<Rightarrow> bool" for P tx0 where
  sender_idle: "sender_run P tx0 tx0 [] []"
| sender_batch: "\<lbrakk>sender_run P tx0 tx cts sent; items_fit 65494 items; records_fit cs;
     encode_batch P now tx items r = (Ok (concat (map pack_app_data cs)), tx', r')\<rbrakk> \<Longrightarrow>
    sender_run P tx0 tx' (cts @ cs) (sent @ items)"
| sender_cover: "\<lbrakk>sender_run P tx0 tx cts sent; records_fit [c];
     encode_cover P now tx target r = (Ok (pack_app_data c), tx', r')\<rbrakk> \<Longrightarrow>
    sender_run P tx0 tx' (cts @ [c]) (sent @ [(0, Cover, [])])"

text \<open>The bytes determine the records.\<close>

lemma pack_app_data_inject:
  assumes "records_fit [c]" "records_fit [d]" "pack_app_data c @ xs = pack_app_data d @ ys"
  shows "c = d \<and> xs = ys"
proof -
  have c: "unpack_app_data (pack_app_data c @ xs) = (Ok (Some \<lparr>ad_len = length c, ad_payload = c\<rparr>), xs)"
    and d: "unpack_app_data (pack_app_data d @ ys) = (Ok (Some \<lparr>ad_len = length d, ad_payload = d\<rparr>), ys)"
    using assms(1,2) by (simp_all add: unpack_pack_app_data)
  show ?thesis
    using c unfolding assms(3) d by simp
qed

lemma pack_app_data_nonempty: "pack_app_data c \<noteq> []"
  by (simp add: pack_app_data_def build_application_data_def serialize_header record_header_def)

lemma packed_records_inject:
  "records_fit cs \<Longrightarrow> records_fit ds \<Longrightarrow> concat (map pack_app_data cs) = concat (map pack_app_data ds) \<Longrightarrow> cs = ds"
proof (induction cs arbitrary: ds)
  case Nil
  then show ?case
    by (cases ds) (simp_all add: pack_app_data_nonempty)
next
  case (Cons c cs)
  obtain d ds' where ds: "ds = d # ds'"
    using Cons.prems(3) by (cases ds) (simp_all add: pack_app_data_nonempty)
  have "c = d \<and> concat (map pack_app_data cs) = concat (map pack_app_data ds')"
    by (rule pack_app_data_inject) (use Cons.prems ds in simp_all)
  with Cons.IH [of ds'] Cons.prems(1,2) ds show ?case
    by simp
qed

lemma encode_batch_records:
  assumes "aead_laws P" "shaper_wf (tx_shaper tx)" "items_fit 65494 items"
  obtains cs fss r' where "encode_batch P now tx items r =
      (Ok (concat (map pack_app_data cs)), tx\<lparr>tx_crypto := stream_after (length cs) (tx_crypto tx)\<rparr>, r')"
    "records_fit cs" "records_open P (tx_crypto tx) cs fss" "map item_of_frame (concat fss) = items"
proof -
  obtain cs frames r' fss where *: "encode_batch P now tx items r =
      (Ok (concat (map pack_app_data cs)), tx\<lparr>tx_crypto := stream_after (length cs) (tx_crypto tx)\<rparr>, r')"
    "map item_of_frame frames = items" "records_fit cs"
    "concat fss = frames" "records_open P (tx_crypto tx) cs fss"
    using encode_batch_delivers [OF assms order_refl, of now r] unfolding delivers_def by auto
  then show thesis
    using that by blast
qed

text \<open>What a run of the sender made opens record by record to the items sent.\<close>

definition sent_as :: "crypto \<Rightarrow> tx_codec \<Rightarrow> tx_codec \<Rightarrow> bytes list \<Rightarrow> frame_item list \<Rightarrow> bool" where
  "sent_as P tx0 tx cts sent \<longleftrightarrow>
     tx_shaper tx = tx_shaper tx0 \<and> tx_crypto tx = stream_after (length cts) (tx_crypto tx0) \<and> records_fit cts \<and>
     (\<exists>fss. records_open P (tx_crypto tx0) cts fss \<and> map item_of_frame (concat fss) = sent)"

lemma sent_as_more:
  assumes "sent_as P tx0 tx cts sent" "records_open P (tx_crypto tx) cs fss" "records_fit cs"
    and "tx_shaper tx' = tx_shaper tx" "tx_crypto tx' = stream_after (length cs) (tx_crypto tx)"
  shows "sent_as P tx0 tx' (cts @ cs) (sent @ map item_of_frame (concat fss))"
proof -
  obtain fss0 where 0: "records_open P (tx_crypto tx0) cts fss0" "map item_of_frame (concat fss0) = sent"
    using assms(1) unfolding sent_as_def by blast
  have "records_open P (tx_crypto tx0) (cts @ cs) (fss0 @ fss)"
    by (rule records_open_append [OF 0(1)]) (use assms(1,2) in \<open>simp add: sent_as_def\<close>)
  with 0(2) assms(1,3-) show ?thesis
    unfolding sent_as_def by (intro conjI exI [of _ "fss0 @ fss"]) simp_all
qed

lemma sender_run_sent:
  assumes "sender_run P tx0 tx cts sent" "aead_laws P" "shaper_wf (tx_shaper tx0)"
  shows "sent_as P tx0 tx cts sent"
  using assms(1)
proof induction
  case sender_idle
  show ?case
    unfolding sent_as_def by (intro conjI exI [of _ "[]"]) simp_all
next
  case (sender_batch tx cts sent items cs now r tx' r')
  then have "shaper_wf (tx_shaper tx)"
    using assms(3) by (simp add: sent_as_def)
  then obtain cs' fss r2 where 1: "encode_batch P now tx items r =
      (Ok (concat (map pack_app_data cs')), tx\<lparr>tx_crypto := stream_after (length cs') (tx_crypto tx)\<rparr>, r2)"
    "records_fit cs'" "records_open P (tx_crypto tx) cs' fss" "map item_of_frame (concat fss) = items"
    by (rule encode_batch_records [OF assms(2) _ sender_batch(2), of _ now r])
  have "cs' = cs"
    by (rule packed_records_inject [OF 1(2) sender_batch(3)]) (use 1(1) sender_batch(4) in simp)
  note 2 = 1 [unfolded this]
  have "tx' = tx\<lparr>tx_crypto := stream_after (length cs) (tx_crypto tx)\<rparr>"
    using 2(1) sender_batch(4) by simp
  then show ?case
    using sent_as_more [OF sender_batch.IH 2(3,2), of tx'] 2(4) by simp
next
  case (sender_cover tx cts sent c now target r tx' r')
  obtain c' f r2 where 1: "encode_cover P now tx target r =
      (Ok (pack_app_data c'), tx\<lparr>tx_crypto := stream_after 1 (tx_crypto tx)\<rparr>, r2)"
    "length c' = max 41 (min 16401 target)" "item_of_frame f = (0, Cover, [])"
    "records_open P (tx_crypto tx) [c'] [[f]]"
    by (rule encode_cover_carries [OF assms(2)])
  have fit: "records_fit [c']"
    by (auto simp: 1(2) max_def min_def)
  have "c' = c"
    using pack_app_data_inject [OF fit sender_cover(2), of "[]" "[]"] 1(1) sender_cover(3) by simp
  note 2 = 1 [unfolded this]
  have "tx' = tx\<lparr>tx_crypto := stream_after 1 (tx_crypto tx)\<rparr>"
    using 2(1) sender_cover(3) by simp
  then show ?case
    using sent_as_more [OF sender_cover.IH 2(4) sender_cover(2), of tx'] 2(3) by simp
qed

section \<open>The attack\<close>

text \<open>
  The receiver's side: its codec, its buffer, and what it has delivered.  Any bytes may arrive
  at any time, and the reader may go on after an error.
\<close>

record attacked =
  at_rx :: rx_codec
  at_buffer :: bytes
  at_got :: "frame list"

definition attacked_new :: "rx_codec \<Rightarrow> attacked" where
  "attacked_new rx = \<lparr>at_rx = rx, at_buffer = [], at_got = []\<rparr>"

text \<open>
  What is assumed of the cipher, for the record at the front of the buffer: if it opens, it is
  the sender's record of the position the receiver has come to.
\<close>

definition unforged :: "crypto \<Rightarrow> chacha_stream \<Rightarrow> bytes list \<Rightarrow> rx_codec \<Rightarrow> bytes \<Rightarrow> bool" where
  "unforged P cs0 cts rx buffer \<longleftrightarrow>
     (case unpack_app_data buffer of
        (Ok (Some a), _) \<Rightarrow>
          (case chacha_decrypt P (rx_crypto rx) (ad_payload a) of
             (Ok p, _) \<Rightarrow> \<exists>k < length cts. rx_crypto rx = stream_after k cs0 \<and> ad_payload a = cts ! k
           | _ \<Rightarrow> True)
      | _ \<Rightarrow> True)"

fun delivered_frames :: "(tls_error, frame option) result \<Rightarrow> frame list" where
  "delivered_frames (Ok (Some f)) = [f]"
| "delivered_frames _ = []"

inductive attack_step :: "crypto \<Rightarrow> chacha_stream \<Rightarrow> bytes list \<Rightarrow> attacked \<Rightarrow> attacked \<Rightarrow> bool" for P cs0 cts where
  attack_bytes: "attack_step P cs0 cts h (h\<lparr>at_buffer := at_buffer h @ bs\<rparr>)"
| attack_read: "\<lbrakk>unforged P cs0 cts (at_rx h) (at_buffer h);
     decode_inbound P (at_rx h) (at_buffer h) = (res, rx', buf')\<rbrakk> \<Longrightarrow>
    attack_step P cs0 cts h (h\<lparr>at_rx := rx', at_buffer := buf', at_got := at_got h @ delivered_frames res\<rparr>)"

text \<open>
  The invariant: the receiver has opened the first \<open>k\<close> records of the sender, and the frames
  of the last one that were not delivered yet are staged.
\<close>

definition opened :: "chacha_stream \<Rightarrow> frame list list \<Rightarrow> nat \<Rightarrow> rx_codec \<Rightarrow> frame list \<Rightarrow> bool" where
  "opened cs0 fss k rx got \<longleftrightarrow> k \<le> length fss \<and> rx_crypto rx = stream_after k cs0 \<and>
     (\<exists>pend. staged (rx_staging rx) pend \<and> got @ pend = concat (take k fss))"

lemma stream_after_inject:
  assumes "stream_after j s = stream_after k s" "j < 2 ^ 64" "k < 2 ^ 64"
  shows "j = k"
proof -
  have "ns_counter (cs_state (stream_after j s)) = ns_counter (cs_state (stream_after k s))"
    using assms(1) by simp
  then have "(of_nat j :: u64) = of_nat k"
    by (simp add: stream_after_def)
  with assms(2,3) show ?thesis
    by (simp add: word_of_nat_eq_iff take_bit_nat_eq_self)
qed

lemma staged_Nil [simp]: "staged [] fs \<longleftrightarrow> fs = []"
proof -
  have "fst (frame_parse []) = Ok None"
    using frame_parse_early [of "[]"] by simp
  then show ?thesis
    by (cases fs) simp_all
qed

text \<open>One call of the decoder when nothing is staged.\<close>

lemma decode_loop_record:
  assumes "unpack_app_data buffer = (Ok (Some a), b)" "rx_staging rx = []"
    and "chacha_decrypt P (rx_crypto rx) (ad_payload a) = (Ok p, cs)" "staged p (f # fs)"
  shows "\<exists>st. decode_loop P rx buffer = (Ok (Some f), rx\<lparr>rx_crypto := cs, rx_staging := st\<rparr>, b) \<and> staged st fs"
proof -
  obtain st where "frame_parse p = (Ok (Some f), st)" "staged st fs"
    using assms(4) by (cases "frame_parse p") auto
  with assms(1-3) show ?thesis
    by (auto simp: decode_loop.simps [of P rx] try_parse_frame_def)
qed

lemma decode_loop_refused:
  assumes "\<forall>a b p cs. unpack_app_data buffer = (Ok (Some a), b) \<longrightarrow>
      chacha_decrypt P (rx_crypto rx) (ad_payload a) \<noteq> (Ok p, cs)"
    and "rx_staging rx = []" "decode_loop P rx buffer = (res, rx', buf')"
  shows "rx' = rx \<and> delivered_frames res = []"
proof -
  obtain u b where u: "unpack_app_data buffer = (u, b)"
    by fastforce
  show ?thesis
  proof (cases "\<exists>a. u = Ok (Some a)")
    case True
    then obtain a where a: "u = Ok (Some a)" ..
    obtain q cs where q: "chacha_decrypt P (rx_crypto rx) (ad_payload a) = (q, cs)"
      by fastforce
    have "q = Err ()"
      using assms(1) u a q by (cases q) (auto simp: chacha_decrypt_def split_beta Let_def split: option.splits)
    moreover from this have "cs = rx_crypto rx"
      using chacha.rollback [of P "rx_crypto rx" "ad_payload a" "()" cs] q by simp
    ultimately show ?thesis
      using assms(2,3) u a q by (auto simp: decode_loop.simps [of P rx])
  next
    case False
    with assms(3) u show ?thesis
      by (cases u) (auto simp: decode_loop.simps [of P rx] split: option.splits)
  qed
qed

lemma decode_attacked:
  assumes "records_open P cs0 cts fss" "length cts < 2 ^ 64" "opened cs0 fss k rx got"
    and "unforged P cs0 cts rx buffer" "decode_inbound P rx buffer = (res, rx', buf')"
  shows "\<exists>k'. opened cs0 fss k' rx' (got @ delivered_frames res)"
proof -
  obtain pend where inv: "k \<le> length fss" "rx_crypto rx = stream_after k cs0" "staged (rx_staging rx) pend"
    "got @ pend = concat (take k fss)"
    using assms(3) unfolding opened_def by blast
  have len: "length fss = length cts"
    using assms(1) by (simp add: records_open_def)
  show ?thesis
  proof (cases pend)
    case (Cons f pend')
    then obtain st where "frame_parse (rx_staging rx) = (Ok (Some f), st)" "staged st pend'"
      using inv(3) by (cases "frame_parse (rx_staging rx)") auto
    then have "decode_inbound P rx buffer = (Ok (Some f), rx\<lparr>rx_staging := st\<rparr>, buffer)"
      by (simp add: decode_inbound_eq try_parse_frame_def)
    then have "opened cs0 fss k rx' (got @ delivered_frames res)"
      using assms(5) inv Cons \<open>staged st pend'\<close> by (auto simp: opened_def)
    then show ?thesis ..
  next
    case Nil
    then have idle: "rx_staging rx = []"
      using inv(3) by simp
    then have loop: "decode_loop P rx buffer = (res, rx', buf')"
      using assms(5) by (simp add: decode_inbound_parseless)
    show ?thesis
    proof (cases "\<exists>a b p cs. unpack_app_data buffer = (Ok (Some a), b) \<and>
        chacha_decrypt P (rx_crypto rx) (ad_payload a) = (Ok p, cs)")
      case True
      then obtain a b p cs where *: "unpack_app_data buffer = (Ok (Some a), b)"
        "chacha_decrypt P (rx_crypto rx) (ad_payload a) = (Ok p, cs)"
        by blast
      then obtain j where j: "j < length cts" "rx_crypto rx = stream_after j cs0" "ad_payload a = cts ! j"
        using assms(4) by (auto simp: unforged_def)
      have "j = k"
        using stream_after_inject [of j cs0 k] j(1,2) inv(1,2) assms(2) len by simp
      then have k: "k < length cts" "chacha_decrypt P (stream_after k cs0) (cts ! k) = (Ok p, cs)"
        using j * by simp_all
      then have "cs = stream_after (Suc k) cs0" "staged p (fss ! k)" "fss ! k \<noteq> []"
        using assms(1) by (auto simp: records_open_def)
      moreover obtain f fs where f: "fss ! k = f # fs"
        using calculation(3) by (cases "fss ! k") auto
      ultimately obtain st where st: "decode_loop P rx buffer =
          (Ok (Some f), rx\<lparr>rx_crypto := stream_after (Suc k) cs0, rx_staging := st\<rparr>, b)" "staged st fs"
        using decode_loop_record [OF *(1) idle *(2), of f fs] by auto
      have "got = concat (take k fss)"
        using inv(4) Nil by simp
      then have "got @ [f] @ fs = concat (take (Suc k) fss)"
        using k(1) len f by (simp add: take_Suc_conv_app_nth)
      then have "opened cs0 fss (Suc k) rx' (got @ delivered_frames res)"
        using loop st k(1) len by (auto simp: opened_def)
      then show ?thesis ..
    next
      case False
      then have "rx' = rx \<and> delivered_frames res = []"
        using decode_loop_refused [OF _ idle loop] by blast
      with assms(3) show ?thesis
        by auto
    qed
  qed
qed

lemma attack_opened:
  assumes "records_open P cs0 cts fss" "length cts < 2 ^ 64" "rx_crypto rx = cs0" "rx_staging rx = []"
    and "rtranclp (attack_step P cs0 cts) (attacked_new rx) h"
  shows "\<exists>k. opened cs0 fss k (at_rx h) (at_got h)"
  using assms(5)
proof induction
  case base
  have "opened cs0 fss 0 rx []"
    using assms(3,4) by (simp add: opened_def)
  then show ?case
    by (auto simp: attacked_new_def)
next
  case (step h h')
  from step(2) show ?case
    using step.IH decode_attacked [OF assms(1,2)] by cases fastforce+
qed

text \<open>From such a state the rest of the records is delivered completely.\<close>

lemma rest_delivered:
  assumes "records_open P cs0 cts fss" "records_fit cts"
  shows "k \<le> length cts \<Longrightarrow> carries P (stream_after k cs0) (concat (map pack_app_data (drop k cts)))
    (concat (drop k fss)) (stream_after (length cts) cs0)"
proof (induction "length cts - k" arbitrary: k)
  case 0
  with assms(1) show ?case
    by (simp add: carries_Nil records_open_def)
next
  case (Suc n)
  then have k: "k < length cts" "k < length fss"
    using assms(1) by (simp_all add: records_open_def)
  obtain p where "chacha_decrypt P (stream_after k cs0) (cts ! k) = (Ok p, stream_after (Suc k) cs0)"
    "staged p (fss ! k)" "fss ! k \<noteq> []"
    using assms(1) k(1) unfolding records_open_def by blast
  then have "carries P (stream_after k cs0) (pack_app_data (cts ! k)) (fss ! k) (stream_after (Suc k) cs0)"
    by (rule carries_opened) (use assms(2) k(1) in \<open>simp_all add: records_fit_def\<close>)
  from carries_append [OF this Suc.hyps(1) [of "Suc k"]] Suc.hyps(2) k show ?case
    by (simp add: Cons_nth_drop_Suc [symmetric])
qed

lemma opened_rest:
  assumes "records_open P cs0 cts fss" "records_fit cts" "opened cs0 fss k rx got"
  shows "\<exists>ms rx'. drain (decode_inbound P) rx (concat (map pack_app_data (drop k cts))) = Some (ms, Ok (), rx', []) \<and>
    got @ ms = concat fss"
proof -
  obtain pend where inv: "k \<le> length fss" "rx_crypto rx = stream_after k cs0" "staged (rx_staging rx) pend"
    "got @ pend = concat (take k fss)"
    using assms(3) unfolding opened_def by blast
  let ?rest = "concat (map pack_app_data (drop k cts))"
  have "drain (decode_inbound P) (rx\<lparr>rx_staging := []\<rparr>) ?rest =
      Some (concat (drop k fss), Ok (), rx\<lparr>rx_staging := [], rx_crypto := stream_after (length cts) cs0\<rparr>, [])"
    by (rule carries_delivered [OF rest_delivered [OF assms(1,2)], of k, THEN trans])
       (use inv assms(1) in \<open>simp_all add: records_open_def\<close>)
  then have "drain (decode_inbound P) (rx\<lparr>rx_staging := rx_staging rx\<rparr>) ?rest =
      Some (pend @ concat (drop k fss), Ok (), rx\<lparr>rx_staging := [], rx_crypto := stream_after (length cts) cs0\<rparr>, [])"
    using drain_staged [OF inv(3), of P rx ?rest] by simp
  moreover have "got @ pend @ concat (drop k fss) = concat fss"
    using inv(4) by (metis append.assoc append_take_drop_id concat_append)
  ultimately show ?thesis
    by simp
qed

section \<open>Properties\<close>

text \<open>An attack for the example: a forged record, refused, then the genuine one.\<close>

definition forged_record :: bytes where
  "forged_record = replicate 40 1"

lemma forged_refused:
  "chacha_decrypt toy_crypto (rx_crypto demo_rx) forged_record = (Err (), rx_crypto demo_rx)"
proof -
  have "aead_open toy_crypto (cs_key (rx_crypto demo_rx)) (fst (next_nonce (cs_state (rx_crypto demo_rx))))
      (fst (next_nonce (cs_state (rx_crypto demo_rx)))) forged_record = None"
    unfolding forged_record_def
    by (rule toy_open_None)
       (simp_all add: demo_rx_def demo_tx_def rx_codec_new_def tx_codec_new_def chacha_stream_new_def
         nonce_state_new_def next_nonce_def xor_counter_layout be64_def nth_append)
  then show ?thesis
    by (simp add: chacha_decrypt_def next_nonce_def)
qed

lemma demo_attack:
  obtains tx c h where "sender_run toy_crypto demo_tx tx [c] [(0, Cover, [])]"
    "rtranclp (attack_step toy_crypto (tx_crypto demo_tx) [c]) (attacked_new demo_rx) h"
    "map item_of_frame (at_got h) = [(0, Cover, [])]"
proof -
  obtain c f r where c: "encode_cover toy_crypto 600 demo_tx 100 (\<lambda>_. 3) =
      (Ok (pack_app_data c), demo_tx\<lparr>tx_crypto := stream_after 1 (tx_crypto demo_tx)\<rparr>, r)"
    "length c = max 41 (min 16401 100)" "item_of_frame f = (0, Cover, [])"
    "records_open toy_crypto (tx_crypto demo_tx) [c] [[f]]"
    by (rule encode_cover_carries [OF toy_aead_laws])
  have fit: "records_fit [c]"
    by (simp add: c(2))
  have run: "sender_run toy_crypto demo_tx (demo_tx\<lparr>tx_crypto := stream_after 1 (tx_crypto demo_tx)\<rparr>) ([] @ [c])
      ([] @ [(0, Cover, [])])"
    by (rule sender_cover [OF sender_idle fit c(1)])
  obtain p where p: "chacha_decrypt toy_crypto (rx_crypto demo_rx) c = (Ok p, stream_after 1 (tx_crypto demo_tx))"
    "staged p [f]"
    using c(4) by (auto simp: records_open_def)
  let ?step = "attack_step toy_crypto (tx_crypto demo_tx) [c]"
  let ?bad = "pack_app_data forged_record" and ?h = "\<lambda>buf. \<lparr>at_rx = demo_rx, at_buffer = buf, at_got = []\<rparr>"
  have bad: "unpack_app_data ?bad = (Ok (Some \<lparr>ad_len = 40, ad_payload = forged_record\<rparr>), [])"
    using unpack_pack_app_data [of forged_record "[]"] by (simp add: forged_record_def)
  have good: "unpack_app_data (pack_app_data c) = (Ok (Some \<lparr>ad_len = length c, ad_payload = c\<rparr>), [])"
    using unpack_pack_app_data [of c "[]"] fit by simp
  have "decode_inbound toy_crypto demo_rx ?bad = (Err aead_decrypt_failed, demo_rx, [])"
    using bad forged_refused by (simp add: decode_inbound_def decode_loop.simps [of toy_crypto demo_rx])
  then have read_bad: "?step (?h ?bad) (?h [])"
    using attack_read [of toy_crypto "tx_crypto demo_tx" "[c]" "?h ?bad"] bad forged_refused
    by (simp add: unforged_def)
  obtain st where "decode_inbound toy_crypto demo_rx (pack_app_data c) =
      (Ok (Some f), demo_rx\<lparr>rx_crypto := stream_after 1 (tx_crypto demo_tx), rx_staging := st\<rparr>, [])"
    using decode_loop_record [OF good demo_wf(3), of toy_crypto p] p by (auto simp: decode_inbound_def)
  then have read_good: "?step (?h (pack_app_data c))
      \<lparr>at_rx = demo_rx\<lparr>rx_crypto := stream_after 1 (tx_crypto demo_tx), rx_staging := st\<rparr>, at_buffer = [], at_got = [f]\<rparr>"
    using attack_read [of toy_crypto "tx_crypto demo_tx" "[c]" "?h (pack_app_data c)"] good p(1)
    by (simp add: unforged_def)
  have bytes: "?step (?h []) (?h buf)" for buf
    using attack_bytes [of toy_crypto "tx_crypto demo_tx" "[c]" "?h []" buf] by simp
  have "rtranclp ?step (attacked_new demo_rx) (?h (pack_app_data c))"
    unfolding attacked_new_def
    using bytes [of ?bad] read_bad bytes [of "pack_app_data c"] by (meson rtranclp.simps)
  then have "rtranclp ?step (attacked_new demo_rx)
      \<lparr>at_rx = demo_rx\<lparr>rx_crypto := stream_after 1 (tx_crypto demo_tx), rx_staging := st\<rparr>, at_buffer = [], at_got = [f]\<rparr>"
    using read_good by (rule rtranclp.rtrancl_into_rtrancl)
  then show thesis
    using that [of _ c] run c(3) by simp
qed

text \<open>Property C4 (hostile_prefix): the sender encodes any batches and covers; whoever holds the network
  feeds the receiver any bytes, and the reader may go on after errors.  As long as no record is forged,
  the frames delivered are always a prefix of the frames sent, in order and without repetition, and some
  suffix of the sender's records, sent next, would deliver exactly the missing ones.\<close>

theorem hostile_prefix:
  assumes "aead_laws P" and "shaper_wf (tx_shaper tx0)" and "sender_run P tx0 tx cts sent" and "length cts < 2 ^ 64"
    and "rx_crypto rx = tx_crypto tx0" and "rx_staging rx = []"
    and "rtranclp (attack_step P (tx_crypto tx0) cts) (attacked_new rx) h"
  shows "\<exists>k ms rx'. k \<le> length cts \<and> sent = map item_of_frame (at_got h @ ms) \<and>
    drain (decode_inbound P) (at_rx h) (concat (map pack_app_data (drop k cts))) = Some (ms, Ok (), rx', [])"
proof -
  obtain fss where fss: "records_open P (tx_crypto tx0) cts fss" "map item_of_frame (concat fss) = sent" "records_fit cts"
    using sender_run_sent [OF assms(3,1,2)] unfolding sent_as_def by blast
  obtain k where k: "opened (tx_crypto tx0) fss k (at_rx h) (at_got h)"
    using attack_opened [OF fss(1) assms(4-7)] by blast
  then have "k \<le> length cts"
    using fss(1) by (simp add: opened_def records_open_def)
  moreover obtain ms rx' where "drain (decode_inbound P) (at_rx h) (concat (map pack_app_data (drop k cts))) =
      Some (ms, Ok (), rx', [])" "at_got h @ ms = concat fss"
    using opened_rest [OF fss(1,3) k] by blast
  ultimately show ?thesis
    using fss(2) by metis
qed

lemma hostile_prefix_witness:
  "\<exists>(h :: attacked) c k ms rx'. map item_of_frame (at_got h) = [(0, Cover, [])] \<and>
     [(0, Cover, [])] = map item_of_frame (at_got h @ ms) \<and>
     drain (decode_inbound toy_crypto) (at_rx h) (concat (map pack_app_data (drop k [c]))) = Some (ms, Ok (), rx', [])"
proof -
  obtain tx c and h :: attacked where run: "sender_run toy_crypto demo_tx tx [c] [(0, Cover, [])]"
    "rtranclp (attack_step toy_crypto (tx_crypto demo_tx) [c]) (attacked_new demo_rx) h"
    "map item_of_frame (at_got h) = [(0, Cover, [])]"
    by (rule demo_attack)
  have "\<exists>k ms rx'. k \<le> length [c] \<and> [(0, Cover, [])] = map item_of_frame (at_got h @ ms) \<and>
    drain (decode_inbound toy_crypto) (at_rx h) (concat (map pack_app_data (drop k [c]))) = Some (ms, Ok (), rx', [])"
    by (rule hostile_prefix [OF toy_aead_laws demo_wf(1) run(1) _ demo_wf(2,3) run(2)]) simp
  then show ?thesis
    using run(3) by (elim exE conjE) (intro exI conjI; assumption)
qed

end
