(* ===== verification/Shuffle.thy ===== *)
theory Shuffle
  imports Extension_Builder
begin

text \<open>
  The order of the extensions as a function of the bytes drawn for it.  \<open>drawn_order\<close> specifies
  the shuffle of \<open>tlseng/extension.rs\<close> as a sequence of swaps on the whole order, each
  with a partner given by two bytes of the generator; \<open>shuffle_middle\<close> implements it, and every
  order with the same ids and the same ends is drawn by some bytes.
\<close>

section \<open>The order a generator draws\<close>

text \<open>Entry \<open>i\<close> of the middle changes places with an entry at or before it, given by two bytes, low byte first.\<close>

definition swap_partner :: "rng \<Rightarrow> nat \<Rightarrow> nat" where
  "swap_partner r i = (unat (r (2 * i)) + 256 * unat (r (2 * i + 1))) mod (i + 1)"

definition drawn_order :: "browser_profile \<Rightarrow> rng \<Rightarrow> u16 list" where
  "drawn_order p r =
     (let order = bp_extension_order p; middle = length order - 2
      in if bp_shuffle_extensions p
         then fold (\<lambda>i. swap_at (1 + i) (1 + swap_partner r i)) (rev [1..<middle]) order
         else order)"

text \<open>The orders a profile allows: its own, or with the middle in any order.\<close>

definition order_of_profile :: "browser_profile \<Rightarrow> u16 list \<Rightarrow> bool" where
  "order_of_profile p order \<longleftrightarrow>
     (if bp_shuffle_extensions p
      then mset order = mset (bp_extension_order p) \<and> take 1 order = take 1 (bp_extension_order p) \<and>
           drop (length order - 1) order = drop (length order - 1) (bp_extension_order p)
      else order = bp_extension_order p)"

section \<open>The shuffle as a sequence of swaps\<close>

abbreviation swaps :: "(nat \<Rightarrow> nat) \<Rightarrow> nat \<Rightarrow> 'a list \<Rightarrow> 'a list" where
  "swaps j n \<equiv> fold (\<lambda>i. swap_at i (j i)) (rev [1..<n])"

lemma swaps_Suc: "0 < n \<Longrightarrow> swaps j (Suc n) xs = swaps j n (swap_at n (j n) xs)"
  by (simp add: upt_Suc)

lemma swaps_cong: "(\<And>i. i < n \<Longrightarrow> j i = k i) \<Longrightarrow> swaps j n xs = swaps k n xs"
  by (rule fold_cong) auto

lemma length_swaps [simp]: "length (swaps j n xs) = length xs"
  by (induction n arbitrary: xs) (auto simp: upt_Suc)

lemma partner_bytes: "unat (from_be [hi, lo] :: u16) = unat lo + 256 * unat hi"
proof -
  have "unat lo < 256" "unat hi < 256"
    by (rule order_less_le_trans [OF unsigned_less]; simp)+
  then have "unat lo + 256 * unat hi < 65536"
    by linarith
  moreover have "be_val [hi, lo] = unat lo + 256 * unat hi"
    by (simp add: be_val_def)
  ultimately show ?thesis
    unfolding from_be_of_nat unat_of_nat by simp
qed

lemma shuffle_loop_swaps:
  assumes "2 * n \<le> length rnd"
  shows "shuffle_loop rnd n xs = swaps (\<lambda>i. (unat (rnd ! (2 * i)) + 256 * unat (rnd ! (2 * i + 1))) mod (i + 1)) n xs"
  using assms
proof (induction n arbitrary: xs)
  case (Suc n)
  then show ?case
    by (cases "n = 0") (simp_all add: swaps_Suc partner_bytes mult.commute)
qed simp

text \<open>Swaps inside the middle leave the ends alone.\<close>

lemma swap_at_middle:
  assumes "i < length ys" "j < length ys"
  shows "swap_at (1 + i) (1 + j) (x # ys @ zs) = x # swap_at i j ys @ zs"
  using assms by (simp add: swap_at_def list_update_append nth_append)

lemma swaps_middle:
  assumes "n \<le> length ys" "\<And>i. j i \<le> i"
  shows "fold (\<lambda>i. swap_at (1 + i) (1 + j i)) (rev [1..<n]) (x # ys @ zs) = x # swaps j n ys @ zs"
  using assms(1)
proof (induction n arbitrary: ys)
  case (Suc n)
  have "j n < length ys"
    using Suc.prems assms(2) [of n] by simp
  with Suc show ?case
    using swap_at_middle [of n ys "j n" x zs] by (cases "n = 0") (simp_all add: upt_Suc)
qed simp

lemma swap_partner_le: "swap_partner r i \<le> i"
  using mod_less_divisor [of "i + 1"] by (simp add: swap_partner_def less_Suc_eq_le)

lemma ends_and_middle:
  assumes "2 \<le> length xs"
  obtains x ys z where "xs = x # ys @ [z]"
proof -
  obtain x ws where "xs = x # ws" "ws \<noteq> []"
    using assms by (auto simp: numeral_2_eq_2 Suc_le_length_iff)
  then show thesis
    using that [of x "butlast ws" "last ws"] by simp
qed

lemma shuffle_middle_drawn:
  assumes "bp_shuffle_extensions p"
  shows "fst (shuffle_middle (bp_extension_order p) r) = drawn_order p r"
proof (cases "length (bp_extension_order p) < 4")
  case True
  then have "length (bp_extension_order p) - 2 = 0 \<or> length (bp_extension_order p) - 2 = 1"
    by linarith
  with True assms show ?thesis
    by (auto simp: shuffle_middle_def drawn_order_def Let_def)
next
  case False
  have "2 \<le> length (bp_extension_order p)"
    using False by simp
  then obtain x ys z where xs: "bp_extension_order p = x # ys @ [z]"
    by (rule ends_and_middle)
  have "shuffle_loop (map r [0..<2 * length ys]) (length ys) ys = swaps (swap_partner r) (length ys) ys"
    by (subst shuffle_loop_swaps, simp, rule swaps_cong) (simp add: swap_partner_def)
  then have "fst (shuffle_middle (x # ys @ [z]) r) = x # swaps (swap_partner r) (length ys) ys @ [z]"
    using False unfolding xs by (simp add: shuffle_middle_def Let_def fill_bytes_def mult.commute)
  moreover have "drawn_order p r = x # swaps (swap_partner r) (length ys) ys @ [z]"
    using assms swaps_middle [where n = "length ys" and ys = ys and j = "swap_partner r" and x = x and zs = "[z]"] swap_partner_le by (simp add: drawn_order_def xs)
  ultimately show ?thesis
    by (simp add: xs)
qed

section \<open>Every order comes up\<close>

lemma swap_at_nth: "i < length xs \<Longrightarrow> j < length xs \<Longrightarrow> swap_at i j xs ! i = xs ! j"
  by (auto simp: swap_at_def nth_list_update)

lemma swaps_reach:
  assumes "n \<le> length xs" "length ys = length xs" "mset (take n xs) = mset (take n ys)" "drop n xs = drop n ys"
  shows "\<exists>j. (\<forall>i. j i \<le> i) \<and> swaps j n xs = ys"
  using assms
proof (induction n arbitrary: xs)
  case 0
  then show ?case
    by (intro exI [of _ id]) simp
next
  case (Suc n)
  have "ys ! n \<in> set (take (Suc n) xs)"
    using Suc.prems mset_eq_setD [OF Suc.prems(3)] by (auto simp: in_set_conv_nth intro!: exI [of _ n])
  then obtain m where m: "m \<le> n" "xs ! m = ys ! n"
    using Suc.prems(1) by (auto simp: in_set_conv_nth less_Suc_eq_le)
  let ?xs = "swap_at n m xs"
  have lens: "n < length xs" "m < length xs" "length ?xs = length xs"
    using Suc.prems(1) m(1) by simp_all
  have at: "?xs ! n = ys ! n"
    using swap_at_nth [OF lens(1,2)] m(2) by simp
  have above: "drop (Suc n) ?xs = drop (Suc n) ys"
    using Suc.prems(4) m(1) by (simp add: swap_at_def)
  have drop: "drop n ?xs = drop n ys"
    using lens Suc.prems(2) at above by (metis Cons_nth_drop_Suc)
  have "mset ?xs = mset xs" "mset xs = mset ys"
    using mset_swap_at [OF lens(1,2)] Suc.prems(3,4) by (simp, metis append_take_drop_id mset_append)
  then have "mset (take n ?xs) + mset (drop n ?xs) = mset (take n ys) + mset (drop n ys)"
    by (metis append_take_drop_id mset_append)
  with drop have "mset (take n ?xs) = mset (take n ys)"
    by simp
  with Suc.IH [of ?xs] lens Suc.prems(2) drop obtain j where j: "\<forall>i. j i \<le> i" "swaps j n ?xs = ys"
    by auto
  let ?j = "j(n := m)"
  have "swaps ?j (Suc n) xs = ys"
  proof (cases "n = 0")
    case True
    then show ?thesis
      using m(1) j(2) by (simp add: swap_at_def)
  next
    case False
    have "swaps ?j n ?xs = swaps j n ?xs"
      by (rule swaps_cong) simp
    with False j(2) show ?thesis
      by (simp add: swaps_Suc)
  qed
  with j(1) m(1) show ?case
    by (intro exI [of _ ?j]) simp
qed

text \<open>A generator with the partners we like from byte \<open>k\<close> on.\<close>

definition steered :: "nat \<Rightarrow> nat \<Rightarrow> (nat \<Rightarrow> nat) \<Rightarrow> rng \<Rightarrow> rng" where
  "steered k n j r = (\<lambda>i. if i < k \<or> k + 2 * n \<le> i then r i else if even (i - k) then of_nat (j ((i - k) div 2)) else 0)"

lemma steered_partner:
  assumes "i < n" "j i \<le> i" "n \<le> 256"
  shows "swap_partner (\<lambda>i. steered k n j r (i + k)) i = j i"
proof -
  have "unat (of_nat (j i) :: u8) = j i"
    using assms by (simp add: unat_of_nat)
  then show ?thesis
    using assms by (simp add: swap_partner_def steered_def)
qed

lemma generous_steered:
  assumes "generous r"
  shows "generous (steered k n j r)"
  unfolding generous_def
proof
  fix p
  obtain m where "acceptable r (p + 2 * (k + 2 * n) + 2 * m)"
    using assms by (metis generous_def)
  then have "acceptable (steered k n j r) (p + 2 * (k + 2 * n + m))"
    by (simp add: acceptable_def word_at_def steered_def algebra_simps)
  then show "\<exists>m. acceptable (steered k n j r) (p + 2 * m)"
    by blast
qed

lemma every_order_drawn:
  assumes "order_of_profile p order" "length order \<le> 256"
  shows "\<exists>j. \<forall>k r. drawn_order p (\<lambda>i. steered k (length order) j r (i + k)) = order"
proof (cases "bp_shuffle_extensions p \<and> 2 \<le> length order")
  case True
  let ?xs = "bp_extension_order p"
  have o: "mset order = mset ?xs" "take 1 order = take 1 ?xs" "drop (length order - 1) order = drop (length order - 1) ?xs"
    using assms(1) True by (simp_all add: order_of_profile_def)
  have len: "length ?xs = length order"
    using o(1) by (metis size_mset)
  have "2 \<le> length order" "2 \<le> length ?xs"
    using True len by simp_all
  then obtain x ys z x' ys' z' where y: "order = x # ys @ [z]" and x: "?xs = x' # ys' @ [z']"
    using ends_and_middle [of order] ends_and_middle [of ?xs] by metis
  have "length ys' = length ys"
    using len by (simp add: x y)
  have ends: "x' = x" "z' = z"
    using o(2,3) x y \<open>length ys' = length ys\<close> by simp_all
  then have same: "x' = x" "z' = z" "mset ys' = mset ys"
    using o(1) x y by simp_all
  have "\<exists>j. (\<forall>i. j i \<le> i) \<and> swaps j (length ys) ys' = ys"
    by (rule swaps_reach) (use same(3) \<open>length ys' = length ys\<close> in simp_all)
  then obtain j where j: "\<forall>i. j i \<le> i" "swaps j (length ys) ys' = ys"
    by blast
  have "drawn_order p (\<lambda>i. steered k (length order) j r (i + k)) = order" for k r
  proof -
    let ?r = "\<lambda>i. steered k (length order) j r (i + k)"
    have "swaps (swap_partner ?r) (length ys) ys' = swaps j (length ys) ys'"
      using y j(1) assms(2) by (intro swaps_cong steered_partner) auto
    then show ?thesis
      using swaps_middle [of "length ys" ys' "swap_partner ?r" x "[z]"] swap_partner_le [of ?r] True x y same j(2) \<open>length ys' = length ys\<close>
      by (simp add: drawn_order_def)
  qed
  then show ?thesis
    by blast
next
  case False
  have "drawn_order p r = order" for r
  proof (cases "bp_shuffle_extensions p")
    case True
    then have "take 1 order = take 1 (bp_extension_order p)" "length (bp_extension_order p) = length order" "length order < 2"
      using assms(1) False by (auto simp: order_of_profile_def dest: mset_eq_length)
    with True show ?thesis
      by (simp add: drawn_order_def Let_def)
  qed (use assms(1) in \<open>simp add: drawn_order_def order_of_profile_def\<close>)
  then show ?thesis
    by blast
qed

lemma drawn_order_allowed: "order_of_profile p (drawn_order p r)"
proof (cases "bp_shuffle_extensions p")
  case True
  then show ?thesis
    using shuffle_middle_mset [of "bp_extension_order p" r] shuffle_ends [of "bp_extension_order p" r]
    by (simp add: order_of_profile_def shuffle_middle_drawn [OF True] shuffle_middle_length
        flip: shuffle_middle_drawn [OF True])
qed (simp add: drawn_order_def order_of_profile_def)

end
