(* ===== verification/Fingerprint.thy ===== *)
theory Fingerprint
  imports Bridge Shuffle "HOL-Library.Sublist"
begin

text \<open>
  What an observer reads in the client hello is a function of the browser profile and of the
  bytes drawn for the connection: the GREASE values (\<open>drawn_grease\<close>), the order of the extensions
  (\<open>drawn_order\<close> of \<open>Shuffle\<close>), their ids and lists (\<open>block_as_profile\<close>), and the padding.  The
  specification is written without the builder; the builder of \<open>Extension_Builder\<close> is shown to
  implement it, and the result is carried through the record and the hello up to the parser of
  the other side.  The last part compares the server hello with what was offered.
\<close>

section \<open>What a profile asks for\<close>

text \<open>The ids that are written whatever the rest of the profile says.\<close>

definition unconditional_ids :: "u16 set" where
  "unconditional_ids = {ext_sni, ext_supported_groups, ext_signature_algorithms, ext_alpn, ext_sct, ext_ems, ext_ech,
     ext_compress_cert, ext_delegated_credential, ext_session_ticket, ext_supported_versions, ext_psk_modes,
     ext_key_share, ext_status_request, ext_ec_point_formats, ext_renegotiation_info}"

text \<open>
  The GREASE values of a connection.  The first 15 bytes of the generator go into the session
  id; the low halves of the next five choose among the sixteen values \<open>0x0a0a\<close>, \<open>0x1a1a\<close> and so on.
\<close>

definition grease_value :: "u8 \<Rightarrow> u16" where
  "grease_value b = 0x0a0a + 0x1010 * ucast (b AND 0x0f)"

definition drawn_grease :: "rng \<Rightarrow> grease_set" where
  "drawn_grease r = \<lparr>gs_cipher = grease_value (r 15), gs_group = grease_value (r 16), gs_ext_first = grease_value (r 17),
     gs_ext_last = grease_value (r 18), gs_version = grease_value (r 19)\<rparr>"

text \<open>
  How much padding is due when the hello has \<open>sofar\<close> bytes: none without a target or when
  the header of the padding would already reach it.
\<close>

definition pad_due :: "browser_profile \<Rightarrow> nat \<Rightarrow> nat option" where
  "pad_due p sofar =
     (let target = unat (bp_target_padding_len p) in if sofar + 4 < target then Some (target - (sofar + 4)) else None)"

text \<open>The bytes of the hello message beside the extensions: header, version, random, session id,
  cipher suites with GREASE, compression methods and the length of the block.\<close>

definition hello_overhead :: "browser_profile \<Rightarrow> nat" where
  "hello_overhead p = 77 + 2 * (length (bp_cipher_suites p) + (if bp_has_grease p then 1 else 0))"

text \<open>The ids one entry of the order puts on the wire; \<open>pad\<close> is the padding due at this place.\<close>

definition slot_ids :: "browser_profile \<Rightarrow> grease_set \<Rightarrow> nat option \<Rightarrow> u16 \<Rightarrow> u16 list" where
  "slot_ids p g pad i =
     (if i \<in> unconditional_ids then [i]
      else if i = ext_padding then (if pad \<noteq> None then [i] else [])
      else if i = ext_alps then (if bp_alps_protocols p \<noteq> [] then [i] else [])
      else if \<not> bp_has_grease p then []
      else if i = grease_slot_first then [gs_ext_first g]
      else if i = grease_slot_last then [gs_ext_last g]
      else if is_grease i then [i]
      else [])"

text \<open>The lists an observer hashes, after their length fields.\<close>

definition offered_groups :: "browser_profile \<Rightarrow> grease_set \<Rightarrow> u16 list" where
  "offered_groups p g = (if bp_has_grease p then [gs_group g] else []) @ bp_groups p"

definition offered_versions :: "browser_profile \<Rightarrow> grease_set \<Rightarrow> u16 list" where
  "offered_versions p g = (if bp_has_grease p then [gs_version g] else []) @ bp_versions p"

definition offered_suites :: "browser_profile \<Rightarrow> grease_set \<Rightarrow> u16 list" where
  "offered_suites p g = (if bp_has_grease p then [gs_cipher g] else []) @ bp_cipher_suites p"

definition list16 :: "u16 list \<Rightarrow> bytes" where
  "list16 ws = be16 (of_nat (2 * length ws)) @ put_u16s ws"

definition list8 :: "u16 list \<Rightarrow> bytes" where
  "list8 ws = of_nat (2 * length ws) # put_u16s ws"

text \<open>The groups of the key shares: some of the offered groups, in the same order.\<close>

definition shares_for :: "u16 list \<Rightarrow> bytes \<Rightarrow> bool" where
  "shares_for groups data \<longleftrightarrow>
     (\<exists>entries. data = be16 (of_nat (length (concat (map key_share_entry entries)))) @ concat (map key_share_entry entries) \<and>
        map fst entries = groups)"

definition shared_groups :: "browser_profile \<Rightarrow> grease_set \<Rightarrow> u16 list" where
  "shared_groups p g = (if bp_has_grease p then [gs_group g] else []) @
     (if group_x25519_mlkem768 \<in> set (bp_groups p) then [group_x25519_mlkem768] else []) @ [group_x25519]"

definition data_of_profile :: "browser_profile \<Rightarrow> grease_set \<Rightarrow> nat option \<Rightarrow> u16 \<Rightarrow> bytes \<Rightarrow> bool" where
  "data_of_profile p g pad t d \<longleftrightarrow>
     (t = ext_supported_groups \<longrightarrow> d = list16 (offered_groups p g)) \<and>
     (t = ext_supported_versions \<longrightarrow> d = list8 (offered_versions p g)) \<and>
     (t = ext_signature_algorithms \<longrightarrow> d = list16 (bp_signatures p)) \<and>
     (t = ext_alpn \<longrightarrow> d = be16 (of_nat (length (protocol_list (bp_alpn p)))) @ protocol_list (bp_alpn p)) \<and>
     (t = ext_ec_point_formats \<longrightarrow> d = [1, 0]) \<and>
     (t = ext_key_share \<longrightarrow> shares_for (shared_groups p g) d) \<and>
     (t = ext_padding \<longrightarrow> (\<exists>k. pad = Some k \<and> d = replicate k 0))"

text \<open>
  A block that an observer would call the profile's: slot by slot of the order, with \<open>sofar\<close> bytes
  of the hello before it.
\<close>

fun block_as_profile :: "browser_profile \<Rightarrow> grease_set \<Rightarrow> nat \<Rightarrow> u16 list \<Rightarrow> extension list \<Rightarrow> bool" where
  "block_as_profile p g sofar [] es \<longleftrightarrow> es = []"
| "block_as_profile p g sofar (i # order) es \<longleftrightarrow>
     (let pad = pad_due p sofar; n = length (slot_ids p g pad i); here = take n es
      in map ex_etype here = slot_ids p g pad i \<and>
         list_all (\<lambda>e. data_of_profile p g pad (ex_etype e) (ex_data e)) here \<and>
         block_as_profile p g (sofar + length (stack_bytes here)) order (drop n es))"

section \<open>One entry of the order\<close>

text \<open>An entry leaves the block alone or appends one extension, as the profile asks.\<close>

definition as_profile :: "browser_profile \<Rightarrow> nat option \<Rightarrow> u16 \<Rightarrow> ext_builder \<Rightarrow> ext_builder \<Rightarrow> bool" where
  "as_profile p pad i b b' \<longleftrightarrow>
     b' = b \<and> slot_ids p (eb_grease b) pad i = [] \<or>
     (\<exists>t d. b' = add_extension t d b \<and> slot_ids p (eb_grease b) pad i = [t] \<and> data_of_profile p (eb_grease b) pad t d)"

definition step_as_profile :: "browser_profile \<Rightarrow> nat option \<Rightarrow> u16 \<Rightarrow> ext_builder \<Rightarrow> (ext_builder \<times> rng) option \<Rightarrow> bool" where
  "step_as_profile p pad i b x \<longleftrightarrow> (\<forall>b' r'. x = Some (b', r') \<longrightarrow> as_profile p pad i b b')"

lemma step_as_profile_if:
  "(c \<Longrightarrow> step_as_profile p pad i b x) \<Longrightarrow> (\<not> c \<Longrightarrow> step_as_profile p pad i b y) \<Longrightarrow>
     step_as_profile p pad i b (if c then x else y)"
  by simp

lemma as_profile_add:
  "slot_ids p (eb_grease b) pad i = [t] \<Longrightarrow> data_of_profile p (eb_grease b) pad t d \<Longrightarrow> as_profile p pad i b (add_extension t d b)"
  unfolding as_profile_def by blast

lemma as_profile_skip: "slot_ids p (eb_grease b) pad i = [] \<Longrightarrow> as_profile p pad i b b"
  unfolding as_profile_def by blast

lemma unconditional_add:
  assumes "i \<in> unconditional_ids" "data_of_profile p (eb_grease b) pad i d"
  shows "as_profile p pad i b (add_extension i d b)"
  by (rule as_profile_add) (use assms in \<open>simp_all add: slot_ids_def\<close>)

lemma data_other:
  "t \<notin> {ext_supported_groups, ext_supported_versions, ext_signature_algorithms, ext_alpn, ext_ec_point_formats, ext_key_share, ext_padding} \<Longrightarrow>
     data_of_profile p g pad t d"
  by (simp add: data_of_profile_def)

lemma grease_id_other:
  "is_grease t \<Longrightarrow>
     t \<notin> {ext_supported_groups, ext_supported_versions, ext_signature_algorithms, ext_alpn, ext_ec_point_formats, ext_key_share, ext_padding}"
  by (auto simp: is_grease_def ext_defs)

lemma slots_conditional:
  "ext_padding \<notin> unconditional_ids" "ext_alps \<notin> unconditional_ids" "grease_slot_first \<notin> unconditional_ids"
  "grease_slot_last \<notin> unconditional_ids" "grease_slot_first \<noteq> ext_padding" "grease_slot_last \<noteq> ext_padding"
  "ext_alps \<noteq> ext_padding" "grease_slot_first \<noteq> ext_alps" "grease_slot_last \<noteq> ext_alps" "grease_slot_first \<noteq> grease_slot_last"
  by (simp_all add: unconditional_ids_def ext_defs)

lemma unconditional_members:
  "ext_sni \<in> unconditional_ids" "ext_supported_groups \<in> unconditional_ids" "ext_signature_algorithms \<in> unconditional_ids"
  "ext_alpn \<in> unconditional_ids" "ext_sct \<in> unconditional_ids" "ext_ems \<in> unconditional_ids" "ext_ech \<in> unconditional_ids"
  "ext_compress_cert \<in> unconditional_ids" "ext_delegated_credential \<in> unconditional_ids"
  "ext_session_ticket \<in> unconditional_ids" "ext_supported_versions \<in> unconditional_ids" "ext_psk_modes \<in> unconditional_ids"
  "ext_key_share \<in> unconditional_ids" "ext_status_request \<in> unconditional_ids" "ext_ec_point_formats \<in> unconditional_ids"
  "ext_renegotiation_info \<in> unconditional_ids"
  by (simp_all add: unconditional_ids_def)

lemma data_free:
  "data_of_profile p g pad ext_sni d" "data_of_profile p g pad ext_sct d" "data_of_profile p g pad ext_ems d" "data_of_profile p g pad ext_ech d"
  "data_of_profile p g pad ext_compress_cert d" "data_of_profile p g pad ext_delegated_credential d"
  "data_of_profile p g pad ext_session_ticket d" "data_of_profile p g pad ext_psk_modes d" "data_of_profile p g pad ext_status_request d"
  "data_of_profile p g pad ext_renegotiation_info d" "data_of_profile p g pad ext_alps d"
  by (rule data_other; simp add: ext_defs)+

lemma data_fixed:
  "data_of_profile p g pad ext_supported_groups d \<longleftrightarrow> d = list16 (offered_groups p g)"
  "data_of_profile p g pad ext_supported_versions d \<longleftrightarrow> d = list8 (offered_versions p g)"
  "data_of_profile p g pad ext_signature_algorithms d \<longleftrightarrow> d = list16 (bp_signatures p)"
  "data_of_profile p g pad ext_alpn d \<longleftrightarrow> d = be16 (of_nat (length (protocol_list (bp_alpn p)))) @ protocol_list (bp_alpn p)"
  "data_of_profile p g pad ext_ec_point_formats d \<longleftrightarrow> d = [1, 0]"
  "data_of_profile p g pad ext_key_share d \<longleftrightarrow> shares_for (shared_groups p g) d"
  "data_of_profile p g pad ext_padding d \<longleftrightarrow> (\<exists>k. pad = Some k \<and> d = replicate k 0)"
  unfolding data_of_profile_def by (simp_all add: ext_defs)

lemma as_profile_simple:
  "as_profile p pad ext_sni b (server_name host b)" "as_profile p pad ext_sct b (signed_certificate_timestamp b)"
  "as_profile p pad ext_ems b (extended_main_secret b)" "as_profile p pad ext_ech b (fst (ech_grease b r))"
  "as_profile p pad ext_compress_cert b (compress_certificate algs b)"
  "as_profile p pad ext_delegated_credential b (delegated_credential dcs b)"
  "as_profile p pad ext_session_ticket b (session_ticket b)" "as_profile p pad ext_psk_modes b (psk_key_exchange_modes b)"
  "as_profile p pad ext_status_request b (status_request b)" "as_profile p pad ext_renegotiation_info b (renegotiation_info b)"
  by (simp_all add: server_name_def signed_certificate_timestamp_def extended_main_secret_def ech_grease_def
      compress_certificate_def delegated_credential_def session_ticket_def psk_key_exchange_modes_def
      status_request_def renegotiation_info_def case_prod_beta Let_def unconditional_add unconditional_members data_free)

lemma as_profile_lists:
  "as_profile p pad ext_supported_groups b (supported_groups (bp_groups p) (bp_has_grease p) b)"
  "as_profile p pad ext_supported_versions b (supported_versions (bp_versions p) (bp_has_grease p) b)"
  "as_profile p pad ext_signature_algorithms b (signature_algorithms (bp_signatures p) b)"
  "as_profile p pad ext_alpn b (alpn (bp_alpn p) b)" "as_profile p pad ext_ec_point_formats b (ec_point_formats b)"
  unfolding supported_groups_def supported_versions_def signature_algorithms_def alpn_def ec_point_formats_def Let_def
  by (intro unconditional_add; simp add: unconditional_members data_fixed list16_def list8_def offered_groups_def
      offered_versions_def put_u16s_Cons mult.commute)+

lemma key_share_as_profile:
  assumes "key_share p pub b r = Some (b', r')"
  shows "as_profile p pad ext_key_share b b'"
proof -
  obtain pq_entry pq where b': "b' = add_extension ext_key_share (be16 (of_nat (length pq)) @ pq) b"
    and pq: "pq = (if bp_has_grease p then be16 (gs_group (eb_grease b)) @ be16 1 @ [0x00] else []) @ pq_entry @
       be16 group_x25519 @ be16 (of_nat (length pub)) @ pub"
    and entry: "pq_entry = [] \<and> group_x25519_mlkem768 \<notin> set (bp_groups p) \<or>
       group_x25519_mlkem768 \<in> set (bp_groups p) \<and>
       (\<exists>share. pq_entry = be16 group_x25519_mlkem768 @ be16 (of_nat (length share)) @ share)"
    using assms by (auto simp: key_share_def Let_def split: if_splits)
  obtain entries where "pq_entry = concat (map key_share_entry entries)"
    "map fst entries = (if group_x25519_mlkem768 \<in> set (bp_groups p) then [group_x25519_mlkem768] else [])"
  proof (cases "group_x25519_mlkem768 \<in> set (bp_groups p)")
    case True
    with entry obtain share where "pq_entry = be16 group_x25519_mlkem768 @ be16 (of_nat (length share)) @ share"
      by blast
    with True that [of "[(group_x25519_mlkem768, share)]"] show thesis
      by (simp add: key_share_entry_def)
  next
    case False
    with entry that [of "[]"] show thesis
      by simp
  qed
  then have "shares_for (shared_groups p (eb_grease b)) (be16 (of_nat (length pq)) @ pq)"
    unfolding shares_for_def pq
    by (intro exI [of _ "(if bp_has_grease p then [(gs_group (eb_grease b), [0x00])] else []) @ entries @ [(group_x25519, pub)]"])
      (simp add: shared_groups_def key_share_entry_def)
  then show ?thesis
    unfolding b' by (intro unconditional_add) (simp_all add: unconditional_members data_fixed)
qed

lemma grease_id_conditional: "is_grease i \<Longrightarrow> i \<notin> unconditional_ids \<and> i \<noteq> ext_padding \<and> i \<noteq> ext_alps"
  by (auto simp: is_grease_def unconditional_ids_def ext_defs)

lemma as_profile_grease:
  assumes "slot_ids p (eb_grease b) pad i = (if bp_has_grease p then [t] else [])" "is_grease t"
  shows "as_profile p pad i b (if bp_has_grease p then add_extension t d b else b)"
  using assms as_profile_add [OF _ data_other [OF grease_id_other [OF assms(2)]]] as_profile_skip by auto

lemma as_profile_slots:
  assumes "all_grease (eb_grease b)"
  shows "as_profile p pad grease_slot_first b (if bp_has_grease p then add_extension (gs_ext_first (eb_grease b)) d b else b)"
    "as_profile p pad grease_slot_last b (if bp_has_grease p then add_extension (gs_ext_last (eb_grease b)) d b else b)"
    "i \<noteq> grease_slot_first \<Longrightarrow> i \<noteq> grease_slot_last \<Longrightarrow> is_grease i \<Longrightarrow>
       as_profile p pad i b (if bp_has_grease p then add_extension i d b else b)"
  by (rule as_profile_grease; use assms slots_conditional grease_id_conditional in \<open>simp add: slot_ids_def all_grease_def\<close>)+

lemma as_profile_alps:
  "as_profile p pad ext_alps b (if bp_alps_protocols p \<noteq> [] then application_settings (bp_alps_protocols p) b else b)"
  using slots_conditional as_profile_add [of p b pad ext_alps ext_alps] as_profile_skip [of p b pad ext_alps]
  by (simp add: application_settings_def Let_def slot_ids_def data_free)

lemma as_profile_padding:
  "as_profile p (pad_due p (overhead + length (eb_payload b))) ext_padding b
     (if 0 < bp_target_padding_len p then padding (unat (bp_target_padding_len p)) overhead b else b)"
proof (cases "pad_due p (overhead + length (eb_payload b))")
  case None
  then have "(if 0 < bp_target_padding_len p then padding (unat (bp_target_padding_len p)) overhead b else b) = b"
    by (auto simp: padding_def pad_due_def Let_def add.commute split: if_splits)
  then show ?thesis
    using None slots_conditional as_profile_skip [of p b None ext_padding] by (simp add: slot_ids_def)
next
  case (Some k)
  then have k: "overhead + length (eb_payload b) + 4 < unat (bp_target_padding_len p)"
    "k = unat (bp_target_padding_len p) - (overhead + length (eb_payload b) + 4)"
    by (auto simp: pad_due_def Let_def split: if_splits)
  then have "(if 0 < bp_target_padding_len p then padding (unat (bp_target_padding_len p)) overhead b else b) =
      add_extension ext_padding (replicate k 0) b"
    by (auto simp: padding_def Let_def add.commute word_gt_0)
  then show ?thesis
    using slots_conditional as_profile_add [of p b "Some k" ext_padding ext_padding "replicate k 0"] Some
    by (simp add: slot_ids_def data_fixed)
qed

lemma step_as_profile_Some: "step_as_profile p pad i b (Some (b', r')) \<longleftrightarrow> as_profile p pad i b b'"
  by (simp add: step_as_profile_def)

lemma apply_extension_as_profile:
  assumes "all_grease (eb_grease b)"
  shows "step_as_profile p (pad_due p (overhead + length (eb_payload b))) i b (apply_extension p host pub overhead i b r)"
proof -
  let ?pad = "pad_due p (overhead + length (eb_payload b))"
  have ech: "step_as_profile p ?pad ext_ech b (Some (ech_grease b r))"
    using as_profile_simple(4) [of p ?pad b r] by (simp add: step_as_profile_def) (metis fst_conv)
  have share: "step_as_profile p ?pad ext_key_share b (key_share p pub b r)"
    using key_share_as_profile by (auto simp: step_as_profile_def)
  have generic: "as_profile p ?pad i b b" if "i \<notin> unconditional_ids" "i \<noteq> ext_padding" "i \<noteq> ext_alps"
    "i \<noteq> grease_slot_first" "i \<noteq> grease_slot_last" "\<not> is_grease i"
    using that by (intro as_profile_skip) (simp add: slot_ids_def)
  show ?thesis
    unfolding apply_extension_def grease_with_id_def apply_generic_extension_def
    by (intro step_as_profile_if;
        simp only: step_as_profile_Some as_profile_simple as_profile_lists as_profile_slots [OF assms] as_profile_alps
          as_profile_padding ech share simp_thms)
      (rule generic; simp add: unconditional_ids_def)
qed

section \<open>The whole block\<close>

text \<open>What a step appends is one well-formed extension, since the step is short.\<close>

lemma step_appends:
  assumes "hello_fits host pub p" "all_grease (eb_grease b)" "generous r"
    and "apply_extension p host pub overhead i b r = Some (b', r')"
  defines "pad \<equiv> pad_due p (overhead + length (eb_payload b))"
  shows "\<exists>es. eb_payload b' = eb_payload b @ stack_bytes es \<and> list_all extension_wf es \<and>
    map ex_etype es = slot_ids p (eb_grease b) pad i \<and>
    list_all (\<lambda>e. data_of_profile p (eb_grease b) pad (ex_etype e) (ex_data e)) es"
proof -
  have "as_profile p pad i b b'"
    using apply_extension_as_profile [OF assms(2), of p overhead i host pub r] assms(4)
    by (simp add: step_as_profile_def pad_def)
  then consider (skip) "b' = b" "slot_ids p (eb_grease b) pad i = []"
    | (add) t d where "b' = add_extension t d b" "slot_ids p (eb_grease b) pad i = [t]"
        "data_of_profile p (eb_grease b) pad t d"
    unfolding as_profile_def by blast
  then show ?thesis
  proof cases
    case skip
    then show ?thesis
      by (intro exI [of _ "[]"]) (simp add: stack_bytes_def)
  next
    case add
    obtain es where es: "length es \<le> 1" "eb_payload b' = eb_payload b @ stack_bytes es" "list_all (good_ext host pub) es"
      using apply_extension_ok [OF assms(1-3), of i overhead] assms(4) unfolding step_ok_def adds_def by auto
    have "4 + length d = length (stack_bytes es)"
      using arg_cong [OF es(2), of length] by (simp add: add(1) add_extension_def)
    also have "\<dots> \<le> 2004"
      using length_stack_bytes [OF es(3)] es(1) by linarith
    finally have "extension_wf (extension_new t d)"
      by (simp add: extension_wf_def extension_new_def)
    with add show ?thesis
      by (intro exI [of _ "[extension_new t d]"])
        (simp add: add_extension_def stack_bytes_def extension_bytes_def extension_new_def)
  qed
qed

lemma order_appends:
  assumes "hello_fits host pub p" "all_grease (eb_grease b)" "generous r"
    and "apply_order p host pub overhead order b r = Some (b', r')"
  shows "\<exists>es. eb_payload b' = eb_payload b @ stack_bytes es \<and> list_all extension_wf es \<and>
    block_as_profile p (eb_grease b) (overhead + length (eb_payload b)) order es"
  using assms(2-)
proof (induction order arbitrary: b r)
  case Nil
  then show ?case
    by (intro exI [of _ "[]"]) (simp add: stack_bytes_def)
next
  case (Cons i order)
  obtain b1 r1 where b1: "apply_extension p host pub overhead i b r = Some (b1, r1)" "generous r1"
    "eb_grease b1 = eb_grease b"
    using apply_extension_ok [OF assms(1) Cons.prems(1,2), of i overhead] unfolding step_ok_def adds_def by blast
  obtain es where es: "eb_payload b1 = eb_payload b @ stack_bytes es" "list_all extension_wf es"
    "map ex_etype es = slot_ids p (eb_grease b) (pad_due p (overhead + length (eb_payload b))) i"
    "list_all (\<lambda>e. data_of_profile p (eb_grease b) (pad_due p (overhead + length (eb_payload b))) (ex_etype e) (ex_data e)) es"
    using step_appends [OF assms(1) Cons.prems(1,2) b1(1)] by blast
  have "apply_order p host pub overhead order b1 r1 = Some (b', r')"
    using Cons.prems(3) b1(1) by simp
  from Cons.IH [OF _ b1(2) this] Cons.prems(1) b1(3)
  obtain es' where es': "eb_payload b' = eb_payload b1 @ stack_bytes es'" "list_all extension_wf es'"
    "block_as_profile p (eb_grease b) (overhead + length (eb_payload b1)) order es'"
    by auto
  have "length (slot_ids p (eb_grease b) (pad_due p (overhead + length (eb_payload b))) i) = length es"
    using es(3) by (metis length_map)
  then have "block_as_profile p (eb_grease b) (overhead + length (eb_payload b)) (i # order) (es @ es')"
    using es(1,3,4) es'(3) by (simp add: Let_def add.assoc)
  moreover have "eb_payload b' = eb_payload b @ stack_bytes (es @ es')"
    using es(1) es'(1) by (simp add: stack_bytes_def)
  ultimately show ?case
    using es(2) es'(2) by (intro exI [of _ "es @ es'"]) simp
qed

lemma stack_bytes_inject:
  assumes "list_all extension_wf es" "list_all extension_wf es'" "stack_bytes es = stack_bytes es'"
  shows "es = es'"
  by (metis assms stack_parse_stack_bytes option.inject prod.inject result.inject(1))

lemma profile_appends:
  assumes "hello_fits host pub p" "all_grease g" "generous r"
    and "apply_profile p host pub overhead (builder_with_grease g) r = Some (b, r')"
  shows "\<exists>es. eb_payload b = stack_bytes es \<and> list_all extension_wf es \<and>
    block_as_profile p g overhead (drawn_order p r) es"
proof -
  define r1 where "r1 = (if bp_shuffle_extensions p
      then snd (shuffle_middle (bp_extension_order p) r) else r)"
  have run: "apply_order p host pub overhead (drawn_order p r) (builder_with_grease g) r1 = Some (b, r')"
  proof (cases "bp_shuffle_extensions p")
    case True
    with assms(4) show ?thesis
      by (simp add: apply_profile_def r1_def case_prod_beta flip: shuffle_middle_drawn)
  next
    case False
    with assms(4) show ?thesis
      by (simp add: apply_profile_def r1_def drawn_order_def)
  qed
  have "generous (snd (shuffle_middle xs r))" for xs
    using assms(3) generous_fill [OF assms(3)] by (simp add: shuffle_middle_def Let_def case_prod_beta)
  then have "generous r1"
    by (simp add: r1_def assms(3))
  then show ?thesis
    using order_appends [OF assms(1) _ _ run] assms(2) by (auto simp: builder_with_grease_def)
qed

text \<open>The draws of the builder are those of the specification.\<close>

lemma grease_values_spaced: "grease_values = map (\<lambda>n. 0x0a0a + 0x1010 * of_nat n) [0..<16]"
  by code_simp

lemma grease_value_pick: "grease_values ! unat (b AND 0x0f :: u8) = grease_value b"
proof -
  have "unat (b AND 0x0f) < 16"
    using word_and_le1 [of b "0x0f"] by (simp add: word_le_nat_alt)
  then show ?thesis
    by (simp add: grease_values_spaced grease_value_def)
qed

lemma grease_random_drawn: "fst (grease_random (snd (fill_bytes 15 r))) = drawn_grease r"
  by (simp add: grease_random_def drawn_grease_def fill_bytes_def grease_value_pick Let_def)

lemma grease_random_rest: "snd (grease_random (snd (fill_bytes 15 r))) = (\<lambda>i. r (i + 20))"
  by (simp add: grease_random_def fill_bytes_def Let_def add.assoc)

text \<open>Every key share is for a group on offer, and the shares follow the order of the groups.\<close>

lemma shares_follow_groups:
  "p \<in> set known_profiles \<Longrightarrow> subseq (shared_groups p g) (offered_groups p g)"
  by (auto simp: known_profiles_def profile_defs shared_groups_def offered_groups_def groups_chromium_pq_def
      groups_chromium_def groups_firefox_def groups_safari_def) (simp_all add: group_defs)

text \<open>The hello of an honest client as it is read on the other side, with the block it carries.\<close>

lemma hello_block:
  assumes "hmac_32 P" "keys_ready k" "hello_fits host (public_key_bytes k) p" "generous r"
  obtains wire r' h es where "wrap_client_hello P sent p host k r = Some (wire, r')"
    "\<forall>rest. unpack_handshake (wire @ rest) = (Ok (Some (MsgClient h es)), rest)" "hello_made P sent k p (drawn_grease r) h"
    "block_as_profile p (drawn_grease r) (hello_overhead p) (drawn_order p (\<lambda>i. r (i + 20))) es"
proof -
  obtain wire r' h es g r2 overhead b where wire: "wrap_client_hello P sent p host k r = Some (wire, r')"
    "\<forall>rest. unpack_handshake (wire @ rest) = (Ok (Some (MsgClient h es)), rest)" "hello_made P sent k p g h"
    and g: "all_grease g" "generous r2"
    and b: "apply_profile p host (public_key_bytes k) overhead (builder_with_grease g) r2 = Some (b, r')"
      "eb_payload b = stack_bytes es" "list_all (good_ext host (public_key_bytes k)) es"
    and draws: "g = fst (grease_random (snd (fill_bytes 15 r)))" "r2 = snd (grease_random (snd (fill_bytes 15 r)))"
      "overhead = 77 + 2 * (length (bp_cipher_suites p) + (if bp_has_grease p then 1 else 0))"
    by (rule client_hello_wire [OF assms, of sent]) blast
  have draws': "g = drawn_grease r" "r2 = (\<lambda>i. r (i + 20))" "overhead = hello_overhead p"
    using draws by (simp_all only: grease_random_drawn grease_random_rest hello_overhead_def)
  obtain es' where es': "eb_payload b = stack_bytes es'" "list_all extension_wf es'"
    "block_as_profile p g overhead (drawn_order p r2) es'"
    using profile_appends [OF assms(3) g b(1)] by blast
  have "es' = es"
    by (rule stack_bytes_inject [OF es'(2) good_wf [OF b(3)]]) (use es'(1) b(2) in simp)
  then show thesis
    using that wire es'(3) unfolding draws' by blast
qed

text \<open>Every allowed order is drawn by a generator with the same GREASE values.\<close>

lemma every_order_of_hello:
  assumes "hello_fits host pub p" "generous r" "order_of_profile p order"
  shows "\<exists>s. generous s \<and> drawn_grease s = drawn_grease r \<and> drawn_order p (\<lambda>i. s (i + 20)) = order"
proof -
  have "length order = length (bp_extension_order p)"
    using assms(3) by (auto simp: order_of_profile_def dest: mset_eq_length split: if_splits)
  then have "length order \<le> 256"
    using hello_fitsD(3) [OF assms(1)] by (simp add: profile_fits_def)
  then obtain j where "\<forall>k r. drawn_order p (\<lambda>i. steered k (length order) j r (i + k)) = order"
    using every_order_drawn [OF assms(3)] by blast
  moreover have "drawn_grease (steered 20 (length order) j r) = drawn_grease r"
    by (simp add: drawn_grease_def steered_def)
  ultimately show ?thesis
    using generous_steered [OF assms(2)] by blast
qed

section \<open>Properties\<close>

text \<open>Property C5 (hello_as_profile): for every profile within its limits and any generator \<open>r\<close> on which the
  sampler of the post-quantum share ends (\<open>generous\<close>), the client hello on the wire is read by the other side's parser as a function of the profile and the bytes drawn:
  TLS 1.2; the profile's cipher suites after the GREASE suite given by byte 15; GREASE values given by the low
  halves of bytes 15 to 19; the extensions in the profile's order, shuffled from byte 20 on if the profile
  shuffles; in each slot exactly the extension it asks for, with the GREASE values in their slots; and padding
  exactly where and if the hello so far falls short of the target, as many zero bytes as are missing.  The
  groups, versions, signature algorithms, protocols, point formats and key-share groups are the profile's, with
  the same GREASE group in the groups and the key shares.  Conversely the shuffle is not a fixed one: every
  order with the same ids and the same ends is drawn by some generator, with the same GREASE values.\<close>

theorem hello_as_profile:
  assumes "hmac_32 P" and "keys_ready k" and "hello_fits host (public_key_bytes k) p" and "generous r"
  shows "(\<exists>wire r' h es. wrap_client_hello P sent p host k r = Some (wire, r') \<and>
      unpack_handshake wire = (Ok (Some (MsgClient h es)), []) \<and> ch_version h = Tls12 \<and>
      ch_cipher_suites h = offered_suites p (drawn_grease r) \<and>
      block_as_profile p (drawn_grease r) (hello_overhead p) (drawn_order p (\<lambda>i. r (i + 20))) es) \<and>
    (\<forall>order. order_of_profile p order \<longrightarrow>
      (\<exists>s. generous s \<and> drawn_grease s = drawn_grease r \<and> drawn_order p (\<lambda>i. s (i + 20)) = order))"
proof (rule conjI, goal_cases)
  case 1
  obtain wire r' h es where "wrap_client_hello P sent p host k r = Some (wire, r')"
    "\<forall>rest. unpack_handshake (wire @ rest) = (Ok (Some (MsgClient h es)), rest)" "hello_made P sent k p (drawn_grease r) h"
    "block_as_profile p (drawn_grease r) (hello_overhead p) (drawn_order p (\<lambda>i. r (i + 20))) es"
    by (rule hello_block [OF assms, of sent])
  moreover from this(2) have "unpack_handshake wire = (Ok (Some (MsgClient h es)), [])"
    by (metis append_Nil2)
  ultimately show ?case
    by (auto simp: hello_made_def offered_suites_def)
next
  case 2
  show ?case
    using every_order_of_hello [OF assms(3,4)] by blast
qed

lemma hello_as_profile_witness:
  "\<exists>wire r' h es.
    wrap_client_hello toy_crypto 0 chrome_140 (ascii ''example.com'') demo_client_keys (\<lambda>i. 1) = Some (wire, r') \<and>
    unpack_handshake wire = (Ok (Some (MsgClient h es)), []) \<and> ch_version h = Tls12 \<and>
    ch_cipher_suites h = [0x1a1a, 0x1301, 0x1302, 0x1303] \<and>
    block_as_profile chrome_140 \<lparr>gs_cipher = 0x1a1a, gs_group = 0x1a1a, gs_ext_first = 0x1a1a, gs_ext_last = 0x1a1a,
      gs_version = 0x1a1a\<rparr> 85 (drawn_order chrome_140 (\<lambda>i. 1)) es"
  using hello_as_profile [OF toy_crypto_laws(4) demo_ready(1) demo_hello_fits(1) generous_ones, of 0]
  by (simp add: drawn_grease_def grease_value_def offered_suites_def hello_overhead_def chrome_140_def)

text \<open>What a list of extensions made for a profile answers to a lookup.\<close>

lemma block_lookup_etype:
  "block_as_profile p g sofar order es \<Longrightarrow> t \<in> unconditional_ids \<Longrightarrow> t \<in> set order \<Longrightarrow> t \<in> ex_etype ` set es"
proof (induction order arbitrary: sofar es)
  case (Cons i order)
  let ?pad = "pad_due p sofar"
  let ?n = "length (slot_ids p g ?pad i)"
  have here: "map ex_etype (take ?n es) = slot_ids p g ?pad i"
    and later: "block_as_profile p g (sofar + length (stack_bytes (take ?n es))) order (drop ?n es)"
    using Cons.prems(1) by (simp_all add: Let_def)
  show ?case
  proof (cases "t = i")
    case True
    then have "t \<in> set (map ex_etype (take ?n es))"
      using Cons.prems(2) unfolding here by (simp add: slot_ids_def)
    then show ?thesis
      using set_take_subset [of ?n es] by auto
  next
    case False
    then show ?thesis
      using Cons.IH [OF later Cons.prems(2)] Cons.prems(3) set_drop_subset [of ?n es] by auto
  qed
qed simp

lemma block_data:
  "block_as_profile p g sofar order es \<Longrightarrow> e \<in> set es \<Longrightarrow> \<exists>pad. data_of_profile p g pad (ex_etype e) (ex_data e)"
proof (induction order arbitrary: sofar es)
  case (Cons i order)
  let ?n = "length (slot_ids p g (pad_due p sofar) i)"
  have "e \<in> set (take ?n es) \<or> e \<in> set (drop ?n es)"
    using Cons.prems(2) by (metis append_take_drop_id set_append Un_iff)
  with Cons show ?case
    by (auto simp: Let_def list_all_iff)
qed simp

lemma block_lookup:
  assumes "block_as_profile p g sofar order es" "t \<in> unconditional_ids" "t \<in> set order"
  shows "t \<in> ex_etype ` set es" "\<exists>d pad. find_by_type t es = Some d \<and> data_of_profile p g pad t d"
proof -
  show t: "t \<in> ex_etype ` set es"
    by (rule block_lookup_etype [OF assms])
  from t obtain e where e: "List.find (\<lambda>e. ex_etype e = t) es = Some e"
    by (fastforce simp: find_None_iff dest: not_None_eq [THEN iffD1])
  then have "e \<in> set es" "ex_etype e = t"
    by (auto simp: find_Some_iff)
  then have "\<exists>pad. data_of_profile p g pad t (ex_data e)"
    using block_data [OF assms(1)] by blast
  with e show "\<exists>d pad. find_by_type t es = Some d \<and> data_of_profile p g pad t d"
    by (auto simp: find_by_type_def)
qed

lemma drawn_order_set: "set (drawn_order p r) = set (bp_extension_order p)"
  using drawn_order_allowed [of p r] by (auto simp: order_of_profile_def split: if_splits dest: mset_eq_setD)

text \<open>The profiles of the program and the two server profiles have a suite, a version and a group in common.\<close>

lemma known_offers:
  assumes "p \<in> set known_profiles"
  shows "ext_supported_versions \<in> set (bp_extension_order p)" "ext_key_share \<in> set (bp_extension_order p)"
    "ext_supported_groups \<in> set (bp_extension_order p)" "0x1301 \<in> set (bp_cipher_suites p)"
    "version_tls_1_3 \<in> set (bp_versions p)" "group_x25519 \<in> set (bp_groups p)"
  using assms
  by (auto simp: known_profiles_def profile_defs order_defs groups_chromium_pq_def groups_chromium_def groups_firefox_def
      groups_safari_def versions_modern_def versions_tls_13_only_def)

lemma selected_suite:
  assumes "sprofile \<in> {server_modern, server_compat}" "0x1301 \<in> set (ch_cipher_suites ch)"
  shows "select_suite ch sprofile = 0x1301"
  using assms by (auto simp: select_suite_def server_modern_def server_compat_def)

lemma server_picks:
  assumes "sprofile \<in> {server_modern, server_compat}" "length pub = 32"
  shows "find_by_type ext_supported_versions (server_exts pub sprofile) = Some (be16 version_tls_1_3)"
    "find_by_type ext_key_share (server_exts pub sprofile) = Some (be16 group_x25519 @ be16 32 @ pub)"
    "ex_etype ` set (server_exts pub sprofile) = {ext_supported_versions, ext_key_share}"
  using assms
  by (auto simp: find_by_type_def server_exts_def extension_new_def ext_defs version_tls_1_3_def group_x25519_def
      server_modern_def server_compat_def tls_versions_max_def versions_modern_def)

text \<open>Property C13 (answer_fits_hello): for every profile of the program, either server profile and
  any random draws, the server hello is an answer a TLS client would take to the hello it
  answers: it repeats the session id, picks one of the profile's cipher suites that is in the hello, sends no
  extension the hello did not send, picks a version the hello's list offers, and a
  key share of a group the hello's list offers, with the node's own key.\<close>

theorem answer_fits_hello:
  assumes "hkdf_lengths P" and "dh_commutes P" and "hmac_32 P" and "can_talk P c s"
    and "unat sent \<le> unat now + 120" and "unat now \<le> unat sent + 120"
    and "hello_fits host (public_key_bytes c) p" and "valid_utf8 host" and "generous r"
    and "p \<in> set known_profiles" and "sprofile \<in> {server_modern, server_compat}"
  shows "\<exists>wire r' base exts reply s' h es g v.
    wrap_client_hello P sent p host c r = Some (wire, r') \<and>
    unpack_handshake wire = (Ok (Some (MsgClient base exts)), []) \<and>
    wrap_server_hello P now (MsgClient base exts) s sprofile = (Ok (reply, claimed_version c), s') \<and>
    unpack_handshake reply = (Ok (Some (MsgServer h es)), []) \<and>
    sh_version h = Tls12 \<and> sh_session_id h = ch_session_id base \<and>
    sh_cipher_suite h \<in> set (bp_cipher_suites p) \<inter> set (ch_cipher_suites base) \<and>
    ex_etype ` set es \<subseteq> ex_etype ` set exts \<and>
    find_by_type ext_supported_versions exts = Some (list8 (offered_versions p g)) \<and>
    find_by_type ext_supported_versions es = Some (be16 v) \<and> v \<in> set (offered_versions p g) \<and>
    find_by_type ext_supported_groups exts = Some (list16 (offered_groups p g)) \<and>
    find_by_type ext_key_share es = Some (be16 group_x25519 @ be16 32 @ public_key_bytes s) \<and>
    group_x25519 \<in> set (offered_groups p g)"
proof -
  have ready: "keys_ready c" "keys_ready s"
    using assms(4) by (simp_all add: can_talk_def)
  define g where "g = drawn_grease r"
  obtain wire r' base exts where w: "wrap_client_hello P sent p host c r = Some (wire, r')"
    "\<forall>rest. unpack_handshake (wire @ rest) = (Ok (Some (MsgClient base exts)), rest)" "hello_made P sent c p g base"
    and block: "block_as_profile p g (hello_overhead p) (drawn_order p (\<lambda>i. r (i + 20))) exts"
    unfolding g_def by (rule hello_block [OF assms(3) ready(1) assms(7,9), of sent])
  obtain wire' r'' m reply s' where s': "wrap_client_hello P sent p host c r = Some (wire', r'')"
    "\<forall>rest. unpack_handshake (wire' @ rest) = (Ok (Some m), rest)"
    "wrap_server_hello P now m s sprofile = (Ok (reply, claimed_version c), s')"
    by (rule handshake_runs [OF assms(1-9), of sprofile])
  have read: "unpack_handshake wire = (Ok (Some (MsgClient base exts)), [])" and m: "m = MsgClient base exts"
    using w(1) s'(1) w(2) [rule_format, of "[]"] s'(2) [rule_format, of "[]"] by auto
  let ?h = "from_client_hello base (public_key_bytes s) (keys_local_salt s) sprofile"
  let ?es = "server_exts (public_key_bytes s) sprofile"
  have reply: "unpack_handshake reply = (Ok (Some (MsgServer ?h ?es)), [])"
    using make_server_hello_read [of base "public_key_bytes s" "keys_local_salt s" sprofile "[]"]
      wrap_server_hello_reply [OF s'(3) [unfolded m]] w(3) ready(2)
    by (simp add: hello_made_def keys_ready_def)
  note offers = known_offers [OF assms(10)]
  have suite: "0x1301 \<in> set (ch_cipher_suites base)"
    using w(3) offers(4) by (simp add: hello_made_def)
  have answer: "sh_version ?h = Tls12" "sh_session_id ?h = ch_session_id base" "sh_cipher_suite ?h = 0x1301"
    using selected_suite [OF assms(11) suite] by (simp_all add: from_client_hello_def Let_def)
  have picks: "find_by_type ext_supported_versions ?es = Some (be16 version_tls_1_3)"
    "find_by_type ext_key_share ?es = Some (be16 group_x25519 @ be16 32 @ public_key_bytes s)"
    "ex_etype ` set ?es = {ext_supported_versions, ext_key_share}"
    using server_picks [OF assms(11)] ready(2) by (simp_all add: keys_ready_def)
  note lookup = block_lookup [OF block, unfolded drawn_order_set]
  have "find_by_type ext_supported_versions exts = Some (list8 (offered_versions p g))" "ext_supported_versions \<in> ex_etype ` set exts"
    "find_by_type ext_supported_groups exts = Some (list16 (offered_groups p g))" "ext_key_share \<in> ex_etype ` set exts"
    using lookup [OF _ offers(1)] lookup [OF _ offers(3)] lookup(1) [OF _ offers(2)]
    by (simp_all add: unconditional_members data_fixed)
  moreover have "version_tls_1_3 \<in> set (offered_versions p g)" "group_x25519 \<in> set (offered_groups p g)"
    using offers(5,6) by (simp_all add: offered_versions_def offered_groups_def)
  ultimately show ?thesis
    using w(1) read s'(3) [unfolded m] reply answer suite offers(4) picks
    by (intro exI [of _ wire] exI [of _ r'] exI [of _ base] exI [of _ exts] exI [of _ reply] exI [of _ s'] exI [of _ ?h]
        exI [of _ ?es] exI [of _ g] exI [of _ version_tls_1_3]) simp
qed

lemma answer_fits_hello_witness:
  "\<exists>wire r' base exts reply s' h es g v.
    wrap_client_hello toy_crypto 1000 chrome_140 (ascii ''example.com'') demo_client_keys (\<lambda>i. 1) = Some (wire, r') \<and>
    unpack_handshake wire = (Ok (Some (MsgClient base exts)), []) \<and>
    wrap_server_hello toy_crypto 1100 (MsgClient base exts) demo_server_keys server_compat =
      (Ok (reply, claimed_version demo_client_keys), s') \<and>
    unpack_handshake reply = (Ok (Some (MsgServer h es)), []) \<and>
    sh_version h = Tls12 \<and> sh_session_id h = ch_session_id base \<and>
    sh_cipher_suite h \<in> set (bp_cipher_suites chrome_140) \<inter> set (ch_cipher_suites base) \<and>
    ex_etype ` set es \<subseteq> ex_etype ` set exts \<and>
    find_by_type ext_supported_versions exts = Some (list8 (offered_versions chrome_140 g)) \<and>
    find_by_type ext_supported_versions es = Some (be16 v) \<and> v \<in> set (offered_versions chrome_140 g) \<and>
    find_by_type ext_supported_groups exts = Some (list16 (offered_groups chrome_140 g)) \<and>
    find_by_type ext_key_share es = Some (be16 group_x25519 @ be16 32 @ public_key_bytes demo_server_keys) \<and>
    group_x25519 \<in> set (offered_groups chrome_140 g)"
  by (rule answer_fits_hello [OF toy_crypto_laws(5,6,4) demo_can_talk _ _ demo_hello_fits generous_ones])
     (simp_all add: known_profiles_def)

end
