(* ===== verification/Replay_Window.thy ===== *)
theory Replay_Window
  imports Prelude
begin

text \<open>
  Packet counters and the anti-replay window of \<open>engine/src/nrxp/datagram.rs\<close>: rebuilding a
  64-bit counter from its low bits (\<open>expand_counter\<close>), and the 1024-bit sliding bitmap
  (\<open>ReplayWindow\<close>).  Both are kept on 64-bit words with their wrap-around.  The window is
  proved to implement a set of seen counters; the locale \<open>replay_filter\<close> states that
  contract, and that no counter is ever accepted twice follows from it.
\<close>

section \<open>Truncated counters\<close>

definition truncate_counter :: "u64 \<Rightarrow> nat \<Rightarrow> u64" where
  "truncate_counter full bits = full AND (push_bit bits 1 - 1)"

definition expand_counter :: "u64 \<Rightarrow> u64 \<Rightarrow> nat \<Rightarrow> u64" where
  "expand_counter highest truncated bits =
     (let window = push_bit bits 1;
          mask = window - 1;
          half = window div 2;
          candidate = (highest AND NOT mask) OR (truncated AND mask)
      in if candidate + half \<le> highest then candidate + window
         else if highest + half < candidate \<and> window \<le> candidate then candidate - window
         else candidate)"

text \<open>The arithmetic reading, for a window of \<open>w\<close> values.\<close>

definition expand_nat :: "nat \<Rightarrow> nat \<Rightarrow> nat \<Rightarrow> nat" where
  "expand_nat h t w =
     (let c = h div w * w + t mod w
      in if c + w div 2 \<le> h then c + w
         else if h + w div 2 < c \<and> w \<le> c then c - w
         else c)"

lemma expand_nat_mod:
  assumes "0 < k" "h < c + k" "c \<le> h + k"
  shows "expand_nat h (c mod (2 * k)) (2 * k) = c"
proof -
  define w q p a b where "w = 2 * k" and "q = h div w" and "p = c div w" and "a = h mod w" and "b = c mod w"
  have w: "0 < w" "w div 2 = k" "w = k + k"
    using assms(1) by (simp_all add: w_def)
  have h: "h = q * w + a" "a < w" and c: "c = p * w + b" "b < w"
    using w(1) by (simp_all add: q_def p_def a_def b_def)
  have e: "expand_nat h (c mod w) w = (if q * w + b + k \<le> h then q * w + b + w
      else if h + k < q * w + b \<and> w \<le> q * w + b then q * w + b - w else q * w + b)"
    by (simp add: expand_nat_def w(2) q_def b_def Let_def)
  consider "p = q" | "p = Suc q" | "q = Suc p" | "q + 2 \<le> p" | "p + 2 \<le> q"
    by linarith
  then show ?thesis
  proof cases
    case 4
    then have "(q + 2) * w \<le> p * w"
      by (rule mult_le_mono1)
    with assms h c w(3) show ?thesis
      by (simp add: distrib_right)
  next
    case 5
    then have "(p + 2) * w \<le> q * w"
      by (rule mult_le_mono1)
    with assms h c w(3) show ?thesis
      by (simp add: distrib_right)
  qed (use e h c w assms in \<open>auto simp: w_def [symmetric]\<close>)
qed

lemma mask_eq: "(push_bit n 1 :: u64) - 1 = mask n"
  by (simp add: mask_eq_exp_minus_1 push_bit_of_1)

lemma unat_and_mask: "unat (w AND mask n :: u64) = unat w mod 2 ^ n"
  by (simp only: take_bit_eq_mask [symmetric] unsigned_take_bit_eq) (simp add: take_bit_eq_mod)

lemma unat_push_1: "n < 64 \<Longrightarrow> unat (push_bit n 1 :: u64) = 2 ^ n"
  by (simp only: unsigned_push_bit_eq) (simp del: push_bit_of_1)

lemma candidate_nat:
  "unat ((h AND NOT (mask n)) OR (t AND mask n) :: u64) = unat h div 2 ^ n * 2 ^ n + unat t mod 2 ^ n"
proof -
  let ?hi = "push_bit n (drop_bit n (unat h))" and ?lo = "take_bit n (unat t)"
  have "unat ((h AND NOT (mask n)) OR (t AND mask n)) = ?hi OR ?lo"
    by (rule bit_eqI) (auto simp: bit_simps dest: bit_imp_le_length)
  moreover have "?hi AND ?lo = 0"
    by (rule bit_eqI) (auto simp: bit_simps)
  ultimately show ?thesis
    by (metis disjunctive_add_eq_or drop_bit_eq_div push_bit_eq_mult take_bit_eq_mod)
qed

lemma expand_counter_nat:
  assumes "n < 63" "unat h + 2 ^ (n + 1) < 2 ^ 64"
  shows "unat (expand_counter h t n) = expand_nat (unat h) (unat t) (2 ^ n)"
proof -
  define c where "c = (h AND NOT (mask n)) OR (t AND mask n)"
  have c: "unat c = unat h div 2 ^ n * 2 ^ n + unat t mod 2 ^ n"
    by (simp add: c_def candidate_nat)
  have w: "unat (push_bit n 1 :: u64) = 2 ^ n"
    by (rule unat_push_1) (use assms(1) in simp)
  then have k: "unat (push_bit n 1 div 2 :: u64) = 2 ^ n div 2"
    by (simp add: unat_div)
  have "unat t mod 2 ^ n < 2 ^ n" "unat h div 2 ^ n * 2 ^ n \<le> unat h"
    by simp_all
  then have cb: "unat c < unat h + 2 ^ n"
    using c by linarith
  have "2 ^ (n + 1) = 2 * (2::nat) ^ n"
    by simp
  then have lt: "unat c + 2 ^ n div 2 < 2 ^ 64" "unat h + 2 ^ n div 2 < 2 ^ 64" "unat c + 2 ^ n < 2 ^ 64"
    using cb assms(2) by linarith+
  have "unat (c + push_bit n 1 div 2) = unat c + 2 ^ n div 2"
    using lt(1) k by (subst unat_plus_if') simp
  moreover have "unat (h + push_bit n 1 div 2) = unat h + 2 ^ n div 2"
    using lt(2) k by (subst unat_plus_if') simp
  moreover have "unat (c + push_bit n 1) = unat c + 2 ^ n"
    using lt(3) w by (subst unat_plus_if') simp
  moreover have "unat (c - push_bit n 1) = unat c - 2 ^ n" if "2 ^ n \<le> unat c"
    using that w by (simp add: unat_sub word_le_nat_alt)
  ultimately show ?thesis
    unfolding expand_counter_def expand_nat_def Let_def mask_eq c_def [symmetric] word_le_nat_alt
      word_less_nat_alt c [symmetric] w by simp
qed

text \<open>
  Rebuilding is exact for every counter less than half a window away from the highest one
  already accepted, on either side.
\<close>

lemma expand_truncate:
  assumes "1 \<le> n" "n < 63" "unat h + 2 ^ (n + 1) < 2 ^ 64"
    and "unat h < unat c + 2 ^ (n - 1)" "unat c \<le> unat h + 2 ^ (n - 1)"
  shows "expand_counter h (truncate_counter c n) n = c"
proof -
  have w: "(2::nat) ^ n = 2 * 2 ^ (n - 1)"
    using assms(1) by (simp flip: power_Suc)
  have "unat (truncate_counter c n) = unat c mod 2 ^ n"
    by (simp only: truncate_counter_def mask_eq unat_and_mask)
  then have "unat (expand_counter h (truncate_counter c n) n) =
      expand_nat (unat h) (unat c mod 2 ^ n mod 2 ^ n) (2 ^ n)"
    using expand_counter_nat [OF assms(2,3), of "truncate_counter c n"]
    by (simp add: expand_nat_def)
  also have "\<dots> = unat c"
    unfolding w mod_mod_trivial by (rule expand_nat_mod) (use assms in simp_all)
  finally show ?thesis
    by (simp add: word_eq_iff_unsigned [where 'a = nat])
qed

text \<open>The algorithm of RFC 9000, appendix A.3, for comparison: it is centred one further up.\<close>

definition rfc9000_decode :: "nat \<Rightarrow> nat \<Rightarrow> nat \<Rightarrow> nat" where
  "rfc9000_decode largest truncated bits =
     (let expected = largest + 1;
          win = 2 ^ bits;
          hwin = win div 2;
          candidate = expected div win * win + truncated
      in if candidate + hwin \<le> expected \<and> candidate < 2 ^ 62 - win then candidate + win
         else if expected + hwin < candidate \<and> win \<le> candidate then candidate - win
         else candidate)"

section \<open>The window\<close>

definition replay_window_size :: nat where
  "replay_window_size = 1024"

definition replay_window_words :: nat where
  "replay_window_words = replay_window_size div 64"

record replay_window =
  rw_initialized :: bool
  rw_highest :: u64
  rw_bitmap :: "u64 list"

definition replay_window_new :: replay_window where
  "replay_window_new =
     \<lparr>rw_initialized = False, rw_highest = 0, rw_bitmap = replicate replay_window_words 0\<rparr>"

definition window_slot :: "u64 \<Rightarrow> nat \<times> u64" where
  "window_slot counter =
     (let idx = unat (counter mod of_nat replay_window_size) in (idx div 64, push_bit (idx mod 64) 1))"

definition set_slot_bit :: "u64 \<Rightarrow> u64 list \<Rightarrow> u64 list" where
  "set_slot_bit counter bitmap = (let (word, b) = window_slot counter in bitmap[word := (bitmap ! word) OR b])"

definition test_and_set_bit :: "u64 \<Rightarrow> u64 list \<Rightarrow> bool \<times> u64 list" where
  "test_and_set_bit counter bitmap =
     (let (word, b) = window_slot counter
      in ((bitmap ! word) AND b \<noteq> 0, bitmap[word := (bitmap ! word) OR b]))"

text \<open>The \<open>while s <= end\<close> loop; \<open>None\<close> is divergence.\<close>

partial_function (option) clear_loop :: "u64 \<Rightarrow> u64 \<Rightarrow> u64 list \<Rightarrow> u64 list option" where
  "clear_loop s e bitmap =
     (if s \<le> e
      then (let (word, b) = window_slot s in clear_loop (s + 1) e (bitmap[word := (bitmap ! word) AND NOT b]))
      else Some bitmap)"

definition advance_window :: "replay_window \<Rightarrow> u64 \<Rightarrow> replay_window option" where
  "advance_window w shift =
     (if of_nat replay_window_size \<le> shift
      then Some (w\<lparr>rw_bitmap := replicate replay_window_words 0\<rparr>)
      else map_option (\<lambda>bm. w\<lparr>rw_bitmap := bm\<rparr>)
             (clear_loop (rw_highest w + 1) (rw_highest w + shift) (rw_bitmap w)))"

definition window_accept :: "replay_window \<Rightarrow> u64 \<Rightarrow> (bool \<times> replay_window) option" where
  "window_accept w counter =
     (if \<not> rw_initialized w then
        Some (True, w\<lparr>rw_initialized := True, rw_highest := counter,
                      rw_bitmap := set_slot_bit counter (rw_bitmap w)\<rparr>)
      else if rw_highest w < counter then
        map_option (\<lambda>w1. (True, w1\<lparr>rw_highest := counter,
                                  rw_bitmap := set_slot_bit counter (rw_bitmap w1)\<rparr>))
          (advance_window w (counter - rw_highest w))
      else
        (let behind = rw_highest w - counter
         in if of_nat replay_window_size \<le> behind then Some (False, w)
            else (let (already, bm) = test_and_set_bit counter (rw_bitmap w)
                  in Some (\<not> already, w\<lparr>rw_bitmap := bm\<rparr>))))"

section \<open>Bits of the bitmap\<close>

definition bit_at :: "u64 list \<Rightarrow> nat \<Rightarrow> bool" where
  "bit_at bm k = bit (bm ! (k div 64)) (k mod 64)"

definition pos :: "u64 \<Rightarrow> nat" where
  "pos c = unat c mod 1024"

lemma pos_less [simp]: "pos c < 1024"
  by (simp add: pos_def)

lemma slot_pos: "window_slot c = (pos c div 64, push_bit (pos c mod 64) 1)"
  by (simp add: window_slot_def replay_window_size_def unat_mod_distrib pos_def Let_def)

lemma bit_at_set:
  assumes "length bm = 16" "j < 1024"
  shows "bit_at (set_slot_bit c bm) j \<longleftrightarrow> j = pos c \<or> bit_at bm j"
proof (cases "j div 64 = pos c div 64")
  case True
  then have "j = pos c \<longleftrightarrow> j mod 64 = pos c mod 64"
    by (metis div_mult_mod_eq)
  moreover have "pos c div 64 < 16"
    using pos_less [of c] by linarith
  ultimately show ?thesis
    using True assms by (auto simp: bit_at_def set_slot_bit_def slot_pos bit_simps)
next
  case False
  then show ?thesis
    by (auto simp: bit_at_def set_slot_bit_def slot_pos)
qed

lemma length_set_slot_bit [simp]: "length (set_slot_bit c bm) = length bm"
  by (simp add: set_slot_bit_def split_beta)

lemma test_and_set_eq: "length bm = 16 \<Longrightarrow> test_and_set_bit c bm = (bit_at bm (pos c), set_slot_bit c bm)"
  by (simp add: test_and_set_bit_def set_slot_bit_def slot_pos bit_at_def bit_iff_and_push_bit_not_eq_0
      del: push_bit_of_1)

definition clear_slot_bit :: "u64 \<Rightarrow> u64 list \<Rightarrow> u64 list" where
  "clear_slot_bit c bm = (case window_slot c of (word, b) \<Rightarrow> bm[word := (bm ! word) AND NOT b])"

lemma length_clear_slot_bit [simp]: "length (clear_slot_bit c bm) = length bm"
  by (simp add: clear_slot_bit_def split_beta)

lemma bit_at_clear:
  assumes "length bm = 16" "j < 1024"
  shows "bit_at (clear_slot_bit c bm) j \<longleftrightarrow> j \<noteq> pos c \<and> bit_at bm j"
proof (cases "j div 64 = pos c div 64")
  case True
  then have "j = pos c \<longleftrightarrow> j mod 64 = pos c mod 64"
    by (metis div_mult_mod_eq)
  moreover have "pos c div 64 < 16"
    using pos_less [of c] by linarith
  ultimately show ?thesis
    using True assms by (auto simp: bit_at_def clear_slot_bit_def slot_pos bit_simps)
next
  case False
  then show ?thesis
    by (auto simp: bit_at_def clear_slot_bit_def slot_pos)
qed

lemma clear_loop_step:
  "clear_loop s e bm = (if s \<le> e then clear_loop (s + 1) e (clear_slot_bit s bm) else Some bm)"
  by (subst clear_loop.simps) (simp add: clear_slot_bit_def split_beta Let_def)

text \<open>The loop ends unless its bound is the largest word, and clears exactly the entered slots.\<close>

lemma clear_loop_result:
  assumes "e \<noteq> -1" "length bm = 16" "unat s \<le> unat e + 1"
  shows "\<exists>bm'. clear_loop s e bm = Some bm' \<and> length bm' = 16 \<and>
    (\<forall>j < 1024. bit_at bm' j \<longleftrightarrow> bit_at bm j \<and> \<not> (\<exists>x. unat s \<le> x \<and> x \<le> unat e \<and> x mod 1024 = j))"
  using assms(2,3)
proof (induction "unat e + 1 - unat s" arbitrary: s bm)
  case 0
  then have "\<not> s \<le> e"
    by (simp add: word_le_nat_alt)
  with 0 show ?case
    by (subst clear_loop_step) (auto simp: word_le_nat_alt)
next
  case (Suc n)
  then have le: "s \<le> e"
    by (simp add: word_le_nat_alt)
  have "unat e \<noteq> unat (-1 :: u64)"
    using assms(1) by (metis word_eq_iff_unsigned [where 'a = nat])
  then have "unat e < 2 ^ 64 - 1"
    using unsigned_less [where 'a = nat, of e] by (simp add: unsigned_minus_1_eq_mask mask_eq_exp_minus_1)
  with le have s1: "unat (s + 1) = unat s + 1"
    by (subst unat_plus_if') (simp add: word_le_nat_alt)
  have "\<exists>bm'. clear_loop (s + 1) e (clear_slot_bit s bm) = Some bm' \<and> length bm' = 16 \<and>
    (\<forall>j < 1024. bit_at bm' j \<longleftrightarrow> bit_at (clear_slot_bit s bm) j \<and>
       \<not> (\<exists>x. unat (s + 1) \<le> x \<and> x \<le> unat e \<and> x mod 1024 = j))"
    using Suc le s1 by (intro Suc.hyps(1)) (auto simp: word_le_nat_alt)
  then obtain bm' where bm': "clear_loop (s + 1) e (clear_slot_bit s bm) = Some bm'" "length bm' = 16"
    "\<And>j. j < 1024 \<Longrightarrow> bit_at bm' j \<longleftrightarrow> bit_at (clear_slot_bit s bm) j \<and>
       \<not> (\<exists>x. unat s + 1 \<le> x \<and> x \<le> unat e \<and> x mod 1024 = j)"
    unfolding s1 by blast
  have range: "(\<exists>x. unat s \<le> x \<and> x \<le> unat e \<and> x mod 1024 = j) \<longleftrightarrow>
      pos s = j \<or> (\<exists>x. unat s + 1 \<le> x \<and> x \<le> unat e \<and> x mod 1024 = j)" for j
    using le by (auto simp: pos_def word_le_nat_alt le_eq_less_or_eq [of "unat s"] Suc_le_eq)
  have "bit_at bm' j \<longleftrightarrow> bit_at bm j \<and> \<not> (\<exists>x. unat s \<le> x \<and> x \<le> unat e \<and> x mod 1024 = j)" if "j < 1024" for j
    unfolding range using bm'(3) [OF that] bit_at_clear [OF Suc.prems(1) that, of s] by blast
  then show ?case
    using le bm'(1,2) by (subst clear_loop_step) auto
qed

lemma clear_loop_diverges: "clear_loop s (-1) bm = None"
proof -
  have "clear_loop s e bm = Some y \<Longrightarrow> e \<noteq> -1" for s e bm y
    by (rule clear_loop.raw_induct [where P = "\<lambda>s e bm y. e \<noteq> -1"]) (auto split: if_splits prod.splits)
  then show ?thesis
    by (metis not_None_eq)
qed

section \<open>The window as a set of counters\<close>

text \<open>What the window promises: a fresh counter is one above all seen, or within the last 1024 and
  not yet seen.\<close>

definition replay_spec :: "u64 set \<Rightarrow> u64 \<Rightarrow> bool" where
  "replay_spec S c \<longleftrightarrow> S = {} \<or> Max S < c \<or> (unat (Max S) < unat c + 1024 \<and> c \<notin> S)"

definition window_abs :: "replay_window \<Rightarrow> u64 set \<Rightarrow> bool" where
  "window_abs w S \<longleftrightarrow> finite S \<and> length (rw_bitmap w) = 16 \<and>
     (if rw_initialized w
      then S \<noteq> {} \<and> rw_highest w = Max S \<and>
           (\<forall>c. c \<le> Max S \<longrightarrow> unat (Max S) < unat c + 1024 \<longrightarrow> (bit_at (rw_bitmap w) (pos c) \<longleftrightarrow> c \<in> S))
      else S = {} \<and> rw_highest w = 0 \<and> (\<forall>j < 1024. \<not> bit_at (rw_bitmap w) j))"

lemma bit_at_zeros [simp]: "j < 1024 \<Longrightarrow> \<not> bit_at (replicate replay_window_words 0) j"
  by (simp add: bit_at_def replay_window_words_def replay_window_size_def)

lemma window_abs_new: "window_abs replay_window_new {}"
  by (simp add: window_abs_def replay_window_new_def)
     (simp add: replay_window_words_def replay_window_size_def)

text \<open>Two counters less than 1024 apart share a slot only if they are equal.\<close>

lemma mod_close: "(x::nat) mod 1024 = y mod 1024 \<Longrightarrow> x < y + 1024 \<Longrightarrow> y < x + 1024 \<Longrightarrow> x = y"
proof (induction x y rule: linorder_wlog)
  case (le x y)
  then have "1024 dvd y - x" "y - x < 1024"
    using mod_eq_dvd_iff_nat [of x y 1024] by auto
  then have "y - x = 0"
    using nat_dvd_not_less by blast
  with le show ?case by simp
next
  case (sym x y)
  then show ?case by simp
qed

lemma pos_close: "pos c = pos d \<Longrightarrow> unat c < unat d + 1024 \<Longrightarrow> unat d < unat c + 1024 \<Longrightarrow> c = d"
  using mod_close [of "unat c" "unat d"] by (simp add: pos_def word_eq_iff_unsigned [where 'a = nat])

lemma advance_window_bits:
  assumes "length (rw_bitmap w) = 16" "rw_highest w < c"
    and run: "c \<noteq> -1 \<or> advance_window w (c - rw_highest w) \<noteq> None"
  shows "\<exists>bm. advance_window w (c - rw_highest w) = Some (w\<lparr>rw_bitmap := bm\<rparr>) \<and> length bm = 16 \<and>
    (\<forall>x. x < c \<longrightarrow> unat c < unat x + 1024 \<longrightarrow>
       (bit_at bm (pos x) \<longleftrightarrow> bit_at (rw_bitmap w) (pos x) \<and> x \<le> rw_highest w))"
proof (cases "of_nat replay_window_size \<le> c - rw_highest w")
  case True
  then have "unat (rw_highest w) + 1024 \<le> unat c"
    using assms(2) by (simp add: replay_window_size_def word_le_nat_alt unat_sub word_less_nat_alt)
  then have "\<not> x \<le> rw_highest w" if "unat c < unat x + 1024" for x
    using that by (simp add: word_le_nat_alt)
  moreover have "length (replicate replay_window_words (0::u64)) = 16"
    by (simp add: replay_window_words_def replay_window_size_def)
  ultimately show ?thesis
    using True by (auto simp: advance_window_def)
next
  case False
  let ?h = "rw_highest w"
  have c: "c \<noteq> -1"
    using run False clear_loop_diverges [of "?h + 1" "rw_bitmap w"] by (auto simp: advance_window_def)
  have "unat c < 2 ^ 64" "unat ?h < unat c"
    using assms(2) unsigned_less [where 'a = nat, of c] by (simp_all add: word_less_nat_alt)
  then have h1: "unat (?h + 1) = unat ?h + 1"
    by (subst unat_plus_if') simp
  obtain bm where bm: "clear_loop (?h + 1) c (rw_bitmap w) = Some bm" "length bm = 16"
    "\<And>j. j < 1024 \<Longrightarrow> bit_at bm j \<longleftrightarrow> bit_at (rw_bitmap w) j \<and>
       \<not> (\<exists>x. unat ?h + 1 \<le> x \<and> x \<le> unat c \<and> x mod 1024 = j)"
    using clear_loop_result [of c "rw_bitmap w" "?h + 1"] assms(1) c \<open>unat ?h < unat c\<close> unfolding h1 by auto
  have range: "(\<exists>y. unat ?h + 1 \<le> y \<and> y \<le> unat c \<and> y mod 1024 = pos x) \<longleftrightarrow> \<not> x \<le> ?h"
    if x: "x < c" "unat c < unat x + 1024" for x
  proof
    assume "\<exists>y. unat ?h + 1 \<le> y \<and> y \<le> unat c \<and> y mod 1024 = pos x"
    then obtain y where y: "unat ?h + 1 \<le> y" "y \<le> unat c" "y mod 1024 = unat x mod 1024"
      unfolding pos_def by blast
    show "\<not> x \<le> ?h"
    proof
      assume "x \<le> ?h"
      then have "unat x < y" "y < unat x + 1024"
        using x y by (simp_all add: word_le_nat_alt)
      with mod_close [OF y(3)] show False
        by simp
    qed
  next
    assume "\<not> x \<le> ?h"
    with x show "\<exists>y. unat ?h + 1 \<le> y \<and> y \<le> unat c \<and> y mod 1024 = pos x"
      by (intro exI [of _ "unat x"]) (simp add: pos_def word_le_nat_alt word_less_nat_alt)
  qed
  have "advance_window w (c - ?h) = Some (w\<lparr>rw_bitmap := bm\<rparr>)"
    using False bm(1) by (simp add: advance_window_def)
  moreover have "bit_at bm (pos x) \<longleftrightarrow> bit_at (rw_bitmap w) (pos x) \<and> x \<le> ?h"
    if "x < c" "unat c < unat x + 1024" for x
    using bm(3) [OF pos_less [of x]] range [OF that] by blast
  ultimately show ?thesis
    using bm(2) by blast
qed

lemma window_accept_refines:
  assumes R: "window_abs w S" and c: "c \<noteq> -1 \<or> window_accept w c \<noteq> None"
  shows "\<exists>w'. window_accept w c = Some (replay_spec S c, w') \<and>
    window_abs w' (if replay_spec S c then insert c S else S)"
proof -
  have len: "length (rw_bitmap w) = 16" and fin: "finite S"
    using R by (simp_all add: window_abs_def)
  consider (empty) "\<not> rw_initialized w" "S = {}"
    | (above) "rw_initialized w" "S \<noteq> {}" "rw_highest w = Max S" "Max S < c"
    | (below) "rw_initialized w" "S \<noteq> {}" "rw_highest w = Max S" "c \<le> Max S"
    using R unfolding window_abs_def by (metis linorder_not_less)
  then show ?thesis
  proof cases
    case empty
    then have zero: "\<And>j. j < 1024 \<Longrightarrow> \<not> bit_at (rw_bitmap w) j"
      using R by (simp add: window_abs_def)
    have "bit_at (set_slot_bit c (rw_bitmap w)) (pos x) \<longleftrightarrow> x = c" if "x \<le> c" "unat c < unat x + 1024" for x
      using bit_at_set [OF len, of "pos x" c] zero [of "pos x"] pos_close [of x c] that
      by (auto simp: word_le_nat_alt)
    with empty len show ?thesis
      by (simp add: window_accept_def replay_spec_def window_abs_def)
  next
    case above
    then obtain bm where bm: "advance_window w (c - rw_highest w) = Some (w\<lparr>rw_bitmap := bm\<rparr>)" "length bm = 16"
      "\<And>x. x < c \<Longrightarrow> unat c < unat x + 1024 \<Longrightarrow>
         bit_at bm (pos x) \<longleftrightarrow> bit_at (rw_bitmap w) (pos x) \<and> x \<le> Max S"
      using advance_window_bits [OF len, of c] c by (auto simp: window_accept_def)
    have bits: "bit_at (set_slot_bit c bm) (pos x) \<longleftrightarrow> x \<in> insert c S"
      if x: "x \<le> c" "unat c < unat x + 1024" for x
    proof (cases "x = c")
      case True
      then show ?thesis
        using bit_at_set [OF bm(2), of "pos x" c] by simp
    next
      case False
      have "x < c"
        using x False by simp
      have ne: "pos x \<noteq> pos c"
        using pos_close [of x c] x False by (auto simp: word_le_nat_alt)
      have in_win: "bit_at (rw_bitmap w) (pos x) \<longleftrightarrow> x \<in> S" if "x \<le> Max S"
        using R above x that by (simp add: window_abs_def word_le_nat_alt word_less_nat_alt)
      have "bit_at (set_slot_bit c bm) (pos x) \<longleftrightarrow> bit_at (rw_bitmap w) (pos x) \<and> x \<le> Max S"
        using bm(3) [OF \<open>x < c\<close> x(2)] bit_at_set [OF bm(2) pos_less, of c x] ne by blast
      also have "\<dots> \<longleftrightarrow> x \<in> S"
        using in_win Max_ge [OF fin] by blast
      finally show ?thesis
        using False by blast
    qed
    have "Max (insert c S) = c"
      unfolding Max_insert [OF fin above(2)] using above(4) by (rule max_absorb1 [OF less_imp_le])
    with above bits bm(1,2) fin show ?thesis
      by (simp add: window_accept_def replay_spec_def window_abs_def)
  next
    case below
    have nlt: "\<not> Max S < c"
      using below(4) by (rule leD)
    have behind: "of_nat replay_window_size \<le> rw_highest w - c \<longleftrightarrow> \<not> unat (Max S) < unat c + 1024"
      using below by (auto simp: replay_window_size_def word_le_nat_alt unat_sub)
    show ?thesis
    proof (cases "unat (Max S) < unat c + 1024")
      case True
      have mx: "Max (insert c S) = Max S"
        using below fin by (simp add: max_def)
      have old: "bit_at (rw_bitmap w) (pos c) \<longleftrightarrow> c \<in> S"
        using R below True by (simp add: window_abs_def)
      have bits: "bit_at (set_slot_bit c (rw_bitmap w)) (pos x) \<longleftrightarrow> x \<in> insert c S"
        if x: "x \<le> Max S" "unat (Max S) < unat x + 1024" for x
      proof -
        have "pos x = pos c \<longleftrightarrow> x = c"
          using pos_close [of x c] x below True by (auto simp: word_le_nat_alt)
        then show ?thesis
          using R below x bit_at_set [OF len, of "pos x" c] by (auto simp: window_abs_def)
      qed
      have "window_abs (w\<lparr>rw_bitmap := set_slot_bit c (rw_bitmap w)\<rparr>) (insert c S)"
        using below bits mx fin len by (simp add: window_abs_def)
      moreover have "window_accept w c = Some (c \<notin> S, w\<lparr>rw_bitmap := set_slot_bit c (rw_bitmap w)\<rparr>)"
        using below True behind old len nlt
        by (simp add: window_accept_def test_and_set_eq Let_def del: Max_less_iff not_less)
      moreover have "replay_spec S c \<longleftrightarrow> c \<notin> S"
        using below(2) True nlt unfolding replay_spec_def by blast
      ultimately show ?thesis
        by (auto simp: insert_absorb)
    next
      case False
      then show ?thesis
        using R below(1-3) behind nlt
        by (simp add: window_accept_def replay_spec_def Let_def del: Max_less_iff not_less)
    qed
  qed
qed

section \<open>The contract of a replay filter\<close>

locale replay_filter =
  fixes accept :: "'s \<Rightarrow> u64 \<Rightarrow> (bool \<times> 's) option"
    and abs :: "'s \<Rightarrow> u64 set \<Rightarrow> bool"
    and usable :: "u64 \<Rightarrow> bool"
  assumes refines: "abs s S \<Longrightarrow> usable c \<Longrightarrow>
     \<exists>s'. accept s c = Some (replay_spec S c, s') \<and> abs s' (if replay_spec S c then insert c S else S)"
begin

text \<open>Feed counters one by one and keep the accepted ones.\<close>

fun run_filter :: "'s \<Rightarrow> u64 list \<Rightarrow> (u64 list \<times> 's) option" where
  "run_filter s [] = Some ([], s)"
| "run_filter s (c # cs) =
     Option.bind (accept s c) (\<lambda>(ok, s').
       map_option (\<lambda>(acc, t). (if ok then c # acc else acc, t)) (run_filter s' cs))"

lemma spec_fresh: "finite S \<Longrightarrow> replay_spec S c \<Longrightarrow> c \<notin> S"
  by (metis Max_ge empty_iff leD replay_spec_def)

lemma run_filter_distinct:
  "abs s S \<Longrightarrow> finite S \<Longrightarrow> (\<And>c. c \<in> set cs \<Longrightarrow> usable c) \<Longrightarrow>
     \<exists>acc t. run_filter s cs = Some (acc, t) \<and> distinct acc \<and> set acc \<inter> S = {} \<and> abs t (S \<union> set acc)"
proof (induction cs arbitrary: s S)
  case (Cons c cs)
  let ?S = "if replay_spec S c then insert c S else S"
  obtain s' where s': "accept s c = Some (replay_spec S c, s')" "abs s' ?S"
    using refines [OF Cons.prems(1), of c] Cons.prems(3) by auto
  obtain acc t where "run_filter s' cs = Some (acc, t)" "distinct acc" "set acc \<inter> ?S = {}" "abs t (?S \<union> set acc)"
    using Cons.IH [OF s'(2)] Cons.prems(2,3) by (auto split: if_splits)
  with s' spec_fresh [OF Cons.prems(2), of c] show ?case
    by (cases "replay_spec S c") auto
qed simp

end

interpretation window: replay_filter window_accept window_abs "\<lambda>c. c \<noteq> -1"
  by unfold_locales (blast intro: window_accept_refines)

section \<open>Properties\<close>

text \<open>A counter that is less than half a wire window away from the
  highest accepted one, on either side, is rebuilt exactly from its truncated form.\<close>

theorem counter_roundtrip:
  assumes "1 \<le> n" and "n < 63" and "unat h + 2 ^ (n + 1) < 2 ^ 64"
    and "unat h < unat c + 2 ^ (n - 1)" and "unat c \<le> unat h + 2 ^ (n - 1)"
  shows "expand_counter h (truncate_counter c n) n = c"
  using assms by (rule expand_truncate)

lemma counter_roundtrip_witness:
  "expand_counter 65540 (truncate_counter 65530 16) 16 = 65530"
  by (rule counter_roundtrip) simp_all

text \<open>The algorithm is not the one of RFC 9000 it is described
  as: with 65536 as the highest counter, the wire value \<open>0x8001\<close> gives 32769, where the RFC
  gives 98305.\<close>

theorem counter_not_rfc9000:
  "expand_counter 65536 0x8001 16 = 32769 \<and> rfc9000_decode 65536 0x8001 16 = 98305"
proof -
  have "unat (expand_counter 65536 0x8001 16) = expand_nat 65536 0x8001 (2 ^ 16)"
    using expand_counter_nat [of 16 65536 "0x8001"] by simp
  then have "unat (expand_counter 65536 0x8001 16) = unat (32769 :: u64)"
    by (simp add: expand_nat_def)
  then show ?thesis
    by (simp add: word_eq_iff_unsigned [where 'a = nat] rfc9000_decode_def Let_def)
qed

text \<open>Property C17 (window_refines_set): the bitmap implements the set of seen counters: for every
  counter below \<open>2^64 - 1\<close> the call returns, accepts exactly the fresh ones (above all seen, or
  within the last 1024 and not seen), and the new window stands for the new set.\<close>

theorem window_refines_set:
  assumes "window_abs w S" and "c \<noteq> -1"
  shows "\<exists>w'. window_accept w c = Some (replay_spec S c, w') \<and>
    window_abs w' (if replay_spec S c then insert c S else S)"
  by (rule window_accept_refines) (use assms in blast)+

lemma window_refines_set_witness:
  "\<exists>w'. window_accept replay_window_new 5 = Some (replay_spec {} 5, w') \<and>
    window_abs w' (if replay_spec {} 5 then insert 5 {} else {})"
  by (rule window_refines_set [OF window_abs_new]) simp

text \<open>Whatever sequence of counters a fresh window is given, it answers
  every call and accepts no counter twice.\<close>

theorem no_replay:
  assumes "-1 \<notin> set cs"
  shows "\<exists>acc t. window.run_filter replay_window_new cs = Some (acc, t) \<and> distinct acc \<and>
    window_abs t (set acc)"
proof -
  have "\<exists>acc t. window.run_filter replay_window_new cs = Some (acc, t) \<and> distinct acc \<and>
      set acc \<inter> {} = {} \<and> window_abs t ({} \<union> set acc)"
    by (rule window.run_filter_distinct [OF window_abs_new]) (use assms in auto)
  then show ?thesis
    by simp
qed

lemma no_replay_witness:
  "\<exists>acc t. window.run_filter replay_window_new [3, 5, 3, 4, 2000, 5] = Some (acc, t) \<and> distinct acc \<and>
    window_abs t (set acc)"
  by (rule no_replay) simp

text \<open>For the largest counter, reached from less than 1024 below,
  the clearing loop never ends, because its index wraps to zero before it passes the bound.\<close>

theorem last_counter_hangs:
  assumes "rw_initialized w" and "rw_highest w < -1" and "-1 - rw_highest w < 1024"
  shows "window_accept w (-1) = None"
proof -
  have "rw_highest w + (-1 - rw_highest w) = -1"
    by simp
  then show ?thesis
    using assms clear_loop_diverges [of "rw_highest w + 1" "rw_bitmap w"]
    by (simp add: window_accept_def advance_window_def replay_window_size_def not_le)
qed

lemma last_counter_hangs_witness:
  "window_accept \<lparr>rw_initialized = True, rw_highest = -5, rw_bitmap = replicate 16 0\<rparr> (-1) = None"
  by (rule last_counter_hangs) simp_all

text \<open>Property C34 (accept_hangs_iff): accepting a counter returns for every state of the window and
  every counter, but for one: the largest counter, reached by a jump of less than 1024.\<close>

theorem accept_hangs_iff:
  assumes "length (rw_bitmap w) = replay_window_words"
  shows "window_accept w c = None \<longleftrightarrow>
    rw_initialized w \<and> c = -1 \<and> rw_highest w < c \<and> c - rw_highest w < of_nat replay_window_size"
proof (cases "rw_initialized w \<and> rw_highest w < c")
  case True
  let ?jump = "c - rw_highest w"
  have "advance_window w ?jump = None \<longleftrightarrow> c = -1 \<and> ?jump < of_nat replay_window_size"
  proof (cases "c = -1 \<and> ?jump < of_nat replay_window_size")
    case True
    then show ?thesis
      using clear_loop_diverges by (simp add: advance_window_def not_le [symmetric])
  next
    case False
    then have "c \<noteq> -1 \<or> advance_window w ?jump \<noteq> None"
      by (auto simp: advance_window_def)
    moreover have "length (rw_bitmap w) = 16"
      using assms by (simp add: replay_window_words_def replay_window_size_def)
    ultimately show ?thesis
      using False advance_window_bits [of w c] True by auto
  qed
  then show ?thesis
    using True by (auto simp: window_accept_def)
qed (auto simp: window_accept_def Let_def split_beta)

lemma accept_hangs_iff_witness:
  "window_accept \<lparr>rw_initialized = True, rw_highest = -5, rw_bitmap = replicate 16 0\<rparr> (-1) = None"
proof -
  let ?w = "\<lparr>rw_initialized = True, rw_highest = -5, rw_bitmap = replicate 16 0\<rparr>"
  have "length (rw_bitmap ?w) = replay_window_words"
    by (simp add: replay_window_words_def replay_window_size_def)
  then show ?thesis
    by (rule accept_hangs_iff [THEN iffD2]) (simp add: replay_window_size_def)
qed

end
