(* ===== verification/Datagram.thy ===== *)
theory Datagram
  imports Frame Chacha Datagram_Keys Replay_Window
begin

text \<open>
  The datagram engine of \<open>engine/src/nrxp/datagram.rs\<close>: sealing one frame per datagram with
  an explicit counter (\<open>DatagramTx\<close>), epochs of keys with a replay window each
  (\<open>EpochSlot\<close>), and opening under the current, the previous or the next epoch
  (\<open>DatagramRx\<close>).  The lemmas show that what is sealed is opened across any number of key
  changes, that losses, reordering and replays are decided as the window promises, that
  forgeries change nothing, and that no datagram is ever accepted twice.
\<close>

section \<open>Sealing\<close>

definition rekey_after_datagrams :: u64 where
  "rekey_after_datagrams = push_bit 14 1"

definition build_nonce :: "bytes \<Rightarrow> u64 \<Rightarrow> bytes" where
  "build_nonce salt counter =
     foldl (\<lambda>iv i. iv[i + 4 := (iv ! (i + 4)) XOR (be64 counter ! i)]) salt [0..<8]"

definition auth_fail :: "string \<Rightarrow> tls_error" where
  "auth_fail what = tls_error_new (StageTls what) Drop []"

record sealed_datagram =
  sd_epoch_id :: u8
  sd_counter :: u64
  sd_ciphertext :: bytes

record datagram_tx =
  dt_keys :: dgram_keys
  dt_counter :: u64

definition datagram_tx_new :: "dgram_keys \<Rightarrow> datagram_tx" where
  "datagram_tx_new keys = \<lparr>dt_keys = keys, dt_counter = 0\<rparr>"

definition peek_next_epoch_and_counter :: "datagram_tx \<Rightarrow> u8 \<times> u64" where
  "peek_next_epoch_and_counter tx =
     (if rekey_after_datagrams \<le> dt_counter tx then (tx_epoch_id (dt_keys tx) + 1, 0)
      else (tx_epoch_id (dt_keys tx), dt_counter tx))"

text \<open>A frame with zero tag and no padding draws no random bytes.\<close>

definition datagram_plaintext :: "u32 \<Rightarrow> frame_type \<Rightarrow> bytes \<Rightarrow> bytes" where
  "datagram_plaintext sid ft payload =
     fst (frame_into_bytes (frame_new sid ft payload) (replicate 16 0) 0 (\<lambda>_. 0))"

definition rekey_if_due :: "crypto \<Rightarrow> datagram_tx \<Rightarrow> datagram_tx option" where
  "rekey_if_due P tx =
     (if rekey_after_datagrams \<le> dt_counter tx
      then map_option (\<lambda>(_, keys). tx\<lparr>dt_keys := keys, dt_counter := 0\<rparr>) (tx_advance P (dt_keys tx))
      else Some tx)"

definition datagram_seal ::
  "crypto \<Rightarrow> datagram_tx \<Rightarrow> u32 \<Rightarrow> frame_type \<Rightarrow> bytes \<Rightarrow> bytes \<Rightarrow> (tls_error, sealed_datagram) result \<times> datagram_tx"
where
  "datagram_seal P tx sid ft payload aad =
     (case rekey_if_due P tx of
        None \<Rightarrow> (Panic, tx)
      | Some tx1 \<Rightarrow>
          (case tx_current P (dt_keys tx1) of
             None \<Rightarrow> (Panic, tx1)
           | Some epoch \<Rightarrow>
               (let counter = dt_counter tx1;
                    tx2 = tx1\<lparr>dt_counter := dt_counter tx1 + 1\<rparr>;
                    buf = datagram_plaintext sid ft payload;
                    nonce = build_nonce (ek_salt epoch) counter
                in case aead_seal P (ek_key epoch) nonce aad buf of
                     None \<Rightarrow> (Err (auth_fail ''Datagram AEAD seal failed''), tx2)
                   | Some c \<Rightarrow> (Ok \<lparr>sd_epoch_id = ek_epoch_id epoch, sd_counter = counter,
                                    sd_ciphertext = c\<rparr>, tx2))))"

section \<open>Opening\<close>

record epoch_slot =
  es_epoch_id :: u8
  es_keys :: epoch_keys
  es_window :: replay_window

definition epoch_slot_fresh :: "epoch_keys \<Rightarrow> epoch_slot" where
  "epoch_slot_fresh keys =
     \<lparr>es_epoch_id = ek_epoch_id keys, es_keys = keys, es_window = replay_window_new\<rparr>"

text \<open>The outer \<open>None\<close> is the divergence of the window's clearing loop.\<close>

definition slot_try_open ::
  "crypto \<Rightarrow> epoch_slot \<Rightarrow> u64 \<Rightarrow> nat \<Rightarrow> bytes \<Rightarrow> bytes \<Rightarrow> (bytes option \<times> epoch_slot) option"
where
  "slot_try_open P s wire_counter wire_bits ciphertext aad =
     (let full_counter = expand_counter (rw_highest (es_window s)) wire_counter wire_bits;
          nonce = build_nonce (ek_salt (es_keys s)) full_counter
      in case aead_open P (ek_key (es_keys s)) nonce aad ciphertext of
           None \<Rightarrow> Some (None, s)
         | Some buf \<Rightarrow>
             map_option (\<lambda>(ok, w). (if ok then Some buf else None, s\<lparr>es_window := w\<rparr>))
               (window_accept (es_window s) full_counter))"

record datagram_rx =
  dr_keys :: dgram_keys
  dr_current :: epoch_slot
  dr_previous :: "epoch_slot option"

definition datagram_rx_new :: "crypto \<Rightarrow> dgram_keys \<Rightarrow> datagram_rx option" where
  "datagram_rx_new P keys =
     map_option (\<lambda>k. \<lparr>dr_keys = keys, dr_current = epoch_slot_fresh k, dr_previous = None\<rparr>)
       (rx_current P keys)"

definition current_epoch_id :: "datagram_rx \<Rightarrow> u8" where
  "current_epoch_id rx = es_epoch_id (dr_current rx)"

definition parse_datagram :: "bytes \<Rightarrow> (tls_error, frame) result" where
  "parse_datagram plaintext =
     (case fst (frame_parse plaintext) of
        Ok (Some f) \<Rightarrow> Ok f
      | Ok None \<Rightarrow> Err (auth_fail ''Datagram plaintext did not contain a full frame'')
      | Err e \<Rightarrow> Err (auth_fail ''Datagram frame parse error'')
      | Panic \<Rightarrow> Panic)"

text \<open>Which slot a datagram is tried against.\<close>

datatype epoch_choice = UseCurrent | UsePrevious epoch_slot | UseNext | NoEpoch

definition choose_epoch :: "datagram_rx \<Rightarrow> u8 \<Rightarrow> epoch_choice" where
  "choose_epoch rx epoch_id =
     (if epoch_id = es_epoch_id (dr_current rx) then UseCurrent
      else case dr_previous rx of
             Some slot \<Rightarrow>
               if es_epoch_id slot = epoch_id then UsePrevious slot
               else if epoch_id = es_epoch_id (dr_current rx) + 1 then UseNext else NoEpoch
           | None \<Rightarrow> if epoch_id = es_epoch_id (dr_current rx) + 1 then UseNext else NoEpoch)"

definition datagram_open ::
  "crypto \<Rightarrow> datagram_rx \<Rightarrow> u8 \<Rightarrow> u64 \<Rightarrow> nat \<Rightarrow> bytes \<Rightarrow> bytes \<Rightarrow>
     ((tls_error, frame) result \<times> datagram_rx) option"
where
  "datagram_open P rx epoch_id wire_counter wire_bits ciphertext aad =
     (case choose_epoch rx epoch_id of
        UseCurrent \<Rightarrow>
          map_option (\<lambda>(res, slot).
            (case res of
               None \<Rightarrow> Err (auth_fail ''Datagram AEAD open failed (current epoch)'')
             | Some plain \<Rightarrow> parse_datagram plain,
             rx\<lparr>dr_current := slot\<rparr>))
            (slot_try_open P (dr_current rx) wire_counter wire_bits ciphertext aad)
      | UsePrevious prev \<Rightarrow>
          map_option (\<lambda>(res, slot).
            (case res of
               None \<Rightarrow> Err (auth_fail ''Datagram AEAD open failed (previous epoch)'')
             | Some plain \<Rightarrow> parse_datagram plain,
             rx\<lparr>dr_previous := Some slot\<rparr>))
            (slot_try_open P prev wire_counter wire_bits ciphertext aad)
      | UseNext \<Rightarrow>
          (case rx_peek_next P (dr_keys rx) of
             None \<Rightarrow> Some (Panic, rx)
           | Some keys \<Rightarrow>
               map_option (\<lambda>(res, candidate).
                 case res of
                   None \<Rightarrow> (Err (auth_fail ''Datagram AEAD open failed (candidate next epoch)''), rx)
                 | Some plain \<Rightarrow>
                     (case rx_advance P (dr_keys rx) of
                        None \<Rightarrow> (Panic, rx)
                      | Some (_, keys') \<Rightarrow>
                          (parse_datagram plain,
                           rx\<lparr>dr_keys := keys', dr_current := candidate,
                              dr_previous := Some (dr_current rx)\<rparr>)))
                 (slot_try_open P (epoch_slot_fresh keys) wire_counter wire_bits ciphertext aad))
      | NoEpoch \<Rightarrow> Some (Err (auth_fail ''Datagram epoch_id out of acceptable range''), rx))"

section \<open>Sealing works\<close>

lemma rekey_after [simp]: "rekey_after_datagrams = 16384"
  by (simp add: rekey_after_datagrams_def)

lemma build_nonce_eq: "build_nonce = xor_counter"
  by (rule ext)+ (simp add: build_nonce_def xor_counter_def)

lemma parse_datagram_plaintext:
  assumes "length payload < 65536"
  shows "parse_datagram (datagram_plaintext sid ft payload) =
    Ok \<lparr>fr_payload = payload, fr_header = sent_header sid ft (length payload) (replicate 16 0) 0\<rparr>"
proof -
  obtain padding where "length padding = unat (0 :: u16)"
    "datagram_plaintext sid ft payload =
       header_bytes (sent_header sid ft (length payload) (replicate 16 0) 0) @ payload @ padding"
    unfolding datagram_plaintext_def by (rule frame_into_bytes_layout)
  then have "frame_parse (datagram_plaintext sid ft payload) =
      (Ok (Some \<lparr>fr_payload = payload, fr_header = sent_header sid ft (length payload) (replicate 16 0) 0\<rparr>), [])"
    using assms by (auto simp: frame_parse_iff sent_header_def)
  then show ?thesis
    by (simp add: parse_datagram_def)
qed

lemma length_datagram_plaintext: "length (datagram_plaintext sid ft payload) = 25 + length payload"
  by (simp add: datagram_plaintext_def length_frame_into_bytes wire_len_def)

text \<open>The laws sealing and opening rely on.\<close>

definition dgram_laws :: "crypto \<Rightarrow> bool" where
  "dgram_laws P \<longleftrightarrow> aead_correct P \<and> aead_total P \<and> hkdf_lengths P"

lemma toy_dgram_laws: "dgram_laws toy_crypto"
  by (simp add: dgram_laws_def toy_crypto_laws)

section \<open>Opening under a slot\<close>

text \<open>Counters of an epoch never exceed the rekeying threshold.\<close>

definition epoch_counters :: "u64 set \<Rightarrow> bool" where
  "epoch_counters S \<longleftrightarrow> (\<forall>x \<in> S. x \<le> rekey_after_datagrams)"

lemma epoch_counters_simps [simp]:
  "epoch_counters {}" "epoch_counters (insert c S) \<longleftrightarrow> c \<le> 16384 \<and> epoch_counters S"
  by (auto simp: epoch_counters_def)

lemma window_highest_bound:
  assumes "window_abs w S" "epoch_counters S"
  shows "unat (rw_highest w) \<le> 16384"
proof (cases "rw_initialized w")
  case True
  then have "rw_highest w \<in> S"
    using assms(1) by (simp add: window_abs_def)
  then show ?thesis
    using assms(2) by (auto simp: epoch_counters_def word_le_nat_alt)
qed (use assms(1) in \<open>simp add: window_abs_def\<close>)

lemma expand_in_epoch:
  assumes "window_abs w S" "epoch_counters S" "c \<le> 16384" "16 \<le> n" "n < 63"
  shows "expand_counter (rw_highest w) (truncate_counter c n) n = c"
proof (rule expand_truncate)
  have h: "unat (rw_highest w) \<le> 16384"
    using assms(1,2) by (rule window_highest_bound)
  have c: "unat c \<le> 16384"
    using assms(3) by (simp add: word_le_nat_alt)
  have "(2::nat) ^ 15 \<le> 2 ^ (n - 1)" "(2::nat) ^ (n + 1) \<le> 2 ^ 63"
    using assms(4,5) by (intro power_increasing; simp)+
  with h c show "unat (rw_highest w) < unat c + 2 ^ (n - 1)" "unat c \<le> unat (rw_highest w) + 2 ^ (n - 1)"
    "unat (rw_highest w) + 2 ^ (n + 1) < 2 ^ 64"
    by simp_all
qed (use assms(4,5) in simp_all)

lemma slot_opens_sealed:
  assumes "aead_correct P" "window_abs (es_window s) S" "epoch_counters S" "c \<le> 16384" "16 \<le> n" "n < 63"
    and "aead_seal P (ek_key (es_keys s)) (build_nonce (ek_salt (es_keys s)) c) aad buf = Some ct"
  shows "\<exists>w. slot_try_open P s (truncate_counter c n) n ct aad =
      Some (if replay_spec S c then Some buf else None, s\<lparr>es_window := w\<rparr>) \<and>
    window_abs w (if replay_spec S c then insert c S else S)"
proof -
  have "c \<noteq> -1"
    using assms(4) by (auto simp: word_le_nat_alt unsigned_minus_1_eq_mask mask_eq_exp_minus_1)
  then obtain w where w: "window_accept (es_window s) c = Some (replay_spec S c, w)"
    "window_abs w (if replay_spec S c then insert c S else S)"
    using window_accept_refines [OF assms(2)] by blast
  have "aead_open P (ek_key (es_keys s)) (build_nonce (ek_salt (es_keys s)) c) aad ct = Some buf"
    using assms(1,7) by (rule aead_correctD(1))
  with w show ?thesis
    by (intro exI [of _ w]) (simp add: slot_try_open_def expand_in_epoch [OF assms(2-6)])
qed

section \<open>Sender and receiver\<close>

text \<open>
  \<open>dgram_link P tx rx S lag\<close>: the receiver's current epoch is the sender's (\<open>lag = False\<close>) or the
  one before it (\<open>lag = True\<close>), and \<open>S\<close> are the counters it has accepted in it.
\<close>

definition dgram_link :: "crypto \<Rightarrow> datagram_tx \<Rightarrow> datagram_rx \<Rightarrow> u64 set \<Rightarrow> bool \<Rightarrow> bool" where
  "dgram_link P tx rx S lag \<longleftrightarrow>
     dgram_keys_wf P (dt_keys tx) \<and> dgram_keys_wf P (dr_keys rx) \<and>
     (if lag then \<exists>k. ratchet_advance P (dk_rx (dr_keys rx)) = Some (k, dk_tx (dt_keys tx))
      else dk_tx (dt_keys tx) = dk_rx (dr_keys rx) \<and> (\<forall>x \<in> S. x < dt_counter tx)) \<and>
     rx_current P (dr_keys rx) = Some (es_keys (dr_current rx)) \<and>
     es_epoch_id (dr_current rx) = rx_epoch_id (dr_keys rx) \<and>
     (case dr_previous rx of None \<Rightarrow> True | Some p \<Rightarrow> es_epoch_id p + 1 = es_epoch_id (dr_current rx)) \<and>
     window_abs (es_window (dr_current rx)) S \<and> epoch_counters S \<and> dt_counter tx \<le> 16384"

lemma dgram_link_new:
  assumes "dgram_keys_wf P kt" "dgram_keys_wf P kr" "dk_tx kt = dk_rx kr"
  obtains rx where "datagram_rx_new P kr = Some rx" "dgram_link P (datagram_tx_new kt) rx {} False"
proof -
  obtain k where k: "ratchet_current P (dk_rx kr) = Some k" "ek_epoch_id k = kr_epoch_id (dk_rx kr)"
    using key_chain.current_ok assms(2) unfolding dgram_keys_wf_def by blast
  then have "datagram_rx_new P kr = Some \<lparr>dr_keys = kr, dr_current = epoch_slot_fresh k, dr_previous = None\<rparr>"
    by (simp add: datagram_rx_new_def rx_current_def)
  moreover have "dgram_link P (datagram_tx_new kt) \<lparr>dr_keys = kr, dr_current = epoch_slot_fresh k, dr_previous = None\<rparr> {} False"
    using assms k by (simp add: dgram_link_def datagram_tx_new_def epoch_slot_fresh_def rx_current_def
        rx_epoch_id_def window_abs_new)
  ultimately show thesis
    by (rule that)
qed

lemma epoch_successors: "(e :: u8) + 1 \<noteq> e" "p + 1 = e \<Longrightarrow> p \<noteq> e + (1 :: u8)" "p + 1 = e \<Longrightarrow> p \<noteq> (e :: u8)"
  by (auto simp: add.assoc)

text \<open>Sealing never fails, and leaves the receiver linked, at most one epoch behind.\<close>

lemma seal_ok:
  assumes laws: "dgram_laws P" and wf: "dgram_keys_wf P (dt_keys tx)" and c: "dt_counter tx \<le> 16384"
    and len: "length payload < 2 ^ 32"
  obtains tx1 k ct where
    "rekey_if_due P tx = Some tx1" "tx_current P (dt_keys tx1) = Some k" "dgram_keys_wf P (dt_keys tx1)"
    "dt_counter tx1 < 16384" "ek_epoch_id k = tx_epoch_id (dt_keys tx1)"
    "aead_seal P (ek_key k) (build_nonce (ek_salt k) (dt_counter tx1)) aad (datagram_plaintext sid ft payload) = Some ct"
    "datagram_seal P tx sid ft payload aad =
       (Ok \<lparr>sd_epoch_id = ek_epoch_id k, sd_counter = dt_counter tx1, sd_ciphertext = ct\<rparr>,
        tx1\<lparr>dt_counter := dt_counter tx1 + 1\<rparr>)"
    "peek_next_epoch_and_counter tx = (ek_epoch_id k, dt_counter tx1)"
    "if dt_counter tx = 16384
     then (\<exists>k'. ratchet_advance P (dk_tx (dt_keys tx)) = Some (k', dk_tx (dt_keys tx1))) \<and> dt_counter tx1 = 0
     else tx1 = tx"
proof -
  have wr: "ratchet_wf P (dk_tx (dt_keys tx))" "ratchet_wf P (dk_rx (dt_keys tx))"
    using wf by (simp_all add: dgram_keys_wf_def)
  have "\<exists>tx1. rekey_if_due P tx = Some tx1 \<and> dgram_keys_wf P (dt_keys tx1) \<and> dt_counter tx1 < 16384 \<and>
      peek_next_epoch_and_counter tx = (tx_epoch_id (dt_keys tx1), dt_counter tx1) \<and>
      (if dt_counter tx = 16384
       then (\<exists>k'. ratchet_advance P (dk_tx (dt_keys tx)) = Some (k', dk_tx (dt_keys tx1))) \<and> dt_counter tx1 = 0
       else tx1 = tx)"
  proof (cases "dt_counter tx = 16384")
    case True
    obtain k' r where r: "ratchet_advance P (dk_tx (dt_keys tx)) = Some (k', r)" "ratchet_wf P r"
      "kr_epoch_id r = kr_epoch_id (dk_tx (dt_keys tx)) + 1"
      using key_chain.advance_ok [OF wr(1)] by blast
    with True wr(2) show ?thesis
      by (intro exI [of _ "tx\<lparr>dt_keys := (dt_keys tx)\<lparr>dk_tx := r\<rparr>, dt_counter := 0\<rparr>"])
         (simp add: rekey_if_due_def tx_advance_def dgram_keys_wf_def peek_next_epoch_and_counter_def
           tx_epoch_id_def)
  next
    case False
    with c wf show ?thesis
      by (intro exI [of _ tx]) (auto simp: rekey_if_due_def peek_next_epoch_and_counter_def)
  qed
  then obtain tx1 where tx1: "rekey_if_due P tx = Some tx1" "dgram_keys_wf P (dt_keys tx1)"
      "dt_counter tx1 < 16384"
      "peek_next_epoch_and_counter tx = (tx_epoch_id (dt_keys tx1), dt_counter tx1)"
      "if dt_counter tx = 16384
       then (\<exists>k'. ratchet_advance P (dk_tx (dt_keys tx)) = Some (k', dk_tx (dt_keys tx1))) \<and> dt_counter tx1 = 0
       else tx1 = tx"
    by blast
  obtain k where k: "tx_current P (dt_keys tx1) = Some k" "ek_epoch_id k = tx_epoch_id (dt_keys tx1)"
    using key_chain.current_ok [of P "dk_tx (dt_keys tx1)"] tx1(2)
    unfolding dgram_keys_wf_def tx_current_def tx_epoch_id_def by blast
  have "length (datagram_plaintext sid ft payload) < 64 * (2 ^ 32 - 1)"
    using len by (simp add: length_datagram_plaintext)
  then obtain ct where ct: "aead_seal P (ek_key k) (build_nonce (ek_salt k) (dt_counter tx1)) aad
      (datagram_plaintext sid ft payload) = Some ct"
    using laws unfolding dgram_laws_def by (metis aead_totalD)
  show thesis
    by (rule that [OF tx1(1) k(1) tx1(2,3) k(2) ct _ _ tx1(5)])
       (use tx1 k ct in \<open>simp_all add: datagram_seal_def Let_def\<close>)
qed

lemma open_current:
  assumes "aead_correct P" "es_epoch_id (dr_current rx) = e" "es_keys (dr_current rx) = k"
    and "window_abs (es_window (dr_current rx)) S" "epoch_counters S" "c \<le> 16384" "16 \<le> n" "n < 63"
    and "aead_seal P (ek_key k) (build_nonce (ek_salt k) c) aad buf = Some ct"
  shows "\<exists>w. datagram_open P rx e (truncate_counter c n) n ct aad =
      Some (if replay_spec S c then parse_datagram buf
            else Err (auth_fail ''Datagram AEAD open failed (current epoch)''),
            rx\<lparr>dr_current := (dr_current rx)\<lparr>es_window := w\<rparr>\<rparr>) \<and>
    window_abs w (if replay_spec S c then insert c S else S)"
  using slot_opens_sealed [of P "dr_current rx" S c n aad buf ct] assms
  by (auto simp: datagram_open_def choose_epoch_def)

lemma open_next:
  assumes laws: "aead_correct P" and wf: "dgram_keys_wf P (dr_keys rx)"
    and adv: "ratchet_advance P (dk_rx (dr_keys rx)) = Some (k, r')"
    and id: "es_epoch_id (dr_current rx) = rx_epoch_id (dr_keys rx)"
    and prev: "case dr_previous rx of None \<Rightarrow> True | Some p \<Rightarrow> es_epoch_id p + 1 = es_epoch_id (dr_current rx)"
    and c: "c \<le> 16384" "16 \<le> n" "n < 63"
    and seal: "aead_seal P (ek_key k) (build_nonce (ek_salt k) c) aad buf = Some ct"
  shows "\<exists>w. datagram_open P rx (ek_epoch_id k) (truncate_counter c n) n ct aad =
      Some (parse_datagram buf,
            rx\<lparr>dr_keys := (dr_keys rx)\<lparr>dk_rx := r'\<rparr>,
               dr_current := (epoch_slot_fresh k)\<lparr>es_window := w\<rparr>,
               dr_previous := Some (dr_current rx)\<rparr>) \<and>
    window_abs w {c} \<and> ek_epoch_id k = es_epoch_id (dr_current rx) + 1 \<and> ratchet_wf P r' \<and>
    ratchet_current P r' = Some k \<and> kr_epoch_id r' = ek_epoch_id k"
proof -
  have wr: "ratchet_wf P (dk_rx (dr_keys rx))"
    using wf by (simp add: dgram_keys_wf_def)
  from key_chain.peek_then_advance [OF wr] adv have peek: "ratchet_peek_next P (dk_rx (dr_keys rx)) = Some k"
      "ratchet_wf P r'" "ratchet_current P r' = Some k" "ek_epoch_id k = kr_epoch_id (dk_rx (dr_keys rx)) + 1"
    by auto
  have kid: "kr_epoch_id r' = ek_epoch_id k"
    using key_chain.current_ok [OF peek(2)] peek(3) by auto
  have next_id: "ek_epoch_id k = es_epoch_id (dr_current rx) + 1"
    using peek(4) id by (simp add: rx_epoch_id_def)
  have choose: "choose_epoch rx (ek_epoch_id k) = UseNext"
    using prev next_id epoch_successors by (auto simp: choose_epoch_def split: option.splits)
  have win: "window_abs (es_window (epoch_slot_fresh k)) {}"
    by (simp add: epoch_slot_fresh_def window_abs_new)
  obtain w where w: "slot_try_open P (epoch_slot_fresh k) (truncate_counter c n) n ct aad =
      Some (Some buf, (epoch_slot_fresh k)\<lparr>es_window := w\<rparr>)" "window_abs w {c}"
    using slot_opens_sealed [OF laws win epoch_counters_simps(1) c, of aad buf ct] seal
    by (auto simp: replay_spec_def epoch_slot_fresh_def)
  show ?thesis
    using choose w adv peek kid next_id
    by (intro exI [of _ w]) (simp add: datagram_open_def rx_peek_next_def rx_advance_def)
qed

text \<open>What authenticates under no key changes nothing.\<close>

lemma forged_open:
  assumes "\<forall>k nonce. aead_open P k nonce aad ct = None" "dgram_keys_wf P (dr_keys rx)"
  shows "\<exists>err. datagram_open P rx e wc n ct aad = Some (Err err, rx) \<and> err_action err = Drop"
proof -
  have t: "slot_try_open P s wc n ct aad = Some (None, s)" for s
    using assms(1) by (simp add: slot_try_open_def)
  obtain k where "rx_peek_next P (dr_keys rx) = Some k"
    using key_chain.peek_then_advance [of P "dk_rx (dr_keys rx)"] assms(2)
    unfolding dgram_keys_wf_def rx_peek_next_def by blast
  then show ?thesis
    using t by (auto simp: datagram_open_def choose_epoch_def auth_fail_def tls_error_new_def
        split: option.splits)
qed

text \<open>The central step: what is sealed next is opened, and the two sides are linked again.\<close>

lemma dgram_delivered:
  assumes laws: "dgram_laws P" and link: "dgram_link P tx rx S lag"
    and room: "lag \<Longrightarrow> dt_counter tx < 16384"
    and len: "length payload < 65536" and n: "16 \<le> n" "n < 63"
  shows "\<exists>sd tx' f rx' S'. datagram_seal P tx sid ft payload aad = (Ok sd, tx') \<and>
    (sd_epoch_id sd, sd_counter sd) = peek_next_epoch_and_counter tx \<and>
    datagram_open P rx (sd_epoch_id sd) (truncate_counter (sd_counter sd) n) n (sd_ciphertext sd) aad =
      Some (Ok f, rx') \<and>
    (fh_stream_id (fr_header f), fh_frame_type (fr_header f), fr_payload f) = (sid, ft, payload) \<and>
    dgram_link P tx' rx' S' False"
proof -
  let ?f = "\<lparr>fr_payload = payload, fr_header = sent_header sid ft (length payload) (replicate 16 0) 0\<rparr>"
  have parse: "parse_datagram (datagram_plaintext sid ft payload) = Ok ?f"
    using len by (rule parse_datagram_plaintext)
  note L = link [unfolded dgram_link_def]
  have "length payload < 2 ^ 32"
    using len by simp
  then obtain tx1 k ct where
    s: "rekey_if_due P tx = Some tx1" "tx_current P (dt_keys tx1) = Some k" "dgram_keys_wf P (dt_keys tx1)"
    "dt_counter tx1 < 16384" "ek_epoch_id k = tx_epoch_id (dt_keys tx1)"
    "aead_seal P (ek_key k) (build_nonce (ek_salt k) (dt_counter tx1)) aad (datagram_plaintext sid ft payload) = Some ct"
    "datagram_seal P tx sid ft payload aad =
       (Ok \<lparr>sd_epoch_id = ek_epoch_id k, sd_counter = dt_counter tx1, sd_ciphertext = ct\<rparr>,
        tx1\<lparr>dt_counter := dt_counter tx1 + 1\<rparr>)"
    "peek_next_epoch_and_counter tx = (ek_epoch_id k, dt_counter tx1)"
    "if dt_counter tx = 16384
     then (\<exists>k'. ratchet_advance P (dk_tx (dt_keys tx)) = Some (k', dk_tx (dt_keys tx1))) \<and> dt_counter tx1 = 0
     else tx1 = tx"
    using seal_ok [OF laws, of tx payload aad sid ft] L by blast
  let ?c = "dt_counter tx1" and ?tx' = "tx1\<lparr>dt_counter := dt_counter tx1 + 1\<rparr>"
  have c: "?c \<le> 16384" "?c + 1 \<le> 16384" "?c < ?c + 1"
    using s(4) by (simp_all add: less_imp_le inc_le word_less_nat_alt unat_plus_if')
  have "aead_correct P"
    using laws by (simp add: dgram_laws_def)
  consider (same) "\<not> lag" "tx1 = tx" | (next_epoch) k' where
    "ratchet_advance P (dk_rx (dr_keys rx)) = Some (k', dk_tx (dt_keys tx1))"
    using L s(9) room by (cases lag; cases "dt_counter tx = 16384") auto
  then have "\<exists>rx' S'. datagram_open P rx (ek_epoch_id k) (truncate_counter ?c n) n ct aad = Some (Ok ?f, rx') \<and>
      dgram_link P ?tx' rx' S' False"
  proof cases
    case same
    then have k: "es_keys (dr_current rx) = k" "es_epoch_id (dr_current rx) = ek_epoch_id k"
      using L s(2,5) by (simp_all add: tx_current_def rx_current_def tx_epoch_id_def rx_epoch_id_def)
    have "\<forall>x \<in> S. x < ?c" "finite S"
      using L same by (simp_all add: window_abs_def)
    then have fresh: "replay_spec S ?c"
      by (metis Max_in replay_spec_def)
    obtain w where w: "datagram_open P rx (ek_epoch_id k) (truncate_counter ?c n) n ct aad =
        Some (Ok ?f, rx\<lparr>dr_current := (dr_current rx)\<lparr>es_window := w\<rparr>\<rparr>)" "window_abs w (insert ?c S)"
      using open_current [OF \<open>aead_correct P\<close> k(2,1) _ _ c(1) n s(6), of S] L fresh parse by auto
    have "dgram_link P ?tx' (rx\<lparr>dr_current := (dr_current rx)\<lparr>es_window := w\<rparr>\<rparr>) (insert ?c S) False"
      using L same w(2) c by (auto simp: dgram_link_def intro: less_trans split: option.splits)
    with w(1) show ?thesis
      by blast
  next
    case next_epoch
    have wr: "ratchet_wf P (dk_rx (dr_keys rx))"
      using L by (simp add: dgram_keys_wf_def)
    from key_chain.advance_ok [OF wr] next_epoch s(2) have "k' = k"
      by (auto simp: tx_current_def)
    with next_epoch have adv: "ratchet_advance P (dk_rx (dr_keys rx)) = Some (k, dk_tx (dt_keys tx1))"
      by simp
    have prev: "case dr_previous rx of None \<Rightarrow> True | Some p \<Rightarrow> es_epoch_id p + 1 = es_epoch_id (dr_current rx)"
      using L by blast
    let ?rx = "\<lambda>w. rx\<lparr>dr_keys := (dr_keys rx)\<lparr>dk_rx := dk_tx (dt_keys tx1)\<rparr>,
               dr_current := (epoch_slot_fresh k)\<lparr>es_window := w\<rparr>,
               dr_previous := Some (dr_current rx)\<rparr>"
    obtain w where w: "datagram_open P rx (ek_epoch_id k) (truncate_counter ?c n) n ct aad = Some (Ok ?f, ?rx w)"
      "window_abs w {?c}" "ek_epoch_id k = es_epoch_id (dr_current rx) + 1" "ratchet_wf P (dk_tx (dt_keys tx1))"
      "ratchet_current P (dk_tx (dt_keys tx1)) = Some k" "kr_epoch_id (dk_tx (dt_keys tx1)) = ek_epoch_id k"
      using open_next [OF \<open>aead_correct P\<close> _ adv _ prev c(1) n s(6)] L parse by auto
    have "dgram_link P ?tx' (?rx w) {?c} False"
      using L s(3) w c by (simp add: dgram_link_def dgram_keys_wf_def rx_current_def epoch_slot_fresh_def
          rx_epoch_id_def)
    with w(1) show ?thesis
      by blast
  qed
  with s(7,8) show ?thesis
    by (auto simp: sent_header_def)
qed

section \<open>Streams of datagrams\<close>

type_synonym dgram_item = "u32 \<times> frame_type \<times> bytes \<times> bytes"

text \<open>Seal each item in turn and open it at once; \<open>None\<close> if anything fails on the way.\<close>

fun transmit ::
  "crypto \<Rightarrow> nat \<Rightarrow> datagram_tx \<Rightarrow> datagram_rx \<Rightarrow> dgram_item list \<Rightarrow> (frame list \<times> datagram_tx \<times> datagram_rx) option"
where
  "transmit P n tx rx [] = Some ([], tx, rx)"
| "transmit P n tx rx ((sid, ft, payload, aad) # items) =
     (case datagram_seal P tx sid ft payload aad of
        (Ok sd, tx') \<Rightarrow>
          (case datagram_open P rx (sd_epoch_id sd) (truncate_counter (sd_counter sd) n) n (sd_ciphertext sd) aad of
             Some (Ok f, rx') \<Rightarrow> map_option (\<lambda>(fs, st). (f # fs, st)) (transmit P n tx' rx' items)
           | _ \<Rightarrow> None)
      | _ \<Rightarrow> None)"

definition dgram_of_frame :: "frame \<Rightarrow> u32 \<times> frame_type \<times> bytes" where
  "dgram_of_frame f = (fh_stream_id (fr_header f), fh_frame_type (fr_header f), fr_payload f)"

lemma transmit_ok:
  assumes laws: "dgram_laws P" and n: "16 \<le> n" "n < 63"
  shows "dgram_link P tx rx S lag \<Longrightarrow> (lag \<Longrightarrow> dt_counter tx < 16384) \<Longrightarrow>
    list_all (\<lambda>(sid, ft, payload, aad). length payload < 65536) items \<Longrightarrow>
    \<exists>fs st. transmit P n tx rx items = Some (fs, st) \<and>
      map dgram_of_frame fs = map (\<lambda>(sid, ft, payload, aad). (sid, ft, payload)) items"
proof (induction items arbitrary: tx rx S lag)
  case (Cons it items)
  obtain sid ft payload aad where it: "it = (sid, ft, payload, aad)"
    by (metis prod_cases4)
  have "length payload < 65536"
    using Cons.prems(3) by (simp add: it)
  from dgram_delivered [OF laws Cons.prems(1,2) this n, of sid ft aad]
  obtain sd tx' f rx' S' where st: "datagram_seal P tx sid ft payload aad = (Ok sd, tx')"
    "datagram_open P rx (sd_epoch_id sd) (truncate_counter (sd_counter sd) n) n (sd_ciphertext sd) aad =
      Some (Ok f, rx')"
    "(fh_stream_id (fr_header f), fh_frame_type (fr_header f), fr_payload f) = (sid, ft, payload)"
    "dgram_link P tx' rx' S' False"
    by blast
  from Cons.IH [OF st(4)] Cons.prems(3) obtain fs s where "transmit P n tx' rx' items = Some (fs, s)"
    "map dgram_of_frame fs = map (\<lambda>(sid, ft, payload, aad). (sid, ft, payload)) items"
    by (auto simp: it)
  moreover have "dgram_of_frame f = (sid, ft, payload)"
    using st(3) by (simp add: dgram_of_frame_def)
  ultimately show ?case
    using st(1,2) by (simp add: it)
qed simp

section \<open>Properties\<close>

text \<open>Property C12 (datagram_roundtrip): a sender and a receiver made from the same chain stay
  together through any number of datagrams, and so through every rekeying: each datagram is
  sealed, its epoch and truncated counter lead the receiver to the right keys, and the frame
  comes out unchanged.\<close>

theorem datagram_roundtrip:
  assumes "dgram_laws P" and "16 \<le> n" and "n < 63"
    and "dgram_keys_wf P kt" and "dgram_keys_wf P kr" and "dk_tx kt = dk_rx kr"
    and "list_all (\<lambda>(sid, ft, payload, aad). length payload < 65536) items"
  shows "\<exists>rx fs st. datagram_rx_new P kr = Some rx \<and>
    transmit P n (datagram_tx_new kt) rx items = Some (fs, st) \<and>
    map dgram_of_frame fs = map (\<lambda>(sid, ft, payload, aad). (sid, ft, payload)) items"
proof -
  obtain rx where rx: "datagram_rx_new P kr = Some rx" "dgram_link P (datagram_tx_new kt) rx {} False"
    using assms(4-6) by (rule dgram_link_new)
  with transmit_ok [OF assms(1-3) rx(2) _ assms(7)] show ?thesis
    by blast
qed

definition demo_peer_keys :: dgram_keys where
  "demo_peer_keys = demo_keys\<lparr>dk_tx := dk_rx demo_keys, dk_rx := dk_tx demo_keys\<rparr>"

lemma demo_peer_keys_wf: "dgram_keys_wf toy_crypto demo_peer_keys" "dk_tx demo_keys = dk_rx demo_peer_keys"
  using demo_keys_wf by (simp_all add: demo_peer_keys_def dgram_keys_wf_def)

lemma datagram_roundtrip_witness:
  "\<exists>rx fs st. datagram_rx_new toy_crypto demo_peer_keys = Some rx \<and>
    transmit toy_crypto 16 (datagram_tx_new demo_keys) rx (replicate 40000 (1, UdpData, [7, 8], [])) = Some (fs, st) \<and>
    map dgram_of_frame fs =
      map (\<lambda>(sid, ft, payload, aad). (sid, ft, payload)) (replicate 40000 (1 :: u32, UdpData, [7, 8 :: u8], [] :: bytes))"
  by (rule datagram_roundtrip [OF toy_dgram_laws _ _ demo_keys_wf demo_peer_keys_wf]) (simp_all add: list_all_iff)

text \<open>The epoch and counter announced before sealing are the ones the
  next seal uses, and sealing returns.\<close>

theorem datagram_peek:
  assumes "dgram_laws P" and "dgram_keys_wf P (dt_keys tx)" and "dt_counter tx \<le> 16384"
    and "length payload < 2 ^ 32"
  shows "\<exists>sd tx'. datagram_seal P tx sid ft payload aad = (Ok sd, tx') \<and>
    peek_next_epoch_and_counter tx = (sd_epoch_id sd, sd_counter sd) \<and>
    dt_counter tx' = sd_counter sd + 1 \<and> dt_counter tx' \<le> 16384 \<and> dgram_keys_wf P (dt_keys tx')"
  by (rule seal_ok [OF assms, where aad = aad and sid = sid and ft = ft]) (simp add: inc_le)

lemma datagram_peek_witness:
  "\<exists>sd tx'. datagram_seal toy_crypto (datagram_tx_new demo_keys) 1 UdpData [7] [] = (Ok sd, tx') \<and>
    peek_next_epoch_and_counter (datagram_tx_new demo_keys) = (sd_epoch_id sd, sd_counter sd) \<and>
    dt_counter tx' = sd_counter sd + 1 \<and> dt_counter tx' \<le> 16384 \<and> dgram_keys_wf toy_crypto (dt_keys tx')"
  by (rule datagram_peek [OF toy_dgram_laws]) (simp_all add: datagram_tx_new_def demo_keys_wf)

text \<open>For a datagram of the current epoch, in whatever order it
  arrives and however often, the receiver's answer is the one of the counter set: the frame
  exactly when its counter is fresh.\<close>

theorem datagram_reorder:
  assumes "aead_correct P" and "es_keys (dr_current rx) = k" and "es_epoch_id (dr_current rx) = e"
    and "window_abs (es_window (dr_current rx)) S" and "epoch_counters S" and "c \<le> 16384"
    and "16 \<le> n" and "n < 63" and "length payload < 65536"
    and "aead_seal P (ek_key k) (build_nonce (ek_salt k) c) aad (datagram_plaintext sid ft payload) = Some ct"
  shows "\<exists>r rx'. datagram_open P rx e (truncate_counter c n) n ct aad = Some (r, rx') \<and>
    (if replay_spec S c
     then \<exists>f. r = Ok f \<and> dgram_of_frame f = (sid, ft, payload)
     else \<exists>err. r = Err err \<and> err_action err = Drop) \<and>
    window_abs (es_window (dr_current rx')) (if replay_spec S c then insert c S else S)"
  using open_current [OF assms(1,3,2,4-8,10)] assms(9)
  by (auto simp: parse_datagram_plaintext dgram_of_frame_def sent_header_def auth_fail_def tls_error_new_def)

lemma datagram_reorder_witness:
  "\<exists>r rx'. datagram_open toy_crypto
      \<lparr>dr_keys = demo_keys, dr_current = epoch_slot_fresh \<lparr>ek_epoch_id = 0, ek_key = [1], ek_salt = [2]\<rparr>,
       dr_previous = None\<rparr> 0 (truncate_counter 7 16) 16
      (datagram_plaintext 1 UdpData [5] @ toy_tag [1] (build_nonce [2] 7) []) [] = Some (r, rx') \<and>
    (if replay_spec {} 7
     then \<exists>f. r = Ok f \<and> dgram_of_frame f = (1, UdpData, [5])
     else \<exists>err. r = Err err \<and> err_action err = Drop) \<and>
    window_abs (es_window (dr_current rx')) (if replay_spec {} 7 then insert 7 {} else {})"
  by (rule datagram_reorder [OF toy_crypto_laws(1), where k = "\<lparr>ek_epoch_id = 0, ek_key = [1], ek_salt = [2]\<rparr>"])
     (simp_all add: epoch_slot_fresh_def window_abs_new toy_crypto_def)

text \<open>A datagram that authenticates under no key is refused with the
  action \<open>Drop\<close> and changes nothing: neither the windows nor the epochs nor the ratchet.\<close>

theorem forged_datagram:
  assumes "\<And>k nonce. aead_open P k nonce aad ct = None" and "dgram_keys_wf P (dr_keys rx)"
  shows "\<exists>err. datagram_open P rx e wc n ct aad = Some (Err err, rx) \<and> err_action err = Drop"
  using assms by (intro forged_open) simp_all

lemma forged_datagram_witness:
  "\<exists>err. datagram_open toy_crypto
      \<lparr>dr_keys = demo_keys, dr_current = epoch_slot_fresh \<lparr>ek_epoch_id = 0, ek_key = [1], ek_salt = [2]\<rparr>,
       dr_previous = None\<rparr> 1 5 16 [1, 2, 3] [] =
    Some (Err err, \<lparr>dr_keys = demo_keys,
       dr_current = epoch_slot_fresh \<lparr>ek_epoch_id = 0, ek_key = [1], ek_salt = [2]\<rparr>, dr_previous = None\<rparr>) \<and>
    err_action err = Drop"
  by (rule forged_datagram) (simp_all add: toy_crypto_def demo_keys_wf [unfolded toy_crypto_def])

section \<open>No datagram is accepted twice\<close>

text \<open>
  The runs of a receiver under arbitrary input.  The generation counts the epochs it has
  moved through (the wire only carries it modulo 256); \<open>accepted\<close> is the generation and full
  counter under which a datagram was let through, if it was.
\<close>

definition slot_accepts :: "crypto \<Rightarrow> epoch_slot \<Rightarrow> u64 \<Rightarrow> nat \<Rightarrow> bytes \<Rightarrow> bytes \<Rightarrow> bool" where
  "slot_accepts P s wc n ct aad \<longleftrightarrow>
     (case slot_try_open P s wc n ct aad of Some (Some _, _) \<Rightarrow> True | _ \<Rightarrow> False)"

definition slot_counter :: "epoch_slot \<Rightarrow> u64 \<Rightarrow> nat \<Rightarrow> u64" where
  "slot_counter s wc n = expand_counter (rw_highest (es_window s)) wc n"

definition accepted ::
  "crypto \<Rightarrow> datagram_rx \<Rightarrow> nat \<Rightarrow> u8 \<Rightarrow> u64 \<Rightarrow> nat \<Rightarrow> bytes \<Rightarrow> bytes \<Rightarrow> (nat \<times> u64) list \<times> nat"
where
  "accepted P rx g e wc n ct aad =
     (case choose_epoch rx e of
        UseCurrent \<Rightarrow>
          (if slot_accepts P (dr_current rx) wc n ct aad then [(g, slot_counter (dr_current rx) wc n)] else [], g)
      | UsePrevious p \<Rightarrow>
          (if slot_accepts P p wc n ct aad then [(g - 1, slot_counter p wc n)] else [], g)
      | UseNext \<Rightarrow>
          (case rx_peek_next P (dr_keys rx) of
             None \<Rightarrow> ([], g)
           | Some k \<Rightarrow>
               if slot_accepts P (epoch_slot_fresh k) wc n ct aad \<and> rx_advance P (dr_keys rx) \<noteq> None
               then ([(g + 1, slot_counter (epoch_slot_fresh k) wc n)], g + 1) else ([], g))
      | NoEpoch \<Rightarrow> ([], g))"

inductive dgram_run :: "crypto \<Rightarrow> datagram_rx \<Rightarrow> datagram_rx \<Rightarrow> nat \<Rightarrow> (nat \<times> u64) list \<Rightarrow> bool" for P rx0 where
  start: "dgram_run P rx0 rx0 0 []"
| receive: "dgram_run P rx0 rx g log \<Longrightarrow> datagram_open P rx e wc n ct aad = Some (res, rx') \<Longrightarrow>
    accepted P rx g e wc n ct aad = (new, g') \<Longrightarrow> dgram_run P rx0 rx' g' (new @ log)"

lemma slot_try_open_window:
  assumes "window_abs (es_window s) S" "slot_try_open P s wc n ct aad = Some (res, s')"
  shows "(slot_accepts P s wc n ct aad \<longleftrightarrow> res \<noteq> None) \<and>
    (res \<noteq> None \<longrightarrow> slot_counter s wc n \<notin> S \<and> window_abs (es_window s') (insert (slot_counter s wc n) S)) \<and>
    (res = None \<longrightarrow> window_abs (es_window s') S)"
proof (cases "aead_open P (ek_key (es_keys s)) (build_nonce (ek_salt (es_keys s)) (slot_counter s wc n)) aad ct")
  case None
  with assms show ?thesis
    by (auto simp: slot_try_open_def slot_accepts_def slot_counter_def Let_def)
next
  case (Some buf)
  let ?c = "slot_counter s wc n"
  have "window_accept (es_window s) ?c \<noteq> None"
    using assms(2) Some by (auto simp: slot_try_open_def slot_counter_def Let_def)
  then obtain w where w: "window_accept (es_window s) ?c = Some (replay_spec S ?c, w)"
    "window_abs w (if replay_spec S ?c then insert ?c S else S)"
    using window_accept_refines [OF assms(1)] by blast
  have "finite S"
    using assms(1) by (simp add: window_abs_def)
  then have "replay_spec S ?c \<Longrightarrow> ?c \<notin> S"
    using window.spec_fresh by blast
  moreover have "slot_try_open P s wc n ct aad =
      Some (if replay_spec S ?c then Some buf else None, s\<lparr>es_window := w\<rparr>)"
    using Some w(1) by (simp add: slot_try_open_def slot_counter_def Let_def)
  ultimately show ?thesis
    using assms(2) w(2) by (auto simp: slot_accepts_def split: if_splits)
qed

text \<open>The invariant: each live window stands for the accepted counters of its generation.\<close>

definition seen_at :: "nat \<Rightarrow> (nat \<times> u64) list \<Rightarrow> u64 set" where
  "seen_at g log = {c. (g, c) \<in> set log}"

lemma seen_at_mem [simp]: "c \<in> seen_at g log \<longleftrightarrow> (g, c) \<in> set log"
  by (simp add: seen_at_def)

lemma seen_at_Cons [simp]: "seen_at g ((g', c) # log) = (if g = g' then insert c (seen_at g log) else seen_at g log)"
  by (auto simp: seen_at_def)

definition run_inv :: "datagram_rx \<Rightarrow> nat \<Rightarrow> (nat \<times> u64) list \<Rightarrow> bool" where
  "run_inv rx g log \<longleftrightarrow>
     distinct log \<and> (\<forall>e \<in> set log. fst e \<le> g) \<and>
     window_abs (es_window (dr_current rx)) (seen_at g log) \<and>
     (\<forall>p. dr_previous rx = Some p \<longrightarrow> 0 < g \<and> window_abs (es_window p) (seen_at (g - 1) log))"

lemma run_inv_receive:
  assumes inv: "run_inv rx g log" and op: "datagram_open P rx e wc n ct aad = Some (res, rx')"
    and acc: "accepted P rx g e wc n ct aad = (new, g')"
  shows "run_inv rx' g' (new @ log)"
proof (cases "choose_epoch rx e")
  case UseCurrent
  with op obtain r s' where s': "slot_try_open P (dr_current rx) wc n ct aad = Some (r, s')"
    "rx' = rx\<lparr>dr_current := s'\<rparr>"
    by (auto simp: datagram_open_def)
  have "window_abs (es_window (dr_current rx)) (seen_at g log)"
    using inv by (simp add: run_inv_def)
  from slot_try_open_window [OF this s'(1)] UseCurrent acc inv s'(2) show ?thesis
    by (cases r) (auto simp: accepted_def run_inv_def)
next
  case (UsePrevious p)
  with op obtain r s' where s': "slot_try_open P p wc n ct aad = Some (r, s')"
    "rx' = rx\<lparr>dr_previous := Some s'\<rparr>"
    by (auto simp: datagram_open_def)
  have p: "dr_previous rx = Some p"
    using UsePrevious by (auto simp: choose_epoch_def split: if_splits option.splits)
  then have "window_abs (es_window p) (seen_at (g - 1) log)" "0 < g"
    using inv by (simp_all add: run_inv_def)
  from slot_try_open_window [OF this(1) s'(1)] this(2) UsePrevious acc inv s'(2) show ?thesis
    by (cases r) (auto simp: accepted_def run_inv_def)
next
  case UseNext
  show ?thesis
  proof (cases "rx_peek_next P (dr_keys rx)")
    case None
    with UseNext op acc inv show ?thesis
      by (simp add: datagram_open_def accepted_def)
  next
    case (Some k)
    let ?s = "epoch_slot_fresh k"
    from op UseNext Some obtain r s' where s': "slot_try_open P ?s wc n ct aad = Some (r, s')"
      by (auto simp: datagram_open_def)
    have "seen_at (Suc g) log = {}"
      using inv by (force simp: run_inv_def seen_at_def)
    then have fresh: "window_abs (es_window ?s) (seen_at (Suc g) log)"
      by (simp add: epoch_slot_fresh_def window_abs_new)
    show ?thesis
    proof (cases "r = None \<or> rx_advance P (dr_keys rx) = None")
      case True
      with slot_try_open_window [OF fresh s'] UseNext Some op acc inv s' show ?thesis
        by (auto simp: datagram_open_def accepted_def split: option.splits)
    next
      case False
      then obtain plain kk keys' where "r = Some plain" "rx_advance P (dr_keys rx) = Some (kk, keys')"
        by auto
      with slot_try_open_window [OF fresh s'] UseNext Some op acc inv s' \<open>seen_at (Suc g) log = {}\<close>
      show ?thesis
        by (auto simp: datagram_open_def accepted_def run_inv_def le_Suc_eq)
    qed
  qed
next
  case NoEpoch
  with op acc inv show ?thesis
    by (simp add: datagram_open_def accepted_def)
qed

lemma run_inv_all:
  assumes "dgram_run P rx0 rx g log" "datagram_rx_new P keys = Some rx0"
  shows "run_inv rx g log"
  using assms
proof (induction rule: dgram_run.induct)
  case start
  then show ?case
    by (auto simp: datagram_rx_new_def run_inv_def epoch_slot_fresh_def seen_at_def window_abs_new)
next
  case (receive rx g log e wc n ct aad res rx' new g')
  then show ?case
    using run_inv_receive by blast
qed

text \<open>Property C11 (accepted_once): over every run of a receiver, under any input and across any
  number of key changes, no pair of key generation and counter is let through twice.\<close>

theorem accepted_once:
  assumes "datagram_rx_new P keys = Some rx0" and "dgram_run P rx0 rx g log"
  shows "distinct log"
  using run_inv_all [OF assms(2,1)] by (simp add: run_inv_def)

lemma accepted_once_witness:
  "\<exists>rx0 rx log. datagram_rx_new toy_crypto demo_keys = Some rx0 \<and> dgram_run toy_crypto rx0 rx 0 log \<and>
    log \<noteq> [] \<and> distinct log"
proof -
  obtain k where k: "ratchet_current toy_crypto (dk_rx demo_keys) = Some k"
    using key_chain.current_ok demo_keys_wf unfolding dgram_keys_wf_def by blast
  let ?rx0 = "\<lparr>dr_keys = demo_keys, dr_current = epoch_slot_fresh k, dr_previous = None\<rparr>"
  let ?ct = "datagram_plaintext 1 UdpData [5] @ toy_tag (ek_key k) (build_nonce (ek_salt k) 7) []"
  have rx0: "datagram_rx_new toy_crypto demo_keys = Some ?rx0"
    using k by (simp add: datagram_rx_new_def rx_current_def)
  have win: "window_abs (es_window (epoch_slot_fresh k)) {}"
    by (simp add: epoch_slot_fresh_def window_abs_new)
  have "\<exists>w. slot_try_open toy_crypto (epoch_slot_fresh k) (truncate_counter 7 16) 16 ?ct [] =
      Some (if replay_spec {} 7 then Some (datagram_plaintext 1 UdpData [5]) else None,
            (epoch_slot_fresh k)\<lparr>es_window := w\<rparr>) \<and>
    window_abs w (if replay_spec {} 7 then insert 7 {} else {})"
    by (rule slot_opens_sealed [OF toy_crypto_laws(1) win])
       (simp_all add: toy_crypto_def epoch_slot_fresh_def)
  then obtain s' where s': "slot_try_open toy_crypto (epoch_slot_fresh k) (truncate_counter 7 16) 16 ?ct [] =
      Some (Some (datagram_plaintext 1 UdpData [5]), s')"
    by (auto simp: replay_spec_def)
  have choose: "choose_epoch ?rx0 (ek_epoch_id k) = UseCurrent"
    by (simp add: choose_epoch_def epoch_slot_fresh_def)
  have "datagram_open toy_crypto ?rx0 (ek_epoch_id k) (truncate_counter 7 16) 16 ?ct [] =
      Some (parse_datagram (datagram_plaintext 1 UdpData [5]), ?rx0\<lparr>dr_current := s'\<rparr>)"
    using s' choose by (simp add: datagram_open_def)
  moreover have "accepted toy_crypto ?rx0 0 (ek_epoch_id k) (truncate_counter 7 16) 16 ?ct [] =
      ([(0, slot_counter (epoch_slot_fresh k) (truncate_counter 7 16) 16)], 0)"
    using s' choose by (simp add: accepted_def slot_accepts_def)
  ultimately have run: "dgram_run toy_crypto ?rx0 (?rx0\<lparr>dr_current := s'\<rparr>) 0
      ([(0, slot_counter (epoch_slot_fresh k) (truncate_counter 7 16) 16)] @ [])"
    by (rule dgram_run.receive [OF dgram_run.start])
  from accepted_once [OF rx0 run] rx0 run show ?thesis
    by (metis append_Cons list.distinct(1))
qed

end
