(* ===== verification/Datagram_Net.thy ===== *)
theory Datagram_Net
  imports Datagram "HOL-Library.Multiset"
begin

text \<open>
  A sender and a receiver of datagrams with a hostile network between them.  The state machine
  keeps the two engines of \<open>engine/src/nrxp/datagram.rs\<close>, the log of what was sealed and what the
  receiver delivered; the generation counts key epochs beyond the eight bits on the wire.  The
  network decides what arrives: it loses, repeats, delays and reorders without bound, changes
  epoch ids, counters and associated data, and makes up bytes; the only thing it cannot do is
  make a ciphertext open that the sender did not seal so (\<open>genuine\<close>).  The invariant ties the
  slots of the receiver to the epochs of the sender.  From it follow that no frame is delivered
  unsent or more often than it was sent, and what becomes of the next datagram: it is opened
  unless the receiver has missed a whole epoch, and then it is refused.
\<close>

section \<open>The epochs of a chain\<close>

primrec epoch_at :: "crypto \<Rightarrow> key_ratchet \<Rightarrow> nat \<Rightarrow> key_ratchet" where
  "epoch_at P r 0 = r"
| "epoch_at P r (Suc g) = snd (the (ratchet_advance P (epoch_at P r g)))"

definition keys_at :: "crypto \<Rightarrow> key_ratchet \<Rightarrow> nat \<Rightarrow> epoch_keys" where
  "keys_at P r g = the (ratchet_current P (epoch_at P r g))"

definition id_at :: "key_ratchet \<Rightarrow> nat \<Rightarrow> u8" where
  "id_at r g = kr_epoch_id r + of_nat g"

lemma id_at_Suc [simp]: "id_at r (Suc g) = id_at r g + 1"
  by (simp add: id_at_def add.assoc add.commute)

lemma epoch_at_ok:
  assumes "ratchet_wf P r"
  shows "ratchet_wf P (epoch_at P r g)" "kr_epoch_id (epoch_at P r g) = id_at r g"
    "ratchet_current P (epoch_at P r g) = Some (keys_at P r g)" "ek_epoch_id (keys_at P r g) = id_at r g"
    "ratchet_advance P (epoch_at P r g) = Some (keys_at P r (Suc g), epoch_at P r (Suc g))"
proof -
  have *: "ratchet_wf P (epoch_at P r g) \<and> kr_epoch_id (epoch_at P r g) = id_at r g"
  proof (induction g)
    case 0
    then show ?case
      using assms by (simp add: id_at_def)
  next
    case (Suc g)
    with key_chain.advance_ok [of P "epoch_at P r g"] show ?case
      by auto
  qed
  then show "ratchet_wf P (epoch_at P r g)" "kr_epoch_id (epoch_at P r g) = id_at r g"
    by simp_all
  with key_chain.current_ok [of P "epoch_at P r g"]
  show "ratchet_current P (epoch_at P r g) = Some (keys_at P r g)" "ek_epoch_id (keys_at P r g) = id_at r g"
    by (auto simp: keys_at_def)
  from key_chain.advance_ok [of P "epoch_at P r g"] *
  show "ratchet_advance P (epoch_at P r g) = Some (keys_at P r (Suc g), epoch_at P r (Suc g))"
    by (auto simp: keys_at_def)
qed

section \<open>The network\<close>

type_synonym net_item = "u32 \<times> frame_type \<times> bytes"

record sent_entry =
  se_gen :: nat
  se_datagram :: sealed_datagram
  se_aad :: bytes
  se_item :: net_item

record net =
  nt_tx :: datagram_tx
  nt_tx_gen :: nat
  nt_log :: "sent_entry list"
  nt_rx :: datagram_rx
  nt_rx_gen :: nat
  nt_got :: "frame list"

fun frames_of :: "(tls_error, frame) result \<Rightarrow> frame list" where
  "frames_of (Ok f) = [f]"
| "frames_of (Err e) = []"
| "frames_of Panic = []"

text \<open>
  The slot the receiver tries a datagram against, with the generation of its keys; none for an
  epoch id out of its range.
\<close>

definition tried :: "crypto \<Rightarrow> datagram_rx \<Rightarrow> nat \<Rightarrow> u8 \<Rightarrow> (nat \<times> epoch_slot) option" where
  "tried P rx g e =
     (case choose_epoch rx e of
        UseCurrent \<Rightarrow> Some (g, dr_current rx)
      | UsePrevious p \<Rightarrow> Some (g - 1, p)
      | UseNext \<Rightarrow> map_option (\<lambda>k. (Suc g, epoch_slot_fresh k)) (rx_peek_next P (dr_keys rx))
      | NoEpoch \<Rightarrow> None)"

text \<open>
  What is assumed of the cipher, for one read: if what arrives opens under the key of the
  generation tried, then the sender sealed exactly this ciphertext, with this nonce and
  associated data, in that generation.  Nothing is assumed about when it was sealed, how
  often it arrived before, or which epoch id, counter and width came with it.
\<close>

definition genuine :: "crypto \<Rightarrow> net \<Rightarrow> u8 \<Rightarrow> u64 \<Rightarrow> nat \<Rightarrow> bytes \<Rightarrow> bytes \<Rightarrow> bool" where
  "genuine P s e wc bits ct aad \<longleftrightarrow>
     (\<forall>h slot. tried P (nt_rx s) (nt_rx_gen s) e = Some (h, slot) \<longrightarrow>
        (let salt = ek_salt (es_keys slot); nonce = build_nonce salt (slot_counter slot wc bits)
         in aead_open P (ek_key (es_keys slot)) nonce aad ct \<noteq> None \<longrightarrow>
            (\<exists>m \<in> set (nt_log s). se_gen m = h \<and> build_nonce salt (sd_counter (se_datagram m)) = nonce \<and>
               se_aad m = aad \<and> sd_ciphertext (se_datagram m) = ct)))"

text \<open>The receiver's generation follows its current epoch.\<close>

definition rx_gen_after :: "datagram_rx \<Rightarrow> datagram_rx \<Rightarrow> nat \<Rightarrow> nat" where
  "rx_gen_after rx rx' g = (if current_epoch_id rx' = current_epoch_id rx then g else Suc g)"

definition next_gen :: "net \<Rightarrow> nat" where
  "next_gen s = (if rekey_after_datagrams \<le> dt_counter (nt_tx s) then Suc (nt_tx_gen s) else nt_tx_gen s)"

text \<open>
  The sender seals whatever it likes, as far ahead of the receiver as it likes.  The network
  hands the receiver any bytes at any time: datagrams of the log never, once or often, in any
  order, at any distance from the epoch they were sealed in, with their own or with other
  epoch ids, counters, widths and associated data, and bytes of its own.
\<close>

inductive net_step :: "crypto \<Rightarrow> net \<Rightarrow> net \<Rightarrow> bool" for P where
  net_send: "\<lbrakk>datagram_seal P (nt_tx s) sid ft payload aad = (Ok sd, tx'); length payload < 65536\<rbrakk> \<Longrightarrow>
    net_step P s (s\<lparr>nt_tx := tx', nt_tx_gen := next_gen s, nt_log := nt_log s @
      [\<lparr>se_gen = next_gen s, se_datagram = sd, se_aad = aad, se_item = (sid, ft, payload)\<rparr>]\<rparr>)"
| net_receive: "\<lbrakk>genuine P s e wc bits ct aad;
     datagram_open P (nt_rx s) e wc bits ct aad = Some (res, rx')\<rbrakk> \<Longrightarrow>
    net_step P s (s\<lparr>nt_rx := rx', nt_rx_gen := rx_gen_after (nt_rx s) rx' (nt_rx_gen s),
      nt_got := nt_got s @ frames_of res\<rparr>)"

definition net_start :: "dgram_keys \<Rightarrow> datagram_rx \<Rightarrow> net" where
  "net_start kt rx = \<lparr>nt_tx = datagram_tx_new kt, nt_tx_gen = 0, nt_log = [], nt_rx = rx, nt_rx_gen = 0, nt_got = []\<rparr>"

section \<open>The invariant\<close>

definition slot_at :: "crypto \<Rightarrow> key_ratchet \<Rightarrow> epoch_slot \<Rightarrow> nat \<Rightarrow> bool" where
  "slot_at P r s g \<longleftrightarrow> es_keys s = keys_at P r g \<and> es_epoch_id s = id_at r g"

definition entry_key :: "sent_entry \<Rightarrow> nat \<times> u64" where
  "entry_key m = (se_gen m, sd_counter (se_datagram m))"

definition entry_ok :: "crypto \<Rightarrow> key_ratchet \<Rightarrow> sent_entry \<Rightarrow> bool" where
  "entry_ok P r m \<longleftrightarrow>
     (case se_item m of (sid, ft, payload) \<Rightarrow> length payload < 65536 \<and>
        aead_seal P (ek_key (keys_at P r (se_gen m)))
          (build_nonce (ek_salt (keys_at P r (se_gen m))) (sd_counter (se_datagram m))) (se_aad m)
          (datagram_plaintext sid ft payload) = Some (sd_ciphertext (se_datagram m))) \<and>
     sd_epoch_id (se_datagram m) = id_at r (se_gen m) \<and> sd_counter (se_datagram m) < 16384"

definition tx_inv :: "crypto \<Rightarrow> key_ratchet \<Rightarrow> net \<Rightarrow> bool" where
  "tx_inv P r s \<longleftrightarrow>
     dgram_keys_wf P (dt_keys (nt_tx s)) \<and> dk_tx (dt_keys (nt_tx s)) = epoch_at P r (nt_tx_gen s) \<and>
     dt_counter (nt_tx s) \<le> 16384 \<and> nt_rx_gen s \<le> nt_tx_gen s \<and>
     distinct (map entry_key (nt_log s)) \<and>
     (\<forall>m \<in> set (nt_log s). entry_ok P r m \<and> se_gen m \<le> nt_tx_gen s \<and>
        (se_gen m = nt_tx_gen s \<longrightarrow> sd_counter (se_datagram m) < dt_counter (nt_tx s)))"

text \<open>\<open>acc\<close> are the datagrams that were let through.\<close>

definition rx_inv :: "crypto \<Rightarrow> key_ratchet \<Rightarrow> datagram_rx \<Rightarrow> nat \<Rightarrow> sent_entry list \<Rightarrow> bool" where
  "rx_inv P r rx g acc \<longleftrightarrow>
     dgram_keys_wf P (dr_keys rx) \<and> dk_rx (dr_keys rx) = epoch_at P r g \<and> slot_at P r (dr_current rx) g \<and>
     window_abs (es_window (dr_current rx)) (seen_at g (map entry_key acc)) \<and>
     (case dr_previous rx of
        None \<Rightarrow> g = 0
      | Some p \<Rightarrow> 0 < g \<and> slot_at P r p (g - 1) \<and> window_abs (es_window p) (seen_at (g - 1) (map entry_key acc))) \<and>
     (\<forall>m \<in> set acc. entry_ok P r m \<and> se_gen m \<le> g)"

definition net_inv :: "crypto \<Rightarrow> key_ratchet \<Rightarrow> net \<Rightarrow> bool" where
  "net_inv P r s \<longleftrightarrow> ratchet_wf P r \<and> tx_inv P r s \<and>
     (\<exists>acc. rx_inv P r (nt_rx s) (nt_rx_gen s) acc \<and> distinct (map entry_key acc) \<and> set acc \<subseteq> set (nt_log s) \<and>
        map dgram_of_frame (nt_got s) = map se_item acc)"

section \<open>The slot tried\<close>

lemma seen_at_append [simp]: "seen_at g (a @ b) = seen_at g a \<union> seen_at g b" "seen_at g [] = {}"
  by (auto simp: seen_at_def)

lemma seen_at_above: "\<forall>m \<in> set acc. se_gen m \<le> g \<Longrightarrow> seen_at (Suc g) (map entry_key acc) = {}"
  by (force simp: seen_at_def entry_key_def)

lemma seen_at_counters:
  assumes "\<forall>m \<in> set acc. entry_ok P r m \<and> se_gen m \<le> g'"
  shows "epoch_counters (seen_at g (map entry_key acc))"
  using assms by (auto simp: epoch_counters_def seen_at_def entry_key_def entry_ok_def less_imp_le)

lemma replay_spec_above:
  assumes "\<forall>x \<in> seen_at g log. x < c"
  shows "replay_spec (seen_at g log) c"
proof -
  have "seen_at g log \<subseteq> snd ` set log"
    by (force simp: seen_at_def)
  then have "finite (seen_at g log)"
    by (rule finite_subset) simp
  with assms show ?thesis
    by (metis Max_in replay_spec_def)
qed

lemma entry_parses:
  assumes "entry_ok P r m" "se_item m = (sid, ft, payload)"
  obtains f where "parse_datagram (datagram_plaintext sid ft payload) = Ok f" "dgram_of_frame f = se_item m"
  using assms parse_datagram_plaintext [of payload sid ft]
  by (auto simp: entry_ok_def dgram_of_frame_def sent_header_def)

lemma keys_at_salt: "ratchet_wf P r \<Longrightarrow> length (ek_salt (keys_at P r g)) = 12"
  using derive_epoch_ok [of P "kr_chain (epoch_at P r g)" "kr_epoch_id (epoch_at P r g)"] epoch_at_ok(1,3) [of P r g]
  by (auto simp: ratchet_wf_def ratchet_current_def keys_wf_def)

text \<open>A slot that is offered a sealed datagram at the datagram's own counter.\<close>

lemma slot_opens:
  assumes "aead_correct P" "window_abs (es_window s) S" "slot_counter s wc n = c" "c \<le> 16384"
    and "aead_seal P (ek_key (es_keys s)) (build_nonce (ek_salt (es_keys s)) c) aad buf = Some ct"
  shows "\<exists>w. slot_try_open P s wc n ct aad = Some (if replay_spec S c then Some buf else None, s\<lparr>es_window := w\<rparr>) \<and>
    window_abs w (if replay_spec S c then insert c S else S)"
proof -
  have "c \<noteq> -1"
    using assms(4) by (auto simp: word_le_nat_alt unsigned_minus_1_eq_mask mask_eq_exp_minus_1)
  then obtain w where w: "window_accept (es_window s) c = Some (replay_spec S c, w)"
    "window_abs w (if replay_spec S c then insert c S else S)"
    using window_accept_refines [OF assms(2)] by blast
  have "aead_open P (ek_key (es_keys s)) (build_nonce (ek_salt (es_keys s)) c) aad ct = Some buf"
    using assms(1,5) by (rule aead_correctD(1))
  with w show ?thesis
    using assms(3) by (intro exI [of _ w]) (simp add: slot_try_open_def slot_counter_def)
qed

text \<open>The slot tried belongs to the generation before, of, or after the receiver's.\<close>

lemma tried_cases:
  assumes "ratchet_wf P r" "rx_inv P r rx g acc" "tried P rx g e = Some (h, slot)"
  obtains (current) "choose_epoch rx e = UseCurrent" "h = g" "slot = dr_current rx"
  | (previous) "choose_epoch rx e = UsePrevious slot" "dr_previous rx = Some slot" "g = Suc h"
  | (following) "choose_epoch rx e = UseNext" "h = Suc g" "rx_peek_next P (dr_keys rx) = Some (keys_at P r h)"
      "rx_advance P (dr_keys rx) = Some (keys_at P r h, (dr_keys rx)\<lparr>dk_rx := epoch_at P r h\<rparr>)"
      "slot = epoch_slot_fresh (keys_at P r h)" "seen_at h (map entry_key acc) = {}"
proof (cases "choose_epoch rx e")
  case UseCurrent
  with assms(3) show thesis
    by (intro current) (auto simp: tried_def)
next
  case (UsePrevious p)
  then have "dr_previous rx = Some p"
    by (auto simp: choose_epoch_def split: if_splits option.splits)
  with UsePrevious assms(2,3) show thesis
    by (intro previous) (auto simp: tried_def rx_inv_def)
next
  case UseNext
  have k: "dk_rx (dr_keys rx) = epoch_at P r g" "\<forall>m \<in> set acc. se_gen m \<le> g"
    using assms(2) by (simp_all add: rx_inv_def)
  have adv: "ratchet_advance P (epoch_at P r g) = Some (keys_at P r (Suc g), epoch_at P r (Suc g))"
    by (rule epoch_at_ok(5) [OF assms(1)])
  then have "ratchet_peek_next P (epoch_at P r g) = Some (keys_at P r (Suc g))"
    using key_chain.peek_ok [OF epoch_at_ok(1) [OF assms(1)]] by (simp del: epoch_at.simps)
  with UseNext k(1) assms(3) have "h = Suc g" "slot = epoch_slot_fresh (keys_at P r h)"
    "rx_peek_next P (dr_keys rx) = Some (keys_at P r h)"
    by (auto simp: tried_def rx_peek_next_def)
  moreover have "rx_advance P (dr_keys rx) = Some (keys_at P r h, (dr_keys rx)\<lparr>dk_rx := epoch_at P r h\<rparr>)"
    using adv k(1) \<open>h = Suc g\<close> by (simp add: rx_advance_def del: epoch_at.simps)
  ultimately show thesis
    using UseNext seen_at_above [OF k(2)] by (intro following) simp_all
qed (use assms(3) in \<open>simp add: tried_def\<close>)

lemma tried_slot:
  assumes "ratchet_wf P r" "rx_inv P r rx g acc" "tried P rx g e = Some (h, slot)"
  shows "slot_at P r slot h \<and> window_abs (es_window slot) (seen_at h (map entry_key acc))"
  using assms
proof (cases rule: tried_cases)
  case following
  then show ?thesis
    using epoch_at_ok(4) [OF assms(1)] by (simp add: slot_at_def epoch_slot_fresh_def window_abs_new)
qed (use assms(2) in \<open>auto simp: rx_inv_def\<close>)

lemma id_at_near: "g < h \<Longrightarrow> h < g + 256 \<Longrightarrow> id_at r g \<noteq> id_at r h"
proof
  assume near: "g < h" "h < g + 256" and "id_at r g = id_at r h"
  then have "h mod 256 = g mod 256"
    by (simp add: id_at_def word_of_nat_eq_iff take_bit_eq_mod)
  then have "256 dvd h - g"
    using near by (simp add: mod_eq_dvd_iff_nat)
  with near show False
    using dvd_imp_le [of 256 "h - g"] by simp
qed

lemma tried_at:
  assumes "rx_inv P r rx g acc" "ratchet_wf P r"
  shows "h \<le> Suc g \<Longrightarrow> g \<le> Suc h \<Longrightarrow> \<exists>slot. tried P rx g (id_at r h) = Some (h, slot)"
    and "g + 2 \<le> h \<Longrightarrow> h \<le> g + 254 \<Longrightarrow> choose_epoch rx (id_at r h) = NoEpoch"
proof -
  have cur: "es_epoch_id (dr_current rx) = id_at r g"
    and prev: "dr_previous rx = Some p \<Longrightarrow> 0 < g \<and> es_epoch_id p = id_at r (g - 1)" for p
    using assms(1) by (simp_all add: rx_inv_def slot_at_def)
  show "\<exists>slot. tried P rx g (id_at r h) = Some (h, slot)" if h: "h \<le> Suc g" "g \<le> Suc h"
  proof -
    consider "h = g" | "g = Suc h" | "h = Suc g"
      using h by linarith
    then show ?thesis
    proof cases
      case 2
      then obtain p where "dr_previous rx = Some p"
        using assms(1) by (auto simp: rx_inv_def split: option.splits)
      with 2 prev [of p] cur id_at_near [of h g r] show ?thesis
        by (simp add: tried_def choose_epoch_def)
    next
      case 3
      have "choose_epoch rx (id_at r h) = UseNext"
        using 3 cur prev id_at_near [of g h r] id_at_near [of "g - 1" h r]
        by (auto simp: choose_epoch_def split: option.splits)
      moreover have "rx_peek_next P (dr_keys rx) \<noteq> None"
        using assms(1) key_chain.peek_then_advance [of P "dk_rx (dr_keys rx)"]
        by (auto simp: rx_inv_def dgram_keys_wf_def rx_peek_next_def)
      ultimately show ?thesis
        using 3 by (auto simp: tried_def)
    qed (use cur in \<open>simp add: tried_def choose_epoch_def\<close>)
  qed
  show "choose_epoch rx (id_at r h) = NoEpoch" if "g + 2 \<le> h" "h \<le> g + 254"
    using that cur prev id_at_near [of g h r] id_at_near [of "g - 1" h r] id_at_near [of "Suc g" h r]
    by (auto simp: choose_epoch_def split: option.splits)
qed

section \<open>What the receiver does\<close>

text \<open>
  What the receiver does with a datagram of the log, tried in its generation and at its
  counter: the frame if the counter is fresh, and no frame otherwise.
\<close>

definition handles :: "crypto \<Rightarrow> key_ratchet \<Rightarrow> datagram_rx \<Rightarrow> nat \<Rightarrow> sent_entry list \<Rightarrow> sent_entry \<Rightarrow>
    (tls_error, frame) result \<Rightarrow> datagram_rx \<Rightarrow> bool" where
  "handles P r rx g acc m res rx' \<longleftrightarrow>
     (if replay_spec (seen_at (se_gen m) (map entry_key acc)) (sd_counter (se_datagram m))
      then (\<exists>f. res = Ok f \<and> dgram_of_frame f = se_item m) \<and> entry_key m \<notin> entry_key ` set acc \<and>
           rx_inv P r rx' (rx_gen_after rx rx' g) (acc @ [m])
      else (\<exists>err. res = Err err) \<and> rx_inv P r rx' (rx_gen_after rx rx' g) acc) \<and>
     rx_gen_after rx rx' g = max g (se_gen m)"

lemma rx_inv_fresh:
  assumes "window_abs w (seen_at (se_gen m) (map entry_key acc))"
    and "replay_spec (seen_at (se_gen m) (map entry_key acc)) (sd_counter (se_datagram m))"
  shows "entry_key m \<notin> entry_key ` set acc"
proof -
  have "finite (seen_at (se_gen m) (map entry_key acc))"
    using assms(1) by (simp add: window_abs_def)
  with assms(2) have "sd_counter (se_datagram m) \<notin> seen_at (se_gen m) (map entry_key acc)"
    using window.spec_fresh by blast
  then show ?thesis
    by (force simp: entry_key_def [of m])
qed

lemma rx_opens:
  assumes laws: "dgram_laws P" and r: "ratchet_wf P r" and inv: "rx_inv P r rx g acc"
    and t: "tried P rx g e = Some (se_gen m, slot)" and m: "entry_ok P r m"
    and c: "slot_counter slot wc n = sd_counter (se_datagram m)"
  obtains res rx' where "datagram_open P rx e wc n (sd_ciphertext (se_datagram m)) (se_aad m) = Some (res, rx')"
    "handles P r rx g acc m res rx'"
proof -
  let ?c = "sd_counter (se_datagram m)" and ?S = "seen_at (se_gen m) (map entry_key acc)"
  obtain sid ft payload where it: "se_item m = (sid, ft, payload)"
    by (metis prod_cases3)
  obtain f where f: "parse_datagram (datagram_plaintext sid ft payload) = Ok f" "dgram_of_frame f = se_item m"
    by (rule entry_parses [OF m it])
  have slot: "slot_at P r slot (se_gen m)" "window_abs (es_window slot) ?S"
    using tried_slot [OF r inv t] by simp_all
  have fresh: "replay_spec ?S ?c \<Longrightarrow> entry_key m \<notin> entry_key ` set acc"
    by (rule rx_inv_fresh [OF slot(2)])
  have seal: "aead_seal P (ek_key (es_keys slot)) (build_nonce (ek_salt (es_keys slot)) ?c) (se_aad m)
      (datagram_plaintext sid ft payload) = Some (sd_ciphertext (se_datagram m))" "?c \<le> 16384"
    using m it slot(1) by (simp_all add: entry_ok_def slot_at_def less_imp_le)
  obtain w where w: "slot_try_open P slot wc n (sd_ciphertext (se_datagram m)) (se_aad m) =
      Some (if replay_spec ?S ?c then Some (datagram_plaintext sid ft payload) else None, slot\<lparr>es_window := w\<rparr>)"
    "window_abs w (if replay_spec ?S ?c then insert ?c ?S else ?S)"
    using slot_opens [OF _ slot(2) c seal(2,1)] laws by (auto simp: dgram_laws_def)
  from r inv t show thesis
  proof (cases rule: tried_cases)
    case current
    show thesis
      by (rule that [OF _, of "if replay_spec ?S ?c then Ok f else Err (auth_fail ''Datagram AEAD open failed (current epoch)'')"
              "rx\<lparr>dr_current := slot\<lparr>es_window := w\<rparr>\<rparr>"])
         (use current w f inv m fresh slot in \<open>auto simp: datagram_open_def handles_def rx_inv_def slot_at_def
            entry_key_def rx_gen_after_def current_epoch_id_def split: option.splits\<close>)
  next
    case previous
    show thesis
      by (rule that [OF _, of "if replay_spec ?S ?c then Ok f else Err (auth_fail ''Datagram AEAD open failed (previous epoch)'')"
              "rx\<lparr>dr_previous := Some (slot\<lparr>es_window := w\<rparr>)\<rparr>"])
         (use previous w f inv m fresh slot in \<open>auto simp: datagram_open_def handles_def rx_inv_def slot_at_def
            entry_key_def rx_gen_after_def current_epoch_id_def split: option.splits\<close>)
  next
    case following
    have id: "es_epoch_id (dr_current rx) = id_at r g" "slot_at P r slot (Suc g)"
      using inv slot following(2) by (simp_all add: rx_inv_def slot_at_def)
    let ?rx = "rx\<lparr>dr_keys := (dr_keys rx)\<lparr>dk_rx := epoch_at P r (se_gen m)\<rparr>,
        dr_current := slot\<lparr>es_window := w\<rparr>, dr_previous := Some (dr_current rx)\<rparr>"
    have new: "replay_spec ?S ?c"
      using following(6) by (simp add: replay_spec_def)
    have moved: "rx_gen_after rx ?rx g = Suc g"
      using id by (simp add: rx_gen_after_def current_epoch_id_def slot_at_def)
    have "rx_inv P r ?rx (Suc g) (acc @ [m])"
      using inv m new w(2) following(2,6) id(2) epoch_at_ok(1) [OF r, of "Suc g"]
      by (auto simp: rx_inv_def slot_at_def entry_key_def dgram_keys_wf_def simp del: epoch_at.simps)
    then have "handles P r rx g acc m (Ok f) ?rx"
      using new fresh f(2) moved following(2) by (simp add: handles_def)
    moreover have "datagram_open P rx e wc n (sd_ciphertext (se_datagram m)) (se_aad m) = Some (Ok f, ?rx)"
      using following w(1) new f(1) by (simp add: datagram_open_def)
    ultimately show thesis
      by (rule that [rotated])
  qed
qed

text \<open>Whatever arrives: a datagram of the log that was not let through before, or nothing.\<close>

lemma rx_receives:
  assumes laws: "dgram_laws P" and r: "ratchet_wf P r" and inv: "rx_inv P r (nt_rx s) (nt_rx_gen s) acc"
    and log: "\<forall>m \<in> set (nt_log s). entry_ok P r m" and gen: "genuine P s e wc n ct aad"
  obtains (opened) m res rx' where "m \<in> set (nt_log s)" "datagram_open P (nt_rx s) e wc n ct aad = Some (res, rx')"
      "handles P r (nt_rx s) (nt_rx_gen s) acc m res rx'"
  | (refused) err where "datagram_open P (nt_rx s) e wc n ct aad = Some (Err err, nt_rx s)" "err_action err = Drop"
proof (cases "tried P (nt_rx s) (nt_rx_gen s) e")
  case None
  have "rx_peek_next P (dr_keys (nt_rx s)) \<noteq> None"
    using inv key_chain.peek_then_advance [of P "dk_rx (dr_keys (nt_rx s))"]
    by (auto simp: rx_inv_def dgram_keys_wf_def rx_peek_next_def)
  with None have "choose_epoch (nt_rx s) e = NoEpoch"
    by (simp add: tried_def split: epoch_choice.splits)
  then show thesis
    by (intro refused [of "auth_fail ''Datagram epoch_id out of acceptable range''"])
       (simp_all add: datagram_open_def auth_fail_def tls_error_new_def)
next
  case (Some hs)
  obtain h slot where t: "tried P (nt_rx s) (nt_rx_gen s) e = Some (h, slot)"
    using Some by (cases hs) simp
  let ?c = "slot_counter slot wc n"
  show thesis
  proof (cases "aead_open P (ek_key (es_keys slot)) (build_nonce (ek_salt (es_keys slot)) ?c) aad ct")
    case None
    then have "slot_try_open P slot wc n ct aad = Some (None, slot)"
      by (simp add: slot_try_open_def slot_counter_def Let_def)
    with r inv t have "\<exists>what. datagram_open P (nt_rx s) e wc n ct aad = Some (Err (auth_fail what), nt_rx s)"
      by (cases rule: tried_cases) (auto simp: datagram_open_def)
    then show thesis
      using refused by (auto simp: auth_fail_def tls_error_new_def)
  next
    case (Some buf)
    then obtain m where m: "m \<in> set (nt_log s)" "se_gen m = h" "se_aad m = aad" "sd_ciphertext (se_datagram m) = ct"
      "build_nonce (ek_salt (es_keys slot)) (sd_counter (se_datagram m)) = build_nonce (ek_salt (es_keys slot)) ?c"
      using gen t by (auto simp: genuine_def Let_def)
    have "length (ek_salt (es_keys slot)) = 12"
      using tried_slot [OF r inv t] keys_at_salt [OF r] by (simp add: slot_at_def)
    then have c: "?c = sd_counter (se_datagram m)"
      using xor_counter_inj m(5) by (metis build_nonce_eq)
    obtain res rx' where "datagram_open P (nt_rx s) e wc n ct aad = Some (res, rx')"
      "handles P r (nt_rx s) (nt_rx_gen s) acc m res rx'"
      using rx_opens [OF laws r inv t [folded m(2)] log [rule_format, OF m(1)] c] m(3,4) by metis
    with m(1) show thesis
      by (rule opened)
  qed
qed

text \<open>So every such read returns: the clearing loop of the window ends and nothing panics.\<close>

lemma genuine_read_returns:
  assumes "dgram_laws P" "net_inv P r s" "genuine P s e wc n ct aad"
  shows "\<exists>res rx'. datagram_open P (nt_rx s) e wc n ct aad = Some (res, rx') \<and> res \<noteq> Panic"
proof -
  obtain acc where "rx_inv P r (nt_rx s) (nt_rx_gen s) acc" "ratchet_wf P r" "\<forall>m \<in> set (nt_log s). entry_ok P r m"
    using assms(2) by (auto simp: net_inv_def tx_inv_def)
  from assms(1) this(2,1,3) assms(3) show ?thesis
    by (cases rule: rx_receives) (auto simp: handles_def split: if_splits)
qed

section \<open>The invariant is kept\<close>

text \<open>Sealing.\<close>

lemma tx_inv_send:
  assumes laws: "dgram_laws P" and r: "ratchet_wf P r" and inv: "tx_inv P r s"
    and step: "datagram_seal P (nt_tx s) sid ft payload aad = (Ok sd, tx')" "length payload < 65536"
    "g = next_gen s"
  shows "tx_inv P r (s\<lparr>nt_tx := tx', nt_tx_gen := g, nt_log := nt_log s @
      [\<lparr>se_gen = g, se_datagram = sd, se_aad = aad, se_item = (sid, ft, payload)\<rparr>]\<rparr>)"
proof -
  have pre: "dgram_keys_wf P (dt_keys (nt_tx s))" "dt_counter (nt_tx s) \<le> 16384" "length payload < 2 ^ 32"
    "dk_tx (dt_keys (nt_tx s)) = epoch_at P r (nt_tx_gen s)"
    using inv step(2) by (simp_all add: tx_inv_def)
  obtain tx1 k ct where t: "tx_current P (dt_keys tx1) = Some k" "dgram_keys_wf P (dt_keys tx1)"
    "dt_counter tx1 < 16384" "ek_epoch_id k = tx_epoch_id (dt_keys tx1)"
    "aead_seal P (ek_key k) (build_nonce (ek_salt k) (dt_counter tx1)) aad (datagram_plaintext sid ft payload) = Some ct"
    "datagram_seal P (nt_tx s) sid ft payload aad =
       (Ok \<lparr>sd_epoch_id = ek_epoch_id k, sd_counter = dt_counter tx1, sd_ciphertext = ct\<rparr>,
        tx1\<lparr>dt_counter := dt_counter tx1 + 1\<rparr>)"
    "if dt_counter (nt_tx s) = 16384
     then (\<exists>k'. ratchet_advance P (dk_tx (dt_keys (nt_tx s))) = Some (k', dk_tx (dt_keys tx1))) \<and> dt_counter tx1 = 0
     else tx1 = nt_tx s"
    by (rule seal_ok [OF laws pre(1-3), where aad = aad and sid = sid and ft = ft])
  have g: "g = (if dt_counter (nt_tx s) = 16384 then Suc (nt_tx_gen s) else nt_tx_gen s)"
    using step(3) pre(2) by (auto simp: next_gen_def)
  have ratchet: "dk_tx (dt_keys tx1) = epoch_at P r g"
    using t(7) epoch_at_ok(5) [OF r] pre(4) by (auto simp: g split: if_splits)
  then have "k = keys_at P r g"
    using t(1) epoch_at_ok(3) [OF r] by (simp add: tx_current_def)
  then have k: "k = keys_at P r g" "ek_epoch_id k = id_at r g"
    using epoch_at_ok(4) [OF r] by simp_all
  have sd: "sd = \<lparr>sd_epoch_id = id_at r g, sd_counter = dt_counter tx1, sd_ciphertext = ct\<rparr>"
    "tx' = tx1\<lparr>dt_counter := dt_counter tx1 + 1\<rparr>"
    using t(6) step(1) k(2) by simp_all
  have c: "dt_counter tx1 + 1 \<le> 16384" "dt_counter tx1 < dt_counter tx1 + 1"
    using t(3) by (simp_all add: inc_le word_less_nat_alt unat_plus_if')
  let ?m = "\<lparr>se_gen = g, se_datagram = sd, se_aad = aad, se_item = (sid, ft, payload)\<rparr>"
  have new: "entry_ok P r ?m"
    using t(3,5) step(2) k by (simp add: entry_ok_def sd(1))
  have old: "entry_ok P r m" "se_gen m \<le> g" "se_gen m = g \<Longrightarrow> sd_counter (se_datagram m) < dt_counter tx1"
    if "m \<in> set (nt_log s)" for m
    using that inv t(7) g by (auto simp: tx_inv_def split: if_splits)
  have fresh: "entry_key ?m \<notin> entry_key ` set (nt_log s)"
    using old(3) by (force simp: entry_key_def sd(1))
  have "nt_rx_gen s \<le> g"
    using inv g by (auto simp: tx_inv_def)
  moreover have "se_gen m = g \<Longrightarrow> sd_counter (se_datagram m) < dt_counter tx1 + 1" if "m \<in> set (nt_log s)" for m
    using old(3) [OF that] c(2) by (rule less_trans)
  moreover have "sd_counter sd < dt_counter tx1 + 1"
    using c(2) by (simp add: sd(1))
  ultimately show ?thesis
    using inv new old(1,2) t(2) ratchet c(1) fresh by (auto simp: tx_inv_def sd(2))
qed

lemma net_inv_send:
  assumes "dgram_laws P" "net_inv P r s"
    "datagram_seal P (nt_tx s) sid ft payload aad = (Ok sd, tx')" "length payload < 65536"
    "g = next_gen s"
  shows "net_inv P r (s\<lparr>nt_tx := tx', nt_tx_gen := g, nt_log := nt_log s @
      [\<lparr>se_gen = g, se_datagram = sd, se_aad = aad, se_item = (sid, ft, payload)\<rparr>]\<rparr>)"
  using assms(2) tx_inv_send [OF assms(1) _ _ assms(3-5)] unfolding net_inv_def
  by (elim conjE exE) (intro conjI, simp_all, blast)

lemma net_inv_receive:
  assumes laws: "dgram_laws P" and inv: "net_inv P r s" and gen: "genuine P s e wc bits ct aad"
    and op: "datagram_open P (nt_rx s) e wc bits ct aad = Some (res, rx')"
  shows "net_inv P r (s\<lparr>nt_rx := rx', nt_rx_gen := rx_gen_after (nt_rx s) rx' (nt_rx_gen s),
      nt_got := nt_got s @ frames_of res\<rparr>)"
proof -
  obtain acc where acc: "rx_inv P r (nt_rx s) (nt_rx_gen s) acc" "distinct (map entry_key acc)"
    "set acc \<subseteq> set (nt_log s)" "map dgram_of_frame (nt_got s) = map se_item acc"
    using inv by (auto simp: net_inv_def)
  have r: "ratchet_wf P r" and tx: "tx_inv P r s"
    using inv by (simp_all add: net_inv_def)
  have log: "\<forall>m \<in> set (nt_log s). entry_ok P r m"
    using tx by (simp add: tx_inv_def)
  from laws r acc(1) log gen show ?thesis
  proof (cases rule: rx_receives)
    case (opened m res' rx'')
    then have same: "res' = res" "rx'' = rx'"
      using op by simp_all
    have "se_gen m \<le> nt_tx_gen s" "nt_rx_gen s \<le> nt_tx_gen s"
      using tx opened(1) by (simp_all add: tx_inv_def)
    then have tx': "tx_inv P r (s\<lparr>nt_rx := rx', nt_rx_gen := rx_gen_after (nt_rx s) rx' (nt_rx_gen s),
        nt_got := nt_got s @ frames_of res\<rparr>)"
      using tx opened(3) same by (simp add: tx_inv_def handles_def)
    show ?thesis
    proof (cases "replay_spec (seen_at (se_gen m) (map entry_key acc)) (sd_counter (se_datagram m))")
      case True
      then show ?thesis
        using opened same r tx' acc unfolding net_inv_def handles_def
        by (intro conjI exI [of _ "acc @ [m]"]) auto
    next
      case False
      then show ?thesis
        using opened same r tx' acc unfolding net_inv_def handles_def
        by (intro conjI exI [of _ acc]) auto
    qed
  next
    case (refused err)
    then show ?thesis
      using op inv by (simp add: rx_gen_after_def)
  qed
qed

lemma net_step_inv:
  assumes "dgram_laws P" "net_step P s s'" "net_inv P r s"
  shows "net_inv P r s'"
  using assms(2)
proof cases
  case (net_send sid ft payload aad sd tx')
  then show ?thesis
    using net_inv_send [OF assms(1,3)] by simp
next
  case (net_receive e wc bits ct aad res rx')
  then show ?thesis
    using net_inv_receive [OF assms(1,3)] by simp
qed

lemma net_start_inv:
  assumes "dgram_keys_wf P kt" "dgram_keys_wf P kr" "dk_tx kt = dk_rx kr" "datagram_rx_new P kr = Some rx"
  shows "net_inv P (dk_tx kt) (net_start kt rx)"
proof -
  have r: "ratchet_wf P (dk_tx kt)"
    using assms(1) by (simp add: dgram_keys_wf_def)
  have rx: "rx = \<lparr>dr_keys = kr, dr_current = epoch_slot_fresh (keys_at P (dk_tx kt) 0), dr_previous = None\<rparr>"
    using assms(3,4) epoch_at_ok(3) [OF r, of 0] by (simp add: datagram_rx_new_def rx_current_def)
  have "rx_inv P (dk_tx kt) rx 0 []"
    using assms(2,3) epoch_at_ok(4) [OF r, of 0]
    by (simp add: rx_inv_def rx slot_at_def epoch_slot_fresh_def window_abs_new)
  moreover have "tx_inv P (dk_tx kt) (net_start kt rx)"
    using assms(1) by (simp add: tx_inv_def net_start_def datagram_tx_new_def)
  ultimately show ?thesis
    using r unfolding net_inv_def by (intro conjI exI [of _ "[]"]) (simp_all add: net_start_def)
qed

lemma net_reachable_inv:
  assumes "dgram_laws P" "dgram_keys_wf P kt" "dgram_keys_wf P kr" "dk_tx kt = dk_rx kr"
    "datagram_rx_new P kr = Some rx" "rtranclp (net_step P) (net_start kt rx) s"
  shows "net_inv P (dk_tx kt) s"
  using assms(6)
  by induction (use net_start_inv [OF assms(2-5)] net_step_inv [OF assms(1)] in blast)+

lemma net_inv_subset:
  assumes "net_inv P r s"
  shows "mset (map dgram_of_frame (nt_got s)) \<subseteq># mset (map se_item (nt_log s))"
proof -
  obtain acc where acc: "distinct (map entry_key acc)" "set acc \<subseteq> set (nt_log s)"
    "map dgram_of_frame (nt_got s) = map se_item acc"
    using assms by (auto simp: net_inv_def)
  have "distinct acc" "distinct (nt_log s)"
    using acc(1) assms by (simp_all add: distinct_map net_inv_def tx_inv_def)
  then have "mset acc \<subseteq># mset (nt_log s)"
    using subset_imp_msubset_mset_set [OF acc(2)] by (simp add: mset_set_set)
  then show ?thesis
    unfolding acc(3) by (simp add: image_mset_subseteq_mono)
qed

section \<open>Honest delivery\<close>

text \<open>A datagram that arrives as it was sealed, in reach of the receiver, is tried at its own counter.\<close>

lemma own_counter:
  assumes "ratchet_wf P r" "rx_inv P r rx g acc" "tried P rx g e = Some (h, slot)" "entry_ok P r m" "16 \<le> n" "n < 63"
  shows "slot_counter slot (truncate_counter (sd_counter (se_datagram m)) n) n = sd_counter (se_datagram m)"
proof -
  have "epoch_counters (seen_at h (map entry_key acc))"
    using assms(2) seen_at_counters [of acc P r g] by (simp add: rx_inv_def)
  with tried_slot [OF assms(1-3)] assms(4-6) show ?thesis
    unfolding slot_counter_def by (intro expand_in_epoch) (auto simp: entry_ok_def less_imp_le)
qed

lemma honest_delivery:
  assumes inv: "net_inv P r s" and n: "16 \<le> n" "n < 63" and m: "m \<in> set (nt_log s)"
    and reach: "se_gen m \<le> Suc (nt_rx_gen s)" "nt_rx_gen s \<le> Suc (se_gen m)"
  shows "genuine P s (sd_epoch_id (se_datagram m)) (truncate_counter (sd_counter (se_datagram m)) n) n
    (sd_ciphertext (se_datagram m)) (se_aad m)"
proof -
  obtain acc where acc: "rx_inv P r (nt_rx s) (nt_rx_gen s) acc" and r: "ratchet_wf P r" and e: "entry_ok P r m"
    using inv m by (auto simp: net_inv_def tx_inv_def)
  then obtain slot where t: "tried P (nt_rx s) (nt_rx_gen s) (sd_epoch_id (se_datagram m)) = Some (se_gen m, slot)"
    using tried_at(1) [OF acc r reach] by (auto simp: entry_ok_def)
  with m own_counter [OF r acc t e n] show ?thesis
    by (auto simp: genuine_def Let_def)
qed

text \<open>The datagram that is sealed next opens, if the receiver has not missed a whole epoch.\<close>

definition late_answer :: "(tls_error, frame) result" where
  "late_answer = Err (auth_fail ''Datagram epoch_id out of acceptable range'')"

lemma net_inv_recovers:
  assumes laws: "dgram_laws P" and n: "16 \<le> n" "n < 63" and inv: "net_inv P r s" and len: "length payload < 65536"
  obtains sd tx' where "datagram_seal P (nt_tx s) sid ft payload aad = (Ok sd, tx')"
    "next_gen s \<le> nt_rx_gen s + 1 \<Longrightarrow> \<exists>f rx'.
       datagram_open P (nt_rx s) (sd_epoch_id sd) (truncate_counter (sd_counter sd) n) n (sd_ciphertext sd) aad = Some (Ok f, rx') \<and>
       dgram_of_frame f = (sid, ft, payload)"
    "nt_rx_gen s + 2 \<le> next_gen s \<Longrightarrow> next_gen s \<le> nt_rx_gen s + 254 \<Longrightarrow>
       datagram_open P (nt_rx s) (sd_epoch_id sd) (truncate_counter (sd_counter sd) n) n (sd_ciphertext sd) aad =
         Some (late_answer, nt_rx s)"
proof -
  have r: "ratchet_wf P r" and tx: "tx_inv P r s"
    using inv by (simp_all add: net_inv_def)
  obtain acc where acc: "rx_inv P r (nt_rx s) (nt_rx_gen s) acc" "set acc \<subseteq> set (nt_log s)"
    using inv by (auto simp: net_inv_def)
  have pre: "dgram_keys_wf P (dt_keys (nt_tx s))" "dt_counter (nt_tx s) \<le> 16384" "length payload < 2 ^ 32"
    using tx len by (simp_all add: tx_inv_def)
  obtain sd tx' where sd: "datagram_seal P (nt_tx s) sid ft payload aad = (Ok sd, tx')"
    "sd_counter sd = (if dt_counter (nt_tx s) = 16384 then 0 else dt_counter (nt_tx s))"
    by (rule seal_ok [OF laws pre, where aad = aad and sid = sid and ft = ft]) (auto split: if_splits)
  let ?m = "\<lparr>se_gen = next_gen s, se_datagram = sd, se_aad = aad, se_item = (sid, ft, payload)\<rparr>"
  have "tx_inv P r (s\<lparr>nt_tx := tx', nt_tx_gen := next_gen s, nt_log := nt_log s @ [?m]\<rparr>)"
    by (rule tx_inv_send [OF laws r tx sd(1) len refl])
  then have m: "entry_ok P r ?m"
    by (simp add: tx_inv_def)
  then have id: "sd_epoch_id sd = id_at r (next_gen s)"
    by (simp add: entry_ok_def)
  have newest: "sd_counter (se_datagram m) < sd_counter sd" if "m \<in> set (nt_log s)" "se_gen m = next_gen s" for m
    using that tx sd(2) pre(2) by (auto simp: tx_inv_def next_gen_def split: if_splits)
  show thesis
  proof (rule that [OF sd(1)])
    assume "next_gen s \<le> nt_rx_gen s + 1"
    moreover have "nt_rx_gen s \<le> Suc (next_gen s)"
      using tx by (auto simp: tx_inv_def next_gen_def)
    ultimately obtain slot where t: "tried P (nt_rx s) (nt_rx_gen s) (sd_epoch_id sd) = Some (next_gen s, slot)"
      using tried_at(1) [OF acc(1) r, of "next_gen s"] id by auto
    obtain res rx' where op: "datagram_open P (nt_rx s) (sd_epoch_id sd) (truncate_counter (sd_counter sd) n) n
        (sd_ciphertext sd) aad = Some (res, rx')" "handles P r (nt_rx s) (nt_rx_gen s) acc ?m res rx'"
      using rx_opens [OF laws r acc(1) _ m, of "sd_epoch_id sd" slot "truncate_counter (sd_counter sd) n" n]
        own_counter [OF r acc(1) t m n] t by auto
    have "replay_spec (seen_at (next_gen s) (map entry_key acc)) (sd_counter sd)"
      using newest acc(2) by (intro replay_spec_above) (auto simp: seen_at_def entry_key_def)
    with op show "\<exists>f rx'. datagram_open P (nt_rx s) (sd_epoch_id sd) (truncate_counter (sd_counter sd) n) n (sd_ciphertext sd) aad =
        Some (Ok f, rx') \<and> dgram_of_frame f = (sid, ft, payload)"
      by (auto simp: handles_def)
  next
    assume "nt_rx_gen s + 2 \<le> next_gen s" "next_gen s \<le> nt_rx_gen s + 254"
    then have "choose_epoch (nt_rx s) (sd_epoch_id sd) = NoEpoch"
      unfolding id by (rule tried_at(2) [OF acc(1) r])
    then show "datagram_open P (nt_rx s) (sd_epoch_id sd) (truncate_counter (sd_counter sd) n) n (sd_ciphertext sd) aad =
        Some (late_answer, nt_rx s)"
      by (simp add: datagram_open_def late_answer_def)
  qed
qed

text \<open>A sender nobody hears: after \<open>k\<close> datagrams it is in epoch \<open>k div 2^14\<close>.\<close>

lemma silent_run:
  assumes laws: "dgram_laws P" and keys: "dgram_keys_wf P kt" "dgram_keys_wf P kr" "dk_tx kt = dk_rx kr"
    and rx: "datagram_rx_new P kr = Some rx"
  shows "\<exists>s. rtranclp (net_step P) (net_start kt rx) s \<and> nt_rx s = rx \<and> nt_rx_gen s = 0 \<and>
    dt_counter (nt_tx s) \<le> 16384 \<and> 16384 * nt_tx_gen s + unat (dt_counter (nt_tx s)) = k"
proof (induction k)
  case 0
  show ?case
    by (intro exI [of _ "net_start kt rx"]) (simp add: net_start_def datagram_tx_new_def)
next
  case (Suc k)
  then obtain s where s: "rtranclp (net_step P) (net_start kt rx) s" "nt_rx s = rx" "nt_rx_gen s = 0"
    "dt_counter (nt_tx s) \<le> 16384" "16384 * nt_tx_gen s + unat (dt_counter (nt_tx s)) = k"
    by blast
  have "dgram_keys_wf P (dt_keys (nt_tx s))"
    using net_reachable_inv [OF laws keys rx s(1)] by (simp add: net_inv_def tx_inv_def)
  then obtain tx1 sd where t: "datagram_seal P (nt_tx s) 0 UdpData [] [] = (Ok sd, tx1\<lparr>dt_counter := dt_counter tx1 + 1\<rparr>)"
    "dt_counter tx1 < 16384" "dt_counter tx1 = (if dt_counter (nt_tx s) = 16384 then 0 else dt_counter (nt_tx s))"
    by (rule seal_ok [OF laws _ s(4), of "[]" "[]" 0 UdpData]) (auto split: if_splits)
  let ?s = "s\<lparr>nt_tx := tx1\<lparr>dt_counter := dt_counter tx1 + 1\<rparr>, nt_tx_gen := next_gen s, nt_log := nt_log s @
      [\<lparr>se_gen = next_gen s, se_datagram = sd, se_aad = [], se_item = (0, UdpData, [])\<rparr>]\<rparr>"
  have "net_step P s ?s"
    by (rule net_send [OF t(1)]) simp
  with s(1) have "rtranclp (net_step P) (net_start kt rx) ?s"
    by (rule rtranclp.rtrancl_into_rtrancl)
  moreover have "unat (dt_counter tx1 + 1) = Suc (unat (dt_counter tx1))" "dt_counter tx1 + 1 \<le> 16384"
    using t(2) by (simp_all add: inc_le word_less_nat_alt unat_plus_if')
  moreover have "16384 * next_gen s + unat (dt_counter tx1) = k"
    using s(4,5) t(3) by (auto simp: next_gen_def)
  ultimately show ?case
    using s(2,3) by (intro exI [of _ ?s]) simp
qed

section \<open>Properties\<close>

text \<open>Property C9 (network_never_duplicates): a sender seals frames with payloads up to 65535 bytes,
  through any number of key changes and however far ahead of the receiver; the network hands
  the receiver any bytes, with any epoch id, counter, width and associated data, at any time:
  datagrams lost, repeated, reordered, delayed by any number of epochs, whole epochs missing,
  replays under altered metadata, forgeries.  A read is only assumed not to break the cipher: if
  it opens under the key and nonce tried, the sender sealed this ciphertext with them and this
  associated data.  Then the frames delivered are frames that were sent, each at most as often
  as it was sent.\<close>

theorem network_never_duplicates:
  assumes "dgram_laws P" and "dgram_keys_wf P kt" and "dgram_keys_wf P kr" and "dk_tx kt = dk_rx kr"
    and "datagram_rx_new P kr = Some rx" and "rtranclp (net_step P) (net_start kt rx) s"
  shows "mset (map dgram_of_frame (nt_got s)) \<subseteq># mset (map se_item (nt_log s))"
  by (rule net_inv_subset [OF net_reachable_inv [OF assms]])

lemma demo_receiver:
  obtains rx where "datagram_rx_new toy_crypto demo_peer_keys = Some rx"
  using dgram_link_new [OF demo_keys_wf demo_peer_keys_wf] by blast

lemma demo_net_start_inv:
  assumes "datagram_rx_new toy_crypto demo_peer_keys = Some rx"
  shows "net_inv toy_crypto (dk_tx demo_keys) (net_start demo_keys rx)"
  by (rule net_start_inv [OF demo_keys_wf demo_peer_keys_wf assms])

lemma demo_net_send:
  assumes "datagram_rx_new toy_crypto demo_peer_keys = Some rx"
  obtains t m f rx' where "net_step toy_crypto (net_start demo_keys rx) t" "nt_log t = [m]" "se_gen m = 0"
    "nt_rx t = rx" "nt_rx_gen t = 0"
    "datagram_open toy_crypto rx (sd_epoch_id (se_datagram m)) (truncate_counter (sd_counter (se_datagram m)) 16) 16
       (sd_ciphertext (se_datagram m)) (se_aad m) = Some (Ok f, rx')"
proof -
  let ?s = "net_start demo_keys rx"
  have gen: "next_gen ?s = 0"
    by (simp add: next_gen_def net_start_def datagram_tx_new_def)
  obtain sd tx' f rx' where *: "datagram_seal toy_crypto (nt_tx ?s) 1 UdpData [7] [] = (Ok sd, tx')"
    "datagram_open toy_crypto (nt_rx ?s) (sd_epoch_id sd) (truncate_counter (sd_counter sd) 16) 16 (sd_ciphertext sd) [] =
       Some (Ok f, rx')"
    by (rule net_inv_recovers [OF toy_dgram_laws _ _ demo_net_start_inv [OF assms], of 16 "[7]" 1 UdpData "[]"])
       (use gen in auto)
  let ?m = "\<lparr>se_gen = 0, se_datagram = sd, se_aad = [], se_item = (1, UdpData, [7])\<rparr>"
  have "net_step toy_crypto ?s (?s\<lparr>nt_tx := tx', nt_tx_gen := 0, nt_log := nt_log ?s @ [?m]\<rparr>)"
    using net_send [OF *(1)] by (simp add: gen)
  from that [OF this, of ?m f rx'] *(2) show thesis
    by (simp add: net_start_def)
qed

lemma demo_net_run:
  assumes "datagram_rx_new toy_crypto demo_peer_keys = Some rx"
  obtains s where "rtranclp (net_step toy_crypto) (net_start demo_keys rx) s" "nt_got s \<noteq> []"
proof -
  obtain t m f rx' where t: "net_step toy_crypto (net_start demo_keys rx) t" "nt_log t = [m]" "se_gen m = 0"
    "nt_rx t = rx" "nt_rx_gen t = 0"
    "datagram_open toy_crypto rx (sd_epoch_id (se_datagram m)) (truncate_counter (sd_counter (se_datagram m)) 16) 16
       (sd_ciphertext (se_datagram m)) (se_aad m) = Some (Ok f, rx')"
    by (rule demo_net_send [OF assms])
  have "genuine toy_crypto t (sd_epoch_id (se_datagram m)) (truncate_counter (sd_counter (se_datagram m)) 16) 16
      (sd_ciphertext (se_datagram m)) (se_aad m)"
    by (rule honest_delivery [OF net_step_inv [OF toy_dgram_laws t(1) demo_net_start_inv [OF assms]]]) (use t in simp_all)
  from net_receive [OF this] t(4,6) have "net_step toy_crypto t (t\<lparr>nt_rx := rx',
      nt_rx_gen := rx_gen_after (nt_rx t) rx' (nt_rx_gen t), nt_got := nt_got t @ frames_of (Ok f)\<rparr>)"
    by simp
  then have "rtranclp (net_step toy_crypto) (net_start demo_keys rx) (t\<lparr>nt_rx := rx',
      nt_rx_gen := rx_gen_after (nt_rx t) rx' (nt_rx_gen t), nt_got := nt_got t @ frames_of (Ok f)\<rparr>)"
    by (rule rtranclp.rtrancl_into_rtrancl [where r = "net_step toy_crypto",
          OF r_into_rtranclp [where r = "net_step toy_crypto", OF t(1)]])
  from that [OF this] show thesis
    by simp
qed

lemma network_never_duplicates_witness:
  "\<exists>rx s. datagram_rx_new toy_crypto demo_peer_keys = Some rx \<and> nt_got s \<noteq> [] \<and>
     rtranclp (net_step toy_crypto) (net_start demo_keys rx) s \<and>
     mset (map dgram_of_frame (nt_got s)) \<subseteq># mset (map se_item (nt_log s))"
proof -
  obtain rx where rx: "datagram_rx_new toy_crypto demo_peer_keys = Some rx"
    by (rule demo_receiver)
  obtain s where s: "rtranclp (net_step toy_crypto) (net_start demo_keys rx) s" "nt_got s \<noteq> []"
    by (rule demo_net_run [OF rx])
  from network_never_duplicates [OF toy_dgram_laws demo_keys_wf demo_peer_keys_wf rx s(1)] rx s show ?thesis
    by auto
qed

text \<open>Property C18 (network_invariant): every step of the network - sealing, with the change of epoch when
  it is due, and the arrival of anything that does not break the cipher - keeps the invariant
  that ties the receiver's slots, windows and ratchet to the epochs of the sender.\<close>

theorem network_invariant:
  assumes "dgram_laws P" and "net_step P s s'" and "net_inv P r s"
  shows "net_inv P r s'"
  by (rule net_step_inv [OF assms])

lemma network_invariant_witness:
  "\<exists>rx s. net_step toy_crypto (net_start demo_keys rx) s \<and> net_inv toy_crypto (dk_tx demo_keys) s"
proof -
  obtain rx where rx: "datagram_rx_new toy_crypto demo_peer_keys = Some rx"
    by (rule demo_receiver)
  obtain s where "net_step toy_crypto (net_start demo_keys rx) s"
    by (rule demo_net_send [OF rx])
  with network_invariant [OF toy_dgram_laws _ demo_net_start_inv [OF rx]] show ?thesis
    by auto
qed

text \<open>Property C14 (network_recovers): after any run of such a network, whatever was lost, replayed or
  forged, sealing the next datagram succeeds, and its delivery ends as follows.  If its epoch is
  at most one after the receiver's, it is opened to its frame.  If the receiver has missed a
  whole epoch - the datagram's is two to 254 epochs after the receiver's - it is refused as out
  of range and the receiver is left as it was: a missed epoch is never made up for.  (From 255
  epochs on the id on the wire comes round again and the datagram is tried with a wrong key.)\<close>

theorem network_recovers:
  assumes "dgram_laws P" and "dgram_keys_wf P kt" and "dgram_keys_wf P kr" and "dk_tx kt = dk_rx kr"
    and "datagram_rx_new P kr = Some rx" and "rtranclp (net_step P) (net_start kt rx) s"
    and "16 \<le> n" and "n < 63" and "length payload < 65536"
  shows "\<exists>sd tx'. datagram_seal P (nt_tx s) sid ft payload aad = (Ok sd, tx') \<and>
    (let answer = datagram_open P (nt_rx s) (sd_epoch_id sd) (truncate_counter (sd_counter sd) n) n (sd_ciphertext sd) aad
     in (next_gen s \<le> nt_rx_gen s + 1 \<longrightarrow>
           (\<exists>f rx'. answer = Some (Ok f, rx') \<and> dgram_of_frame f = (sid, ft, payload))) \<and>
        (nt_rx_gen s + 2 \<le> next_gen s \<and> next_gen s \<le> nt_rx_gen s + 254 \<longrightarrow>
           answer = Some (Err (auth_fail ''Datagram epoch_id out of acceptable range''), nt_rx s)))"
  by (rule net_inv_recovers [OF assms(1,7,8) net_reachable_inv [OF assms(1-6)] assms(9),
        where sid = sid and ft = ft and aad = aad])
     (auto simp: late_answer_def Let_def)

lemma network_recovers_witness:
  "\<exists>rx s sd tx' sd' tx'' f rx'. datagram_rx_new toy_crypto demo_peer_keys = Some rx \<and>
    datagram_seal toy_crypto (datagram_tx_new demo_keys) 1 UdpData [7] [] = (Ok sd, tx') \<and>
    datagram_open toy_crypto rx (sd_epoch_id sd) (truncate_counter (sd_counter sd) 16) 16 (sd_ciphertext sd) [] =
      Some (Ok f, rx') \<and> dgram_of_frame f = (1, UdpData, [7]) \<and>
    rtranclp (net_step toy_crypto) (net_start demo_keys rx) s \<and> nt_rx s = rx \<and>
    datagram_seal toy_crypto (nt_tx s) 1 UdpData [7] [] = (Ok sd', tx'') \<and>
    datagram_open toy_crypto rx (sd_epoch_id sd') (truncate_counter (sd_counter sd') 16) 16 (sd_ciphertext sd') [] =
      Some (Err (auth_fail ''Datagram epoch_id out of acceptable range''), rx)"
proof -
  obtain rx where rx: "datagram_rx_new toy_crypto demo_peer_keys = Some rx"
    by (rule demo_receiver)
  obtain s where s: "rtranclp (net_step toy_crypto) (net_start demo_keys rx) s" "nt_rx s = rx" "nt_rx_gen s = 0"
    "dt_counter (nt_tx s) \<le> 16384" "16384 * nt_tx_gen s + unat (dt_counter (nt_tx s)) = 32768"
    using silent_run [OF toy_dgram_laws demo_keys_wf demo_peer_keys_wf rx, of 32768] by blast
  have "unat (dt_counter (nt_tx s)) \<le> 16384"
    using s(4) by (simp add: word_le_nat_alt)
  then have "next_gen s = 2"
    using s(5) by (auto simp: next_gen_def word_le_nat_alt)
  then obtain sd' tx'' where late: "datagram_seal toy_crypto (nt_tx s) 1 UdpData [7] [] = (Ok sd', tx'')"
    "datagram_open toy_crypto rx (sd_epoch_id sd') (truncate_counter (sd_counter sd') 16) 16 (sd_ciphertext sd') [] =
      Some (Err (auth_fail ''Datagram epoch_id out of acceptable range''), rx)"
    using network_recovers [OF toy_dgram_laws demo_keys_wf demo_peer_keys_wf rx s(1), of 16 "[7]" 1 UdpData "[]"] s(2,3)
    by (auto simp: Let_def)
  obtain sd tx' f rx' where first: "datagram_seal toy_crypto (datagram_tx_new demo_keys) 1 UdpData [7] [] = (Ok sd, tx')"
    "datagram_open toy_crypto rx (sd_epoch_id sd) (truncate_counter (sd_counter sd) 16) 16 (sd_ciphertext sd) [] =
      Some (Ok f, rx')" "dgram_of_frame f = (1, UdpData, [7])"
    using network_recovers [OF toy_dgram_laws demo_keys_wf demo_peer_keys_wf rx rtranclp.rtrancl_refl,
      of 16 "[7]" 1 UdpData "[]"]
    by (auto simp: Let_def net_start_def next_gen_def datagram_tx_new_def)
  show ?thesis
    by (intro exI conjI) (rule rx first late s(1,2))+
qed

end
