(* ===== verification/Datagram_Schedule.thy ===== *)
theory Datagram_Schedule
  imports Datagram_Net
begin

text \<open>
  The sender of \<open>engine/src/nrxp/datagram.rs\<close> over its whole life: which epoch, counter, key and
  nonce the datagram with a given number is sealed with, across all key changes, and that no
  key is ever used twice with the same nonce.
\<close>

section \<open>The place of a datagram\<close>

type_synonym seal_request = "u32 \<times> frame_type \<times> bytes \<times> bytes"

fun seal_all :: "crypto \<Rightarrow> datagram_tx \<Rightarrow> seal_request list \<Rightarrow> (sealed_datagram list \<times> datagram_tx) option" where
  "seal_all P tx [] = Some ([], tx)"
| "seal_all P tx ((sid, ft, payload, aad) # items) =
     (case datagram_seal P tx sid ft payload aad of
        (Ok sd, tx') \<Rightarrow> map_option (\<lambda>(sds, tx''). (sd # sds, tx'')) (seal_all P tx' items)
      | (_, tx') \<Rightarrow> None)"

text \<open>Key and nonce of datagram number \<open>i\<close>: an epoch is \<open>2^14\<close> datagrams long.\<close>

definition key_of :: "crypto \<Rightarrow> key_ratchet \<Rightarrow> nat \<Rightarrow> bytes" where
  "key_of P r i = ek_key (keys_at P r (i div 2 ^ 14))"

definition nonce_of :: "crypto \<Rightarrow> key_ratchet \<Rightarrow> nat \<Rightarrow> bytes" where
  "nonce_of P r i = build_nonce (ek_salt (keys_at P r (i div 2 ^ 14))) (of_nat (i mod 2 ^ 14))"

definition sealed_as :: "crypto \<Rightarrow> key_ratchet \<Rightarrow> nat \<Rightarrow> seal_request \<Rightarrow> sealed_datagram \<Rightarrow> bool" where
  "sealed_as P r i item sd \<longleftrightarrow>
     (case item of (sid, ft, payload, aad) \<Rightarrow>
        sd_epoch_id sd = id_at r (i div 2 ^ 14) \<and> sd_counter sd = of_nat (i mod 2 ^ 14) \<and>
        aead_seal P (key_of P r i) (nonce_of P r i) aad (datagram_plaintext sid ft payload) = Some (sd_ciphertext sd))"

text \<open>
  A sender that has sealed \<open>i\<close> datagrams.  The key change is lazy: after the last datagram of
  an epoch the counter stands at \<open>2^14\<close> and the old key is still in place.
\<close>

definition sender_at :: "crypto \<Rightarrow> key_ratchet \<Rightarrow> nat \<Rightarrow> datagram_tx \<Rightarrow> bool" where
  "sender_at P r i tx \<longleftrightarrow> dgram_keys_wf P (dt_keys tx) \<and>
     (\<exists>g. dk_tx (dt_keys tx) = epoch_at P r g \<and> dt_counter tx \<le> 16384 \<and> i = 16384 * g + unat (dt_counter tx))"

lemma sender_at_new: "dgram_keys_wf P keys \<Longrightarrow> sender_at P (dk_tx keys) 0 (datagram_tx_new keys)"
  by (auto simp: sender_at_def datagram_tx_new_def intro!: exI [of _ 0])

lemma seal_next:
  assumes laws: "dgram_laws P" and r: "ratchet_wf P r" and at: "sender_at P r i tx" and len: "length payload < 2 ^ 32"
  shows "\<exists>sd tx'. datagram_seal P tx sid ft payload aad = (Ok sd, tx') \<and> sender_at P r (Suc i) tx' \<and>
    sealed_as P r i (sid, ft, payload, aad) sd"
proof -
  obtain g where g: "dgram_keys_wf P (dt_keys tx)" "dk_tx (dt_keys tx) = epoch_at P r g" "dt_counter tx \<le> 16384"
    "i = 16384 * g + unat (dt_counter tx)"
    using at by (auto simp: sender_at_def)
  obtain tx1 k ct where t: "tx_current P (dt_keys tx1) = Some k" "dgram_keys_wf P (dt_keys tx1)" "dt_counter tx1 < 16384"
    "aead_seal P (ek_key k) (build_nonce (ek_salt k) (dt_counter tx1)) aad (datagram_plaintext sid ft payload) = Some ct"
    "datagram_seal P tx sid ft payload aad =
       (Ok \<lparr>sd_epoch_id = ek_epoch_id k, sd_counter = dt_counter tx1, sd_ciphertext = ct\<rparr>,
        tx1\<lparr>dt_counter := dt_counter tx1 + 1\<rparr>)"
    and change: "if dt_counter tx = 16384
     then (\<exists>k'. ratchet_advance P (dk_tx (dt_keys tx)) = Some (k', dk_tx (dt_keys tx1))) \<and> dt_counter tx1 = 0
     else tx1 = tx"
    by (rule seal_ok [OF laws g(1,3) len, where aad = aad and sid = sid and ft = ft])
  have c: "unat (dt_counter tx1) < 16384"
    using t(3) by (simp add: word_less_nat_alt)
  have "\<exists>h. dk_tx (dt_keys tx1) = epoch_at P r h \<and> i = 16384 * h + unat (dt_counter tx1)"
  proof (cases "dt_counter tx = 16384")
    case True
    with change g(2) have "dk_tx (dt_keys tx1) = epoch_at P r (Suc g)" "dt_counter tx1 = 0"
      using epoch_at_ok(5) [OF r, of g] by (auto simp del: epoch_at.simps)
    moreover have "unat (dt_counter tx) = 16384"
      by (simp add: True)
    ultimately show ?thesis
      using g(4) by (intro exI [of _ "Suc g"]) (simp del: epoch_at.simps)
  next
    case False
    then show ?thesis
      using change g(2,4) by auto
  qed
  then obtain h where h: "dk_tx (dt_keys tx1) = epoch_at P r h" "i = 16384 * h + unat (dt_counter tx1)"
    by blast
  then have place: "i div 2 ^ 14 = h" "i mod 2 ^ 14 = unat (dt_counter tx1)"
    using c by simp_all
  have k: "k = keys_at P r h" "ek_epoch_id k = id_at r h"
    using t(1) h(1) epoch_at_ok(3,4) [OF r, of h] by (simp_all add: tx_current_def)
  have "unat (dt_counter tx1 + 1) = unat (dt_counter tx1) + 1"
    using c by (simp add: unat_plus_if')
  then have "sender_at P r (Suc i) (tx1\<lparr>dt_counter := dt_counter tx1 + 1\<rparr>)"
    using t(2) h c by (auto simp: sender_at_def word_le_nat_alt)
  moreover have "sealed_as P r i (sid, ft, payload, aad) \<lparr>sd_epoch_id = ek_epoch_id k, sd_counter = dt_counter tx1, sd_ciphertext = ct\<rparr>"
    using t(4) k unfolding sealed_as_def key_of_def nonce_of_def place by simp
  ultimately show ?thesis
    using t(5) by blast
qed

lemma seal_all_places:
  assumes "dgram_laws P" "ratchet_wf P r" "sender_at P r n tx" "list_all (\<lambda>(sid, ft, payload, aad). length payload < 2 ^ 32) items"
  shows "\<exists>sds tx'. seal_all P tx items = Some (sds, tx') \<and> length sds = length items \<and>
    (\<forall>i < length items. sealed_as P r (n + i) (items ! i) (sds ! i))"
  using assms(3,4)
proof (induction items arbitrary: n tx)
  case (Cons item items)
  obtain sid ft payload aad where item: "item = (sid, ft, payload, aad)"
    by (metis prod_cases4)
  obtain sd tx1 where sd: "datagram_seal P tx sid ft payload aad = (Ok sd, tx1)" "sender_at P r (Suc n) tx1"
    "sealed_as P r n item sd"
    using seal_next [OF assms(1,2) Cons.prems(1), of payload sid ft aad] Cons.prems(2) item by auto
  obtain sds tx' where rest: "seal_all P tx1 items = Some (sds, tx')" "length sds = length items"
    "\<forall>i < length items. sealed_as P r (Suc n + i) (items ! i) (sds ! i)"
    using Cons.IH [OF sd(2)] Cons.prems(2) by auto
  have "sealed_as P r (n + i) ((item # items) ! i) ((sd # sds) ! i)" if "i < Suc (length items)" for i
    using that sd(3) rest(3) by (cases i) auto
  then show ?case
    using sd(1) rest(1,2) item by (intro exI [of _ "sd # sds"] exI [of _ tx']) auto
qed simp

section \<open>No nonce twice under one key\<close>

lemma places_distinct:
  assumes "ratchet_wf P r" "inj_on (\<lambda>g. ek_key (keys_at P r g)) {..n div 2 ^ 14}"
  shows "distinct (map (\<lambda>i. (key_of P r i, nonce_of P r i)) [0..<n])"
proof -
  have "i = j" if ij: "i < n" "j < n" "key_of P r i = key_of P r j" "nonce_of P r i = nonce_of P r j" for i j
  proof -
    have "i div 2 ^ 14 \<in> {..n div 2 ^ 14}" "j div 2 ^ 14 \<in> {..n div 2 ^ 14}"
      using ij(1,2) by (simp_all add: div_le_mono)
    then have epoch: "i div 2 ^ 14 = j div 2 ^ 14"
      using inj_onD [OF assms(2)] ij(3) unfolding key_of_def by blast
    then have "(of_nat (i mod 2 ^ 14) :: u64) = of_nat (j mod 2 ^ 14)"
      using ij(4) keys_at_salt [OF assms(1)] unfolding nonce_of_def build_nonce_eq by (auto dest: xor_counter_inj)
    moreover have "k mod 2 ^ 14 < 2 ^ 64" for k :: nat
      by (rule less_trans [OF mod_less_divisor]) simp_all
    ultimately have "i mod 2 ^ 14 = j mod 2 ^ 14"
      using of_nat_u64_inj by blast
    with epoch show ?thesis
      by (metis div_mult_mod_eq)
  qed
  then show ?thesis
    by (auto simp: distinct_map inj_on_def)
qed

section \<open>Properties\<close>

text \<open>Property C21 (seal_schedule): a fresh sender seals any number of datagrams without an error.  Datagram
  number \<open>i\<close> carries the epoch id \<open>i div 2^14\<close> (counted in eight bits from the first) and the counter \<open>i mod 2^14\<close>, and
  is sealed with the key of that epoch of the ratchet and the nonce of that counter.  So as long as
  the keys of the epochs differ, no key is used twice with the same nonce.\<close>

theorem seal_schedule:
  assumes "dgram_laws P" and "dgram_keys_wf P keys"
    and "list_all (\<lambda>(sid, ft, payload, aad). length payload < 2 ^ 32) items"
  shows "\<exists>sds tx'. seal_all P (datagram_tx_new keys) items = Some (sds, tx') \<and> length sds = length items \<and>
    (\<forall>i < length items. sealed_as P (dk_tx keys) i (items ! i) (sds ! i)) \<and>
    (inj_on (\<lambda>g. ek_key (keys_at P (dk_tx keys) g)) {..length items div 2 ^ 14} \<longrightarrow>
       distinct (map (\<lambda>i. (key_of P (dk_tx keys) i, nonce_of P (dk_tx keys) i)) [0..<length items]))"
  using seal_all_places [OF assms(1) _ sender_at_new [OF assms(2)] assms(3)] places_distinct assms(2)
  by (simp add: dgram_keys_wf_def)

lemma seal_schedule_witness:
  "\<exists>sds tx'. seal_all toy_crypto (datagram_tx_new demo_keys) [(1, Data, [5], []), (2, Close, [], [9])] = Some (sds, tx') \<and>
    length sds = 2 \<and> sealed_as toy_crypto (dk_tx demo_keys) 1 (2, Close, [], [9]) (sds ! 1) \<and>
    distinct (map (\<lambda>i. (key_of toy_crypto (dk_tx demo_keys) i, nonce_of toy_crypto (dk_tx demo_keys) i)) [0..<2])"
proof -
  let ?items = "[(1, Data, [5], []), (2, Close, [], [9])] :: seal_request list"
  have two: "length ?items = 2" and item: "?items ! 1 = (2, Close, [], [9])"
    by simp_all
  have fit: "list_all (\<lambda>(sid, ft, payload, aad). length payload < 2 ^ 32) ?items"
    by simp
  have one: "inj_on (\<lambda>g. ek_key (keys_at toy_crypto (dk_tx demo_keys) g)) {..2 div 2 ^ 14}"
    by simp
  obtain sds tx' where "seal_all toy_crypto (datagram_tx_new demo_keys) ?items = Some (sds, tx')" "length sds = 2"
    and sealed: "\<forall>i < 2. sealed_as toy_crypto (dk_tx demo_keys) i (?items ! i) (sds ! i)"
    and apart: "distinct (map (\<lambda>i. (key_of toy_crypto (dk_tx demo_keys) i, nonce_of toy_crypto (dk_tx demo_keys) i)) [0..<2])"
    using seal_schedule [OF toy_dgram_laws demo_keys_wf fit, unfolded two] one by blast
  moreover from sealed have "sealed_as toy_crypto (dk_tx demo_keys) 1 (2, Close, [], [9]) (sds ! 1)"
    using item by (metis one_less_numeral_iff semiring_norm(76))
  ultimately show ?thesis
    by blast
qed

end
