(* ===== verification/Decoy.thy ===== *)
theory Decoy
  imports Errors "HOL-Library.List_Lexorder"
begin

text \<open>
  The decoy of a node, \<open>engine/src/tlseng/decoy.rs\<close>: the masking mode, the catalogue of the
  domains the node owns, the check that turns a name into a \<open>DecoySni\<close>, and the lengths of
  the cover flight.  Strings are lists of Unicode scalar values, so that trimming, lower case
  and order are those of Rust's \<open>str\<close>, and the byte length is that of the UTF-8 encoding.
  The address parser of the standard library, which the check calls, is modelled reader by
  reader.  The lemmas characterise the accepted names without the parser.
\<close>

section \<open>Strings of the standard library\<close>

type_synonym rust_str = "nat list"

definition codes :: "string \<Rightarrow> rust_str" where
  "codes s = map of_char s"

definition utf8_char :: "nat \<Rightarrow> bytes" where
  "utf8_char c =
     (if c < 0x80 then [of_nat c]
      else if c < 0x800 then [of_nat (0xc0 + c div 64), of_nat (0x80 + c mod 64)]
      else if c < 0x10000 then
        [of_nat (0xe0 + c div 4096), of_nat (0x80 + c div 64 mod 64), of_nat (0x80 + c mod 64)]
      else [of_nat (0xf0 + c div 262144), of_nat (0x80 + c div 4096 mod 64),
            of_nat (0x80 + c div 64 mod 64), of_nat (0x80 + c mod 64)])"

definition utf8 :: "rust_str \<Rightarrow> bytes" where
  "utf8 s = concat (map utf8_char s)"

text \<open>The code points with the property White\_Space, which \<open>str::trim\<close> removes.\<close>

definition unicode_whitespace :: "nat \<Rightarrow> bool" where
  "unicode_whitespace c \<longleftrightarrow>
     9 \<le> c \<and> c \<le> 13 \<or> c = 32 \<or> c = 0x85 \<or> c = 0xa0 \<or> c = 0x1680 \<or> 0x2000 \<le> c \<and> c \<le> 0x200a \<or>
     c = 0x2028 \<or> c = 0x2029 \<or> c = 0x202f \<or> c = 0x205f \<or> c = 0x3000"

definition str_trim :: "rust_str \<Rightarrow> rust_str" where
  "str_trim s = rev (dropWhile unicode_whitespace (rev (dropWhile unicode_whitespace s)))"

definition trim_end_matches :: "nat \<Rightarrow> rust_str \<Rightarrow> rust_str" where
  "trim_end_matches c s = rev (dropWhile (\<lambda>x. x = c) (rev s))"

definition to_ascii_lowercase :: "rust_str \<Rightarrow> rust_str" where
  "to_ascii_lowercase s = map (\<lambda>c. if 65 \<le> c \<and> c \<le> 90 then c + 32 else c) s"

fun str_split :: "nat \<Rightarrow> rust_str \<Rightarrow> rust_str list" where
  "str_split sep [] = [[]]"
| "str_split sep (c # s) =
     (if c = sep then [] # str_split sep s
      else (case str_split sep s of [] \<Rightarrow> [[c]] | p # ps \<Rightarrow> (c # p) # ps))"

section \<open>Reading an address\<close>

text \<open>
  \<open>core::net\<close>: a reader gives a value and the rest of the bytes, or nothing and then its
  caller goes on with the bytes it had (\<open>read_atomically\<close>).
\<close>

type_synonym 'a reader = "bytes \<Rightarrow> ('a \<times> bytes) option"

datatype ip_addr = IpV4 "nat list" | IpV6 "nat list"

definition to_digit :: "nat \<Rightarrow> u8 \<Rightarrow> nat option" where
  "to_digit radix c =
     (let d = (if 0x30 \<le> c \<and> c \<le> 0x39 then unat (c - 0x30)
               else if 0x61 \<le> c \<and> c \<le> 0x7a then unat (c - 0x61) + 10
               else if 0x41 \<le> c \<and> c \<le> 0x5a then unat (c - 0x41) + 10
               else radix)
      in if d < radix then Some d else None)"

fun read_digits :: "nat \<Rightarrow> nat \<Rightarrow> nat \<Rightarrow> nat \<Rightarrow> (nat \<times> nat) reader" where
  "read_digits radix max_digits v n [] = Some ((v, n), [])"
| "read_digits radix max_digits v n (c # cs) =
     (case to_digit radix c of
        None \<Rightarrow> Some ((v, n), c # cs)
      | Some d \<Rightarrow>
          if max_digits < Suc n then None
          else read_digits radix max_digits (v * radix + d) (Suc n) cs)"

definition read_number :: "nat \<Rightarrow> nat \<Rightarrow> bool \<Rightarrow> nat \<Rightarrow> nat reader" where
  "read_number radix max_digits allow_zero_prefix bound bs =
     (let has_leading_zero = (take 1 bs = [0x30])
      in case read_digits radix max_digits 0 0 bs of
           None \<Rightarrow> None
         | Some ((v, n), rest) \<Rightarrow>
             if n = 0 then None
             else if \<not> allow_zero_prefix \<and> has_leading_zero \<and> 1 < n then None
             else if v < bound then Some (v, rest) else None)"

definition read_given_char :: "u8 \<Rightarrow> bytes \<Rightarrow> bytes option" where
  "read_given_char target bs = (case bs of [] \<Rightarrow> None | c # cs \<Rightarrow> if c = target then Some cs else None)"

definition read_separator :: "u8 \<Rightarrow> nat \<Rightarrow> 'a reader \<Rightarrow> 'a reader" where
  "read_separator sep index inner bs =
     (if 0 < index then Option.bind (read_given_char sep bs) inner else inner bs)"

fun read_octets :: "nat \<Rightarrow> nat \<Rightarrow> nat list reader" where
  "read_octets i 0 bs = Some ([], bs)"
| "read_octets i (Suc n) bs =
     (case read_separator 0x2e i (read_number 10 3 False 256) bs of
        None \<Rightarrow> None
      | Some (g, bs') \<Rightarrow> map_option (\<lambda>(gs, rest). (g # gs, rest)) (read_octets (Suc i) n bs'))"

definition read_ipv4_addr :: "nat list reader" where
  "read_ipv4_addr bs = read_octets 0 4 bs"

text \<open>The second number is how many groups are still free; the flag tells of a trailing IPv4 part.\<close>

fun read_groups :: "nat \<Rightarrow> nat \<Rightarrow> bytes \<Rightarrow> (nat list \<times> bool) \<times> bytes" where
  "read_groups i 0 bs = (([], False), bs)"
| "read_groups i (Suc left) bs =
     (case (if 0 < left then read_separator 0x3a i read_ipv4_addr bs else None) of
        Some (v4, rest) \<Rightarrow> (([v4 ! 0 * 256 + v4 ! 1, v4 ! 2 * 256 + v4 ! 3], True), rest)
      | None \<Rightarrow>
          (case read_separator 0x3a i (read_number 16 4 True 65536) bs of
             None \<Rightarrow> (([], False), bs)
           | Some (g, bs') \<Rightarrow>
               (let ((gs, v4), rest) = read_groups (Suc i) left bs' in ((g # gs, v4), rest))))"

definition read_ipv6_addr :: "nat list reader" where
  "read_ipv6_addr bs =
     (let ((head, head_ipv4), bs1) = read_groups 0 8 bs
      in if length head = 8 then Some (head, bs1)
         else if head_ipv4 then None
         else
           Option.bind (read_given_char 0x3a bs1) (\<lambda>bs2.
           Option.bind (read_given_char 0x3a bs2) (\<lambda>bs3.
             let limit = 8 - (length head + 1);
                 ((tail, _), rest) = read_groups 0 limit bs3
             in Some (head @ replicate (8 - length head - length tail) 0 @ tail, rest))))"

definition read_ip_addr :: "ip_addr reader" where
  "read_ip_addr bs =
     (case read_ipv4_addr bs of
        Some (g, rest) \<Rightarrow> Some (IpV4 g, rest)
      | None \<Rightarrow> map_option (\<lambda>(g, rest). (IpV6 g, rest)) (read_ipv6_addr bs))"

definition parse_ip_addr :: "bytes \<Rightarrow> ip_addr option" where
  "parse_ip_addr bs = (case read_ip_addr bs of Some (a, []) \<Rightarrow> Some a | _ \<Rightarrow> None)"

section \<open>Modes\<close>

datatype decoy_mode = Relay | SelfHosted

datatype decoy_error =
    DecoyEmpty
  | DecoyTooLong
  | DecoyIpLiteral
  | DecoyBadSyntax
  | DecoyNotOwned nat
  | DecoyUnknownMode

definition decoy_mode_default :: decoy_mode where
  "decoy_mode_default = Relay"

definition decoy_mode_parse :: "rust_str \<Rightarrow> (decoy_error, decoy_mode) result" where
  "decoy_mode_parse s =
     (let word = to_ascii_lowercase (str_trim s)
      in if word \<in> {codes ''relay'', codes ''reality'', codes ''borrowed''} then Ok Relay
         else if word \<in> {codes ''self-hosted'', codes ''self_hosted'', codes ''selfhosted'', codes ''owned'', codes ''utp''}
              then Ok SelfHosted
         else Err DecoyUnknownMode)"

fun honor_requested_sni :: "decoy_mode \<Rightarrow> bool" where
  "honor_requested_sni Relay = True"
| "honor_requested_sni SelfHosted = False"

fun decoy_mode_str :: "decoy_mode \<Rightarrow> rust_str" where
  "decoy_mode_str Relay = codes ''relay''"
| "decoy_mode_str SelfHosted = codes ''self-hosted''"

section \<open>The catalogue\<close>

datatype decoy_sni = DecoySni rust_str

fun decoy_sni_str :: "decoy_sni \<Rightarrow> rust_str" where
  "decoy_sni_str (DecoySni host) = host"

record decoy_catalog =
  dc_domains :: "rust_str list"

text \<open>The three calls both \<open>from_list\<close> and \<open>validate\<close> put a name through.\<close>

definition normalise_host :: "rust_str \<Rightarrow> rust_str" where
  "normalise_host d = to_ascii_lowercase (trim_end_matches (of_char CHR ''.'') (str_trim d))"

definition decoy_from_list :: "rust_str \<Rightarrow> decoy_catalog" where
  "decoy_from_list lst =
     (let domains = filter (\<lambda>d. d \<noteq> []) (map normalise_host (str_split (of_char CHR '','') lst))
      in \<lparr>dc_domains = remdups_adj (sort domains)\<rparr>)"

text \<open>The environment is an argument; a missing or unreadable variable is \<open>None\<close>.\<close>

definition decoy_domains_env :: rust_str where
  "decoy_domains_env = codes ''NETRUNNER_DECOY_DOMAINS''"

definition decoy_from_env :: "(rust_str \<Rightarrow> rust_str option) \<Rightarrow> decoy_catalog" where
  "decoy_from_env env =
     (case map_option decoy_from_list (env decoy_domains_env) of Some c \<Rightarrow> c | None \<Rightarrow> \<lparr>dc_domains = []\<rparr>)"

definition decoy_is_empty :: "decoy_catalog \<Rightarrow> bool" where
  "decoy_is_empty c \<longleftrightarrow> dc_domains c = []"

definition hostname_byte :: "u8 \<Rightarrow> bool" where
  "hostname_byte b \<longleftrightarrow>
     0x30 \<le> b \<and> b \<le> 0x39 \<or> 0x41 \<le> b \<and> b \<le> 0x5a \<or> 0x61 \<le> b \<and> b \<le> 0x7a \<or> b = 0x2e \<or> b = 0x2d"

definition decoy_validate :: "decoy_catalog \<Rightarrow> rust_str \<Rightarrow> (decoy_error, decoy_sni) result" where
  "decoy_validate c sni =
     (let host = normalise_host sni
      in if host = [] then Err DecoyEmpty
         else if 253 < length (utf8 host) then Err DecoyTooLong
         else if parse_ip_addr (utf8 host) \<noteq> None then Err DecoyIpLiteral
         else if \<not> list_all hostname_byte (utf8 host) then Err DecoyBadSyntax
         else if \<not> list_ex (\<lambda>d. d = host) (dc_domains c) then Err (DecoyNotOwned (length (dc_domains c)))
         else Ok (DecoySni host))"

record decoy =
  dy_sni :: decoy_sni
  dy_elements :: "rust_str list"

section \<open>The cover flight\<close>

record cover_flight =
  cf_records :: "u64 list"

definition sealed_overhead :: u64 where
  "sealed_overhead = 17"

definition cover_from_chain :: "u64 list \<Rightarrow> u64 \<Rightarrow> u64 \<Rightarrow> cover_flight" where
  "cover_from_chain cert_der_lens signature_len hash_len =
     (let encrypted_extensions = 4 + 2 + 7 + sealed_overhead;
          cert_body = sum_list (map (\<lambda>l. 3 + l + 2) cert_der_lens);
          certificate = 4 + 1 + 3 + cert_body + sealed_overhead;
          certificate_verify = 4 + 2 + 2 + signature_len + sealed_overhead;
          finished = 4 + hash_len + sealed_overhead
      in \<lparr>cf_records = [encrypted_extensions, certificate, certificate_verify, finished]\<rparr>)"

definition cover_node_default :: cover_flight where
  "cover_node_default = cover_from_chain [1250, 1100] 72 32"

section \<open>Which bytes the address parser accepts\<close>

definition digit_byte :: "nat \<Rightarrow> u8" where
  "digit_byte d = of_nat (48 + d)"

lemma unat_digit_byte: "d < 10 \<Longrightarrow> unat (digit_byte d) = 48 + d"
  unfolding digit_byte_def by (subst unat_of_nat) simp

lemma to_digit_10: "to_digit 10 c = Some d \<longleftrightarrow> d < 10 \<and> c = digit_byte d"
proof -
  have "unat (c - 0x30) = unat c - 48" if "0x30 \<le> c"
    using that by (simp add: unat_sub word_le_nat_alt)
  moreover have "c = digit_byte d \<longleftrightarrow> unat c = 48 + d" if "d < 10"
    using unat_digit_byte [OF that] by (metis word_unat_eq_iff)
  ultimately show ?thesis
    by (auto simp: to_digit_def Let_def word_le_nat_alt)
qed

lemma to_digit_byte [simp]: "d < 10 \<Longrightarrow> to_digit 10 (digit_byte d) = Some d"
  by (simp add: to_digit_10)

definition no_digit :: "bytes \<Rightarrow> bool" where
  "no_digit rest \<longleftrightarrow> rest = [] \<or> to_digit 10 (hd rest) = None"

lemma read_digits_iff:
  "n \<le> m \<Longrightarrow> read_digits 10 m v n bs = Some ((v', n'), rest) \<longleftrightarrow>
     (\<exists>ds. bs = map digit_byte ds @ rest \<and> n' = n + length ds \<and> n' \<le> m \<and> v' = foldl (\<lambda>a d. a * 10 + d) v ds \<and>
        (\<forall>d\<in>set ds. d < 10) \<and> no_digit rest)"
proof (induction bs arbitrary: v n)
  case Nil
  then show ?case
    by (auto simp: no_digit_def)
next
  case (Cons c cs)
  show ?case (is "?l = ?r")
  proof (cases "to_digit 10 c")
    case None
    then have empty: "ds = []" if "c # cs = map digit_byte ds @ rest" "\<forall>d\<in>set ds. d < 10" for ds
      using that by (cases ds) auto
    have "?l \<longleftrightarrow> v' = v \<and> n' = n \<and> rest = c # cs"
      using None by auto
    also have "\<dots> \<longleftrightarrow> ?r"
    proof
      assume "v' = v \<and> n' = n \<and> rest = c # cs"
      with None Cons.prems show ?r
        by (intro exI [of _ "[]"]) (simp add: no_digit_def)
    next
      assume ?r
      then obtain ds where ds: "c # cs = map digit_byte ds @ rest" "\<forall>d\<in>set ds. d < 10"
        "n' = n + length ds" "v' = foldl (\<lambda>a d. a * 10 + d) v ds"
        by blast
      with empty [OF ds(1,2)] show "v' = v \<and> n' = n \<and> rest = c # cs"
        by simp
    qed
    finally show ?thesis .
  next
    case (Some d)
    then have c: "d < 10" "c = digit_byte d"
      by (simp_all add: to_digit_10)
    show ?thesis
    proof
      assume ?l
      with Some have "\<not> m < Suc n" "read_digits 10 m (v * 10 + d) (Suc n) cs = Some ((v', n'), rest)"
        by (simp_all split: if_splits)
      then obtain ds where "cs = map digit_byte ds @ rest" "n' = Suc n + length ds" "n' \<le> m"
        "v' = foldl (\<lambda>a d. a * 10 + d) (v * 10 + d) ds" "\<forall>d\<in>set ds. d < 10" "no_digit rest"
        using Cons.IH [of "Suc n"] by auto
      with c show ?r
        by (intro exI [of _ "d # ds"]) simp
    next
      assume ?r
      then obtain ds where ds: "c # cs = map digit_byte ds @ rest" "n' = n + length ds" "n' \<le> m"
        "v' = foldl (\<lambda>a d. a * 10 + d) v ds" "\<forall>d\<in>set ds. d < 10" "no_digit rest"
        by blast
      with Some obtain ds' where "ds = d # ds'"
        by (cases ds) (auto simp: no_digit_def)
      with ds Some show ?l
        using Cons.IH [of "Suc n" "v * 10 + d"] by auto
    qed
  qed
qed

text \<open>The decimal form of a number below 256.\<close>

definition octet :: "nat \<Rightarrow> bytes" where
  "octet v = utf8 (codes (show_nat v))"

lemma utf8_Nil [simp]: "utf8 [] = []"
  and utf8_append [simp]: "utf8 (a @ b) = utf8 a @ utf8 b"
  and utf8_Cons: "utf8 (c # s) = utf8_char c @ utf8 s"
  by (simp_all add: utf8_def)

lemma codes_append [simp]: "codes (a @ b) = codes a @ codes b"
  by (simp add: codes_def)

lemma utf8_digit: "d < 10 \<Longrightarrow> utf8 (codes [char_of (48 + d)]) = [digit_byte d]"
  by (simp add: codes_def utf8_def utf8_char_def digit_byte_def)

lemma octet_digits:
  "v < 10 \<Longrightarrow> octet v = map digit_byte [v]"
  "10 \<le> v \<Longrightarrow> v < 100 \<Longrightarrow> octet v = map digit_byte [v div 10, v mod 10]"
  "100 \<le> v \<Longrightarrow> v < 1000 \<Longrightarrow> octet v = map digit_byte [v div 100, v div 10 mod 10, v mod 10]"
proof -
  show one: "octet v = map digit_byte [v]" if "v < 10" for v
    using that by (simp add: octet_def show_nat.simps utf8_digit)
  have step: "octet v = octet (v div 10) @ [digit_byte (v mod 10)]" if "10 \<le> v" for v
    using that by (simp add: octet_def show_nat.simps [of v] utf8_digit)
  show two: "octet v = map digit_byte [v div 10, v mod 10]" if "10 \<le> v" "v < 100" for v
  proof -
    have "v div 10 < 10"
      using that by simp
    with one [of "v div 10"] step [OF that(1)] show ?thesis
      by simp
  qed
  show "octet v = map digit_byte [v div 100, v div 10 mod 10, v mod 10]" if "100 \<le> v" "v < 1000"
  proof -
    have "10 \<le> v" "10 \<le> v div 10" "v div 10 < 100" "v div 10 div 10 = v div 100"
      using that by simp_all
    with two [of "v div 10"] step [of v] show ?thesis
      by simp
  qed
qed

lemma octet_list:
  assumes "v < 256"
  obtains ds where "octet v = map digit_byte ds" "\<forall>d\<in>set ds. d < 10"
    "v = foldl (\<lambda>a d. a * 10 + d) 0 ds" "ds \<noteq> []" "length ds \<le> 3" "1 < length ds \<longrightarrow> 0 < hd ds"
proof -
  consider "v < 10" | "10 \<le> v" "v < 100" | "100 \<le> v" "v < 1000"
    using assms by linarith
  then show thesis
  proof cases
    case 1
    then show thesis
      by (intro that [of "[v]"]) (simp_all add: octet_digits)
  next
    case 2
    then have "v div 10 < 10" "0 < v div 10"
      by simp_all
    then show thesis
      by (intro that [OF octet_digits(2) [OF 2]]) simp_all
  next
    case 3
    then have "v div 100 < 10" "0 < v div 100"
      by simp_all
    moreover have "v div 100 * 10 + v div 10 mod 10 = v div 10"
      using div_mult_mod_eq [of "v div 10" 10] by (simp add: div_mult2_eq [of v 10 10, simplified])
    ultimately have "v div 100 < 10" "0 < v div 100" "(v div 100 * 10 + v div 10 mod 10) * 10 + v mod 10 = v"
      by simp_all
    then show thesis
      by (intro that [OF octet_digits(3) [OF 3]]) simp_all
  qed
qed

lemma read_number_octet:
  "read_number 10 3 False 256 bs = Some (v, rest) \<longleftrightarrow> v < 256 \<and> bs = octet v @ rest \<and> no_digit rest"
  (is "?l = ?r")
proof
  assume ?l
  then obtain n where n: "read_digits 10 3 0 0 bs = Some ((v, n), rest)" "n \<noteq> 0" "v < 256"
    "take 1 bs = [0x30] \<longrightarrow> \<not> 1 < n"
    by (auto simp: read_number_def Let_def split: option.splits if_splits)
  then obtain ds where ds: "bs = map digit_byte ds @ rest" "n = length ds" "n \<le> 3"
    "v = foldl (\<lambda>a d. a * 10 + d) 0 ds" "\<forall>d\<in>set ds. d < 10" "no_digit rest"
    using read_digits_iff [of 0 3 0 bs v n rest] by auto
  have zero: "0 < hd ds" if "1 < length ds"
  proof (rule ccontr)
    assume "\<not> 0 < hd ds"
    then have "take 1 bs = [0x30]"
      using that ds(1) by (cases ds) (simp_all add: digit_byte_def)
    with n(4) that ds(2) show False
      by simp
  qed
  consider a where "ds = [a]" | a b where "ds = [a, b]" | a b c where "ds = [a, b, c]"
    using ds(2,3) n(2) by (cases ds; cases "tl ds"; cases "tl (tl ds)") auto
  then have "octet v = map digit_byte ds"
  proof cases
    case 1
    then show ?thesis
      using ds(4,5) by (simp add: octet_digits)
  next
    case (2 a b)
    then have "v = 10 * a + b" "a < 10" "b < 10" "0 < a"
      using ds(4,5) zero by auto
    then show ?thesis
      using 2 by (simp add: octet_digits)
  next
    case (3 a b c)
    then have "v = 100 * a + (10 * b + c)" "a < 10" "b < 10" "c < 10" "0 < a"
      using ds(4,5) zero by auto
    then have "v div 100 = a" "v div 10 = 10 * a + b" "100 \<le> v" "v < 1000"
      by (auto intro: div_nat_eqI)
    moreover have "v mod 10 = c"
      using \<open>v = 100 * a + (10 * b + c)\<close> \<open>c < 10\<close> mod_mult_self2 [of c 10 "10 * a + b"] by (simp add: algebra_simps)
    ultimately show ?thesis
      using 3 \<open>b < 10\<close> by (simp add: octet_digits)
  qed
  with ds n(3) show ?r
    by simp
next
  assume r: ?r
  then obtain ds where oct: "octet v = map digit_byte ds" "\<forall>d\<in>set ds. d < 10"
    "v = foldl (\<lambda>a d. a * 10 + d) 0 ds" "ds \<noteq> []" "length ds \<le> 3" "1 < length ds \<longrightarrow> 0 < hd ds"
    by (blast elim: octet_list)
  have read: "read_digits 10 3 0 0 bs = Some ((v, length ds), rest)"
    using read_digits_iff [of 0 3 0 bs v "length ds" rest] oct r by auto
  have "take 1 bs \<noteq> [0x30]" if "1 < length ds"
  proof -
    have "0 < hd ds" "hd ds < 10" "ds \<noteq> []"
      using that oct by (auto simp: hd_in_set)
    then have "digit_byte (hd ds) \<noteq> 0x30"
      using unat_digit_byte [of "hd ds"] by (auto simp: word_unat_eq_iff)
    then show ?thesis
      using r oct(1) \<open>ds \<noteq> []\<close> by (cases ds) auto
  qed
  with read oct(4) r show ?l
    by (auto simp: read_number_def Let_def)
qed
section \<open>The addresses without a colon\<close>

definition dotted_quad :: "nat \<Rightarrow> nat \<Rightarrow> nat \<Rightarrow> nat \<Rightarrow> rust_str" where
  "dotted_quad a b c d = codes (show_nat a @ ''.'' @ show_nat b @ ''.'' @ show_nat c @ ''.'' @ show_nat d)"

lemma utf8_dotted_quad:
  "utf8 (dotted_quad a b c d) = octet a @ 0x2e # octet b @ 0x2e # octet c @ 0x2e # octet d"
  by (simp add: dotted_quad_def octet_def) (simp add: codes_def utf8_def utf8_char_def of_char_def)

lemma read_separated_octet:
  "read_separator 0x2e i (read_number 10 3 False 256) bs = Some (v, rest) \<longleftrightarrow>
     v < 256 \<and> bs = (if 0 < i then [0x2e] else []) @ octet v @ rest \<and> no_digit rest"
  by (cases bs) (auto simp: read_separator_def read_given_char_def read_number_octet)

lemma no_digit_dot [simp]: "no_digit (0x2e # r)" "no_digit []"
  by (simp_all add: no_digit_def to_digit_def)

lemma read_ipv4_iff:
  "read_ipv4_addr bs = Some (g, rest) \<longleftrightarrow>
     (\<exists>a b c d. g = [a, b, c, d] \<and> a < 256 \<and> b < 256 \<and> c < 256 \<and> d < 256 \<and>
        bs = utf8 (dotted_quad a b c d) @ rest \<and> no_digit rest)"
proof -
  have four: "(4 :: nat) = Suc (Suc (Suc (Suc 0)))"
    by simp
  have zero: "read_octets i 0 bs = Some (g, rest) \<longleftrightarrow> g = [] \<and> bs = rest" for i bs g
    by auto
  have step: "read_octets i (Suc n) bs = Some (g, rest) \<longleftrightarrow>
      (\<exists>v bs' gs. g = v # gs \<and> read_separator 0x2e i (read_number 10 3 False 256) bs = Some (v, bs') \<and>
        read_octets (Suc i) n bs' = Some (gs, rest))" for i n bs g
    by (auto split: option.split)
  show ?thesis
    unfolding read_ipv4_addr_def four step zero read_separated_octet by (auto simp: utf8_dotted_quad)
qed

lemma read_digits_suffix: "read_digits r m v n bs = Some (x, rest) \<Longrightarrow> set rest \<subseteq> set bs"
  by (induction r m v n bs rule: read_digits.induct) (fastforce split: option.splits if_splits)+

lemma read_number_suffix: "read_number r m z w bs = Some (x, rest) \<Longrightarrow> set rest \<subseteq> set bs"
  by (auto simp: read_number_def Let_def split: option.splits if_splits dest: subsetD [OF read_digits_suffix])

lemma no_separator: "c \<notin> set bs \<Longrightarrow> read_given_char c bs = None"
  by (cases bs) (auto simp: read_given_char_def)

lemma read_groups_stop: "c \<notin> set bs \<Longrightarrow> c = 0x3a \<Longrightarrow> 0 < i \<Longrightarrow> read_groups i n bs = (([], False), bs)"
  by (cases n) (simp_all add: read_separator_def no_separator)

text \<open>Without a colon only the reader of IPv4 addresses can succeed.\<close>

lemma read_ipv6_no_colon:
  assumes "0x3a \<notin> set bs" "read_ipv4_addr bs = None"
  shows "read_ipv6_addr bs = None"
proof (cases "read_number 16 4 True 65536 bs")
  case None
  then have "read_groups 0 (Suc n) bs = (([], False), bs)" for n
    using assms(2) by (simp add: read_separator_def)
  from this [of 7] show ?thesis
    using assms(1) by (simp add: read_ipv6_addr_def no_separator)
next
  case (Some x)
  then obtain g rest where x: "read_number 16 4 True 65536 bs = Some (g, rest)" "0x3a \<notin> set rest"
    using assms(1) read_number_suffix by (cases x) blast
  have "read_groups (Suc 0) n rest = (([], False), rest)" for n
    using x(2) by (intro read_groups_stop) simp_all
  then have "read_groups 0 (Suc n) bs = (([g], False), rest)" for n
    using assms(2) x(1) by (simp add: read_separator_def)
  from this [of 7] show ?thesis
    using x(2) by (simp add: read_ipv6_addr_def no_separator)
qed

lemma parse_ip_no_colon:
  assumes "0x3a \<notin> set bs"
  shows "parse_ip_addr bs \<noteq> None \<longleftrightarrow>
    (\<exists>a b c d. a < 256 \<and> b < 256 \<and> c < 256 \<and> d < 256 \<and> bs = utf8 (dotted_quad a b c d))"
proof (cases "read_ipv4_addr bs")
  case None
  then have "parse_ip_addr bs = None"
    using read_ipv6_no_colon [OF assms] by (simp add: parse_ip_addr_def read_ip_addr_def)
  moreover have "\<not> (a < 256 \<and> b < 256 \<and> c < 256 \<and> d < 256 \<and> bs = utf8 (dotted_quad a b c d))" for a b c d
    using None read_ipv4_iff [of bs "[a, b, c, d]" "[]"] by auto
  ultimately show ?thesis
    by blast
next
  case (Some x)
  then obtain g rest where x: "read_ipv4_addr bs = Some (g, rest)"
    by (cases x) simp
  then have "parse_ip_addr bs \<noteq> None \<longleftrightarrow> rest = []"
    by (auto simp: parse_ip_addr_def read_ip_addr_def split: list.splits)
  also have "\<dots> \<longleftrightarrow> (\<exists>a b c d. a < 256 \<and> b < 256 \<and> c < 256 \<and> d < 256 \<and> bs = utf8 (dotted_quad a b c d))"
  proof
    assume "rest = []"
    with x show "\<exists>a b c d. a < 256 \<and> b < 256 \<and> c < 256 \<and> d < 256 \<and> bs = utf8 (dotted_quad a b c d)"
      using read_ipv4_iff [of bs g "[]"] by auto
  next
    assume "\<exists>a b c d. a < 256 \<and> b < 256 \<and> c < 256 \<and> d < 256 \<and> bs = utf8 (dotted_quad a b c d)"
    then have "\<exists>g'. read_ipv4_addr bs = Some (g', [])"
      using read_ipv4_iff [of bs _ "[]"] by auto
    with x show "rest = []"
      by simp
  qed
  finally show ?thesis .
qed

section \<open>Names\<close>

text \<open>The characters of a lower-case host name.\<close>

definition dns_char :: "nat \<Rightarrow> bool" where
  "dns_char c \<longleftrightarrow> 48 \<le> c \<and> c \<le> 57 \<or> 97 \<le> c \<and> c \<le> 122 \<or> c = 45 \<or> c = 46"

definition ipv4_literals :: "rust_str set" where
  "ipv4_literals = {dotted_quad a b c d | a b c d. a < 256 \<and> b < 256 \<and> c < 256 \<and> d < 256}"

definition no_upper :: "nat \<Rightarrow> bool" where
  "no_upper c \<longleftrightarrow> \<not> (65 \<le> c \<and> c \<le> 90)"

lemma normalise_no_upper: "list_all no_upper (normalise_host s)"
  by (auto simp: normalise_host_def to_ascii_lowercase_def list_all_iff no_upper_def)

lemma hostname_byte_char:
  assumes "no_upper c"
  shows "list_all hostname_byte (utf8_char c) \<longleftrightarrow> dns_char c"
proof (cases "c < 128")
  case True
  then have "unat (of_nat c :: u8) = c"
    by (simp add: unat_of_nat)
  with True assms show ?thesis
    by (auto simp: utf8_char_def hostname_byte_def dns_char_def no_upper_def word_le_nat_alt word_unat_eq_iff)
next
  case False
  have "unat (of_nat (128 + c mod 64) :: u8) = 128 + c mod 64"
    by (subst unat_of_nat) simp
  then have "\<not> hostname_byte (of_nat (128 + c mod 64))"
    by (simp add: hostname_byte_def word_le_nat_alt word_unat_eq_iff del: of_nat_add)
  with False show ?thesis
    by (simp add: utf8_char_def dns_char_def del: of_nat_add)
qed

lemma hostname_bytes:
  assumes "list_all no_upper s"
  shows "list_all hostname_byte (utf8 s) \<longleftrightarrow> list_all dns_char s"
  using assms by (induction s) (simp_all add: utf8_Cons hostname_byte_char)

lemma utf8_dns: "list_all dns_char s \<Longrightarrow> utf8 s = map of_nat s"
  by (induction s) (auto simp: utf8_Cons utf8_char_def dns_char_def)

lemma utf8_inj:
  assumes "list_all dns_char s" "list_all dns_char t" "utf8 s = utf8 t"
  shows "s = t"
proof -
  have "inj_on (of_nat :: nat \<Rightarrow> u8) {..<256}"
    by (rule inj_onI) (metis lessThan_iff unat_of_nat_u8)
  moreover have "set s \<union> set t \<subseteq> {..<256}"
    using assms(1,2) by (auto simp: list_all_iff dns_char_def)
  ultimately show ?thesis
    using assms by (simp add: utf8_dns map_inj_on inj_on_subset)
qed

lemma quad_char:
  assumes "x \<in> set (dotted_quad a b c d)"
  shows "x = 46 \<or> 48 \<le> x \<and> x \<le> 57"
proof -
  have digits: "48 \<le> x \<and> x \<le> 57" if "x \<in> set (codes (show_nat n))" for n
    using that
  proof (induction n rule: show_nat.induct)
    case (1 n)
    then show ?case
      by (subst (asm) (2) show_nat.simps) (auto simp: codes_def split: if_splits)
  qed
  have dot: "codes (CHR ''.'' # s) = 46 # codes s" for s
    by (simp add: codes_def of_char_def)
  show ?thesis
    using assms digits by (auto simp: dotted_quad_def dot)
qed

lemma dns_dotted_quad: "list_all dns_char (dotted_quad a b c d)"
  unfolding list_all_iff dns_char_def using quad_char by blast

lemma colon_not_hostname: "list_all hostname_byte bs \<Longrightarrow> 0x3a \<notin> set bs"
  by (auto simp: list_all_iff hostname_byte_def)

lemma parse_ip_dns:
  assumes "list_all dns_char s" "list_all no_upper s"
  shows "parse_ip_addr (utf8 s) \<noteq> None \<longleftrightarrow> s \<in> ipv4_literals"
proof -
  have "0x3a \<notin> set (utf8 s)"
    using colon_not_hostname assms hostname_bytes by blast
  moreover have "utf8 s = utf8 (dotted_quad a b c d) \<longleftrightarrow> s = dotted_quad a b c d" for a b c d
    using utf8_inj [OF assms(1) dns_dotted_quad] by blast
  ultimately show ?thesis
    using parse_ip_no_colon [of "utf8 s"] by (auto simp: ipv4_literals_def)
qed

lemma decoy_domains: "set (dc_domains (decoy_from_list lst)) = normalise_host ` set (str_split 44 lst) - {[]}"
  by (auto simp: decoy_from_list_def Let_def of_char_def)

lemma validate_ok_iff:
  "decoy_validate c sni = Ok (DecoySni h) \<longleftrightarrow>
     h = normalise_host sni \<and> h \<in> set (dc_domains c) \<and> h \<noteq> [] \<and> length h \<le> 253 \<and>
     list_all dns_char h \<and> h \<notin> ipv4_literals"
proof -
  have host: "list_all hostname_byte (utf8 (normalise_host sni)) \<longleftrightarrow> list_all dns_char (normalise_host sni)"
    by (rule hostname_bytes [OF normalise_no_upper])
  have "length (utf8 h) = length h" "parse_ip_addr (utf8 h) \<noteq> None \<longleftrightarrow> h \<in> ipv4_literals"
    if "h = normalise_host sni" "list_all dns_char h"
    using that parse_ip_dns normalise_no_upper by (simp_all add: utf8_dns)
  then show ?thesis
    by (auto simp: decoy_validate_def Let_def host list_ex_iff)
qed

text \<open>The catalogue is sorted and holds every normalised name once.\<close>

lemma sorted_dedup: "sorted xs \<Longrightarrow> sorted_wrt (<) (remdups_adj (xs :: 'a::linorder list))"
  by (induction xs rule: remdups_adj.induct) (auto simp: order.strict_iff_order)

lemma catalogue_canonical:
  "sorted_wrt (<) (dc_domains (decoy_from_list lst)) \<and>
   set (dc_domains (decoy_from_list lst)) = normalise_host ` set (str_split 44 lst) - {[]}"
  by (simp add: decoy_domains) (simp add: decoy_from_list_def Let_def sorted_dedup)

text \<open>A listed name need not be accepted: neither an address nor a name with a space before its dot is.\<close>

lemma listed_but_refused:
  "decoy_validate (decoy_from_list (codes ''a.com,10.0.0.1'')) (codes ''10.0.0.1'') = Err DecoyIpLiteral"
  "codes ''10.0.0.1'' \<in> set (dc_domains (decoy_from_list (codes ''a.com,10.0.0.1'')))"
  "codes ''a.com '' \<in> set (dc_domains (decoy_from_list (codes ''a.com .'')))"
  "decoy_validate (decoy_from_list (codes ''a.com .'')) (codes ''a.com '') = Err (DecoyNotOwned 1)"
proof -
  note defs = codes_def of_char_def str_trim_def unicode_whitespace_def trim_end_matches_def
    to_ascii_lowercase_def normalise_host_def
  have cat: "decoy_from_list (codes ''a.com,10.0.0.1'') = \<lparr>dc_domains = [codes ''10.0.0.1'', codes ''a.com'']\<rparr>"
    "decoy_from_list (codes ''a.com .'') = \<lparr>dc_domains = [codes ''a.com '']\<rparr>"
    by (simp_all add: defs decoy_from_list_def)
  have norm: "normalise_host (codes ''10.0.0.1'') = codes ''10.0.0.1''" "normalise_host (codes ''a.com '') = codes ''a.com''"
    by (simp_all add: defs)
  have ip: "parse_ip_addr (utf8 (codes ''10.0.0.1'')) = Some (IpV4 [10, 0, 0, 1])"
    by (simp add: codes_def of_char_def utf8_def utf8_char_def) code_simp
  have dns: "list_all dns_char (codes ''a.com'')" "list_all no_upper (codes ''a.com'')"
    by (simp_all add: codes_def of_char_def dns_char_def no_upper_def)
  show "codes ''10.0.0.1'' \<in> set (dc_domains (decoy_from_list (codes ''a.com,10.0.0.1'')))"
    "codes ''a.com '' \<in> set (dc_domains (decoy_from_list (codes ''a.com .'')))"
    by (simp_all add: cat)
  show "decoy_validate (decoy_from_list (codes ''a.com,10.0.0.1'')) (codes ''10.0.0.1'') = Err DecoyIpLiteral"
    using ip by (simp add: cat norm decoy_validate_def) (simp add: codes_def utf8_def utf8_char_def of_char_def)
  have "codes ''a.com'' \<notin> ipv4_literals"
  proof
    assume "codes ''a.com'' \<in> ipv4_literals"
    then obtain a b c d where "codes ''a.com'' = dotted_quad a b c d"
      by (auto simp: ipv4_literals_def)
    moreover have "97 \<in> set (codes ''a.com'')"
      by (simp add: codes_def of_char_def)
    ultimately show False
      using quad_char [of 97 a b c d] by simp
  qed
  then have "parse_ip_addr (utf8 (codes ''a.com'')) = None" "list_all hostname_byte (utf8 (codes ''a.com''))"
    using parse_ip_dns [OF dns] hostname_bytes [OF dns(2)] dns(1) by simp_all
  moreover have "length (utf8 (codes ''a.com'')) = 5" "codes ''a.com'' \<noteq> []" "codes ''a.com '' \<noteq> codes ''a.com''"
    using dns(1) by (simp_all add: utf8_dns) (simp_all add: codes_def of_char_def)
  ultimately show "decoy_validate (decoy_from_list (codes ''a.com .'')) (codes ''a.com '') = Err (DecoyNotOwned 1)"
    by (simp add: cat norm decoy_validate_def Let_def)
qed

text \<open>Without the variable the node owns nothing, so no name at all is accepted.\<close>

lemma unset_environment:
  "env decoy_domains_env = None \<Longrightarrow>
     decoy_is_empty (decoy_from_env env) \<and> decoy_validate (decoy_from_env env) sni \<noteq> Ok host"
  by (cases host) (simp add: decoy_is_empty_def validate_ok_iff, simp add: decoy_from_env_def)

lemma decoy_mode_roundtrip: "decoy_mode_parse (decoy_mode_str m) = Ok m"
  by (cases m) (simp_all add: decoy_mode_parse_def codes_def of_char_def str_trim_def unicode_whitespace_def to_ascii_lowercase_def)

text \<open>The certificate record grows byte for byte with the chain; the other three do not depend on it.\<close>

lemma cover_flight_chain:
  "cf_records (cover_from_chain (c # cs) sl hl) =
     (cf_records (cover_from_chain cs sl hl))[1 := cf_records (cover_from_chain cs sl hl) ! 1 + c + 5]"
  by (simp add: cover_from_chain_def Let_def algebra_simps)

section \<open>Properties\<close>

text \<open>Property C37 (accepted_sni): a name is accepted exactly if, normalised, it is one of the normalised
  names between the commas of the list, not empty, at most 253 characters long, made of
  lower-case letters, digits, dots and dashes only, and not an IPv4 address in dotted decimal;
  the accepted host is the normalised name.\<close>

theorem accepted_sni:
  "decoy_validate (decoy_from_list lst) sni = Ok (DecoySni h) \<longleftrightarrow>
     h = normalise_host sni \<and> h \<in> normalise_host ` set (str_split 44 lst) \<and> h \<noteq> [] \<and> length h \<le> 253 \<and>
     list_all dns_char h \<and> h \<notin> ipv4_literals"
  by (auto simp: validate_ok_iff decoy_domains)

end
