(* ===== verification/Logger.thy ===== *)
theory Logger
  imports Session_Auth Extension_Stack "HOL-Library.Sublist"
begin

text \<open>
  The logger of \<open>logger/src/lib.rs\<close>: one-time initialisation of the process-wide subscriber,
  the level filter that can be replaced while the process runs, the panic hook, and the
  writer that blanks IPv4 addresses before a record reaches the file or the standard output.
  The \<open>regex\<close>, \<open>tracing\<close> and \<open>tracing-appender\<close> crates are the parameters in \<open>log_libs\<close>; the
  \<open>Once\<close>, \<open>OnceLock\<close> and \<open>Write::write_all\<close> of the standard library are modelled.  The lemmas
  show that only the first initialisation acts and that in both production modes nothing but
  redacted text reaches the sink.
\<close>

section \<open>Writers\<close>

datatype io_error = Interrupted | Write_Zero | Other_Io nat

text \<open>
  A call of \<open>write\<close> on a writer: the outcome and the new state of what is behind it, or
  \<open>None\<close> when the call never returns.
\<close>

type_synonym 'w writer = "bytes \<Rightarrow> 'w \<Rightarrow> ((io_error, nat) result \<times> 'w) option"

text \<open>The provided method \<open>Write::write_all\<close>, which may retry for ever.\<close>

partial_function (option) write_all ::
  "'w writer \<Rightarrow> bytes \<Rightarrow> 'w \<Rightarrow> ((io_error, unit) result \<times> 'w) option" where
  "write_all wr buf w =
     (if buf = [] then Some (Ok (), w)
      else Option.bind (wr buf w) (\<lambda>(res, w').
        case res of
          Ok n \<Rightarrow>
            if n = 0 then Some (Err Write_Zero, w')
            else if length buf < n then Some (Panic, w')
            else write_all wr (drop n buf) w'
        | Err e \<Rightarrow> if e = Interrupted then write_all wr buf w' else Some (Err e, w')
        | Panic \<Rightarrow> Some (Panic, w')))"

declare write_all.simps [code]

text \<open>
  Where a layer's output goes.  Writing to \<open>Non_Blocking\<close> hands the text to the queue of a
  background thread, which may drop it; what the theorems say of it is about the text handed over.
\<close>

datatype sink = Daily_File bytes bytes | Non_Blocking sink | Std_Out

text \<open>The options set on a \<open>fmt\<close> layer, in the order of the calls.\<close>

datatype fmt_option =
    Fmt_Json | Flatten_Event bool | With_Current_Span bool | With_Span_List bool
  | With_Target bool | With_Line_Number bool | With_Ansi bool

datatype event_level = Level_Info | Level_Error

record log_entry =
  le_level :: event_level
  le_fields :: "(bytes \<times> bytes) list"
  le_message :: bytes

text \<open>
  What the crates provide: \<open>EnvFilter\<close> (\<open>lib_default_env\<close> is \<open>try_from_default_env\<close>), the
  regular expressions, the formatter, the rolling appender (which panics when its file
  cannot be opened), the Android layer, and the writing itself.
\<close>

record ('f, 're, 'w) log_libs =
  lib_default_env :: "'f option"
  lib_filter_new :: "bytes \<Rightarrow> 'f"
  lib_filter_try_new :: "bytes \<Rightarrow> 'f option"
  lib_enabled :: "'f \<Rightarrow> log_entry \<Rightarrow> bool"
  lib_regex_new :: "bytes \<Rightarrow> 're option"
  lib_replace_all :: "'re \<Rightarrow> bytes \<Rightarrow> bytes \<Rightarrow> bytes"
  lib_format :: "fmt_option list \<Rightarrow> log_entry \<Rightarrow> bytes"
  lib_daily_ok :: "bytes \<Rightarrow> bytes \<Rightarrow> bool"
  lib_sink_write :: "sink \<Rightarrow> 'w writer"
  lib_is_android :: bool
  lib_android_layer :: "bytes \<Rightarrow> bool"
  lib_android_event :: "bytes \<Rightarrow> log_entry \<Rightarrow> 'w \<Rightarrow> 'w"

section \<open>The redacting writer\<close>

definition redacted_mark :: bytes where
  "redacted_mark = ascii ''[redacted]''"

record ('v, 're) redacting_writer =
  rd_inner :: 'v
  rd_ip_regex :: 're

definition redacting_write ::
  "('f, 're, 'w) log_libs \<Rightarrow> ('w writer, 're) redacting_writer \<Rightarrow> 'w writer" where
  "redacting_write L self buf w =
     (if valid_utf8 buf
      then Option.bind (write_all (rd_inner self) (lib_replace_all L (rd_ip_regex self) buf redacted_mark) w)
        (\<lambda>(res, w'). Some (bind_result res (\<lambda>_. Ok (length buf)), w'))
      else rd_inner self buf w)"

text \<open>Flushing only forwards to the inner writer.\<close>

definition redacting_flush ::
  "('v \<Rightarrow> 'w \<Rightarrow> (io_error, unit) result \<times> 'w) \<Rightarrow> ('v, 're) redacting_writer \<Rightarrow> 'w \<Rightarrow>
     (io_error, unit) result \<times> 'w" where
  "redacting_flush inner_flush self w = inner_flush (rd_inner self) w"

text \<open>The pattern is the literal of the source; \<open>unwrap\<close> panics if it does not compile.\<close>

definition pii_ip_pattern :: bytes where
  "pii_ip_pattern =
     (let esc = CHR 0x5C
      in ascii ([esc] @ ''b(?:'' @ [esc] @ ''d{1,3}'' @ [esc] @ ''.){3}'' @ [esc] @ ''d{1,3}'' @ [esc] @ ''b''))"

definition pii_ip_regex :: "('f, 're, 'w) log_libs \<Rightarrow> (unit, 're) result" where
  "pii_ip_regex L = (case lib_regex_new L pii_ip_pattern of Some re \<Rightarrow> Ok re | None \<Rightarrow> Panic)"

text \<open>What a layer writes to: a sink as it is, or one behind the redactor.\<close>

datatype 're layer_writer = Plain sink | Redacting sink 're

definition redacting_make_writer ::
  "('f, 're, 'w) log_libs \<Rightarrow> sink \<Rightarrow> 're \<Rightarrow> ('w writer, 're) redacting_writer" where
  "redacting_make_writer L inner re = \<lparr>rd_inner = lib_sink_write L inner, rd_ip_regex = re\<rparr>"

fun make_writer :: "('f, 're, 'w) log_libs \<Rightarrow> 're layer_writer \<Rightarrow> 'w writer" where
  "make_writer L (Plain s) = lib_sink_write L s"
| "make_writer L (Redacting s re) = redacting_write L (redacting_make_writer L s re)"

section \<open>The process and its logger\<close>

text \<open>The \<open>Once\<close> of the standard library: a closure that panics poisons it.\<close>

datatype once = Incomplete | Poisoned | Complete

datatype 're layer = Fmt_Layer "fmt_option list" "'re layer_writer" | Android_Layer bytes

text \<open>The global subscriber of the process; another crate may have installed one.\<close>

datatype ('f, 're) subscriber = No_Subscriber | Registry 'f "'re layer" | Other_Subscriber

text \<open>
  The \<open>Logger\<close> in its static cell holds the handle of the filter, which is the filter field of
  the registry, and the guard of the file writer if there is one.
\<close>

record logger =
  lg_guard :: bool

record ('f, 're, 'w) process =
  pr_init :: once
  pr_logger :: "logger option"
  pr_subscriber :: "('f, 're) subscriber"
  pr_panic_hook :: bool
  pr_stderr :: "bytes list"
  pr_world :: 'w

definition fresh_process :: "'w \<Rightarrow> ('f, 're, 'w) process" where
  "fresh_process w =
     \<lparr>pr_init = Incomplete, pr_logger = None, pr_subscriber = No_Subscriber, pr_panic_hook = False,
      pr_stderr = [], pr_world = w\<rparr>"

definition eprintln :: "bytes \<Rightarrow> ('f, 're, 'w) process \<Rightarrow> ('f, 're, 'w) process" where
  "eprintln line p = p\<lparr>pr_stderr := pr_stderr p @ [line]\<rparr>"

text \<open>\<open>SubscriberInitExt::init\<close>: panics when the process already has a subscriber.\<close>

definition subscriber_init ::
  "'f \<Rightarrow> 're layer \<Rightarrow> ('f, 're, 'w) process \<Rightarrow> (unit, unit) result \<times> ('f, 're, 'w) process" where
  "subscriber_init flt layer p =
     (case pr_subscriber p of
        No_Subscriber \<Rightarrow> (Ok (), p\<lparr>pr_subscriber := Registry flt layer\<rparr>)
      | _ \<Rightarrow> (Panic, p))"

definition call_once ::
  "(('f, 're, 'w) process \<Rightarrow> (unit, unit) result \<times> ('f, 're, 'w) process) \<Rightarrow>
     ('f, 're, 'w) process \<Rightarrow> (unit, unit) result \<times> ('f, 're, 'w) process" where
  "call_once f p =
     (case pr_init p of
        Complete \<Rightarrow> (Ok (), p)
      | Poisoned \<Rightarrow> (Panic, p)
      | Incomplete \<Rightarrow>
          (case f p of
             (Ok u, p') \<Rightarrow> (Ok u, p'\<lparr>pr_init := Complete\<rparr>)
           | (_, p') \<Rightarrow> (Panic, p'\<lparr>pr_init := Poisoned\<rparr>)))"

text \<open>The layer that the mode selects, with whether it has a file guard.\<close>

definition file_layer :: "('f, 're, 'w) log_libs \<Rightarrow> bytes \<Rightarrow> (unit, 're layer) result" where
  "file_layer L path =
     (let name = ascii ''netrunner.json''
      in if \<not> lib_daily_ok L path name then Panic
         else bind_result (pii_ip_regex L) (\<lambda>re.
           Ok (Fmt_Layer [Fmt_Json, Flatten_Event True, With_Current_Span True, With_Span_List True, With_Ansi False]
                 (Redacting (Non_Blocking (Daily_File path name)) re))))"

definition stdout_layer :: "('f, 're, 'w) log_libs \<Rightarrow> (unit, 're layer) result" where
  "stdout_layer L =
     bind_result (pii_ip_regex L) (\<lambda>re. Ok (Fmt_Layer [Fmt_Json, With_Ansi False] (Redacting Std_Out re)))"

definition debug_layer :: "('f, 're, 'w) log_libs \<Rightarrow> (unit, 're layer) result" where
  "debug_layer L =
     (if lib_is_android L
      then (let tag = ascii ''NETRUNNER_RUST'' in if lib_android_layer L tag then Ok (Android_Layer tag) else Panic)
      else Ok (Fmt_Layer [With_Target True, With_Line_Number True, With_Ansi True] (Plain Std_Out)))"

definition install_layer ::
  "'f \<Rightarrow> (unit, 're layer) result \<Rightarrow> ('f, 're, 'w) process \<Rightarrow> (unit, unit) result \<times> ('f, 're, 'w) process" where
  "install_layer flt layer p =
     (case layer of Ok l \<Rightarrow> subscriber_init flt l p | Err u \<Rightarrow> (Err u, p) | Panic \<Rightarrow> (Panic, p))"

definition initialized_line :: "bytes option \<Rightarrow> bool \<Rightarrow> bytes" where
  "initialized_line log_dir is_production =
     ascii (''--- [DEBUG] Netrunner Logger initialized (Mode: '' @
            (if is_production then ''PROD'' else ''DEBUG'') @ '', File: '' @
            (if log_dir \<noteq> None then ''true'' else ''false'') @ '') ---'')"

definition init_filter :: "('f, 're, 'w) log_libs \<Rightarrow> 'f" where
  "init_filter L =
     (case lib_default_env L of Some f \<Rightarrow> f | None \<Rightarrow> lib_filter_new L (ascii ''info''))"

text \<open>The closure of \<open>Logger::init\<close>.\<close>

definition init_body ::
  "('f, 're, 'w) log_libs \<Rightarrow> bytes option \<Rightarrow> bool \<Rightarrow> ('f, 're, 'w) process \<Rightarrow>
     (unit, unit) result \<times> ('f, 're, 'w) process" where
  "init_body L log_dir is_production p =
     (let flt = init_filter L;
          ((res, p1), file_guard) =
            (if is_production
             then (case log_dir of
                     Some path \<Rightarrow>
                       (case install_layer flt (file_layer L path) p of
                          (Ok u, p0) \<Rightarrow> ((Ok u, p0\<lparr>pr_panic_hook := True\<rparr>), True)
                        | other \<Rightarrow> (other, False))
                   | None \<Rightarrow> (install_layer flt (stdout_layer L) p, False))
             else (install_layer flt (debug_layer L) p, False))
      in case res of
           Ok u \<Rightarrow>
             let p2 = (if pr_logger p1 = None then p1\<lparr>pr_logger := Some \<lparr>lg_guard = file_guard\<rparr>\<rparr> else p1)
             in (Ok u, eprintln (initialized_line log_dir is_production) p2)
         | other \<Rightarrow> (other, p1))"

definition logger_init ::
  "('f, 're, 'w) log_libs \<Rightarrow> bytes option \<Rightarrow> bool \<Rightarrow> ('f, 're, 'w) process \<Rightarrow>
     (unit, unit) result \<times> ('f, 're, 'w) process" where
  "logger_init L log_dir is_production = call_once (init_body L log_dir is_production)"

definition logger_global :: "('f, 're, 'w) process \<Rightarrow> (unit, logger) result" where
  "logger_global p = (case pr_logger p of Some l \<Rightarrow> Ok l | None \<Rightarrow> Panic)"

text \<open>Reloading writes through the handle into the filter of the registry.\<close>

definition set_level :: "('f, 're, 'w) log_libs \<Rightarrow> bytes \<Rightarrow> ('f, 're, 'w) process \<Rightarrow> ('f, 're, 'w) process" where
  "set_level L level p =
     (case lib_filter_try_new L level of
        Some new_filter \<Rightarrow>
          eprintln (ascii ''--- [DEBUG] Log level changed to: '' @ level @ ascii '' ---'')
            (case pr_subscriber p of
               Registry f layer \<Rightarrow> p\<lparr>pr_subscriber := Registry new_filter layer\<rparr>
             | _ \<Rightarrow> p)
      | None \<Rightarrow> p)"

section \<open>Events\<close>

text \<open>
  Handing an event to the subscriber: the \<open>fmt\<close> layer formats it and gives the whole text to
  \<open>write_all\<close> of a new writer, whose outcome it ignores.
\<close>

definition emit ::
  "('f, 're, 'w) log_libs \<Rightarrow> log_entry \<Rightarrow> ('f, 're, 'w) process \<Rightarrow> ('f, 're, 'w) process option" where
  "emit L ev p =
     (case pr_subscriber p of
        Registry f layer \<Rightarrow>
          if lib_enabled L f ev
          then (case layer of
                  Fmt_Layer opts mw \<Rightarrow>
                    map_option (\<lambda>(_, w). p\<lparr>pr_world := w\<rparr>) (write_all (make_writer L mw) (lib_format L opts ev) (pr_world p))
                | Android_Layer tag \<Rightarrow> Some (p\<lparr>pr_world := lib_android_event L tag ev (pr_world p)\<rparr>))
          else Some p
      | _ \<Rightarrow> Some p)"

definition log_info ::
  "('f, 're, 'w) log_libs \<Rightarrow> bytes \<Rightarrow> ('f, 're, 'w) process \<Rightarrow> ('f, 're, 'w) process option" where
  "log_info L msg = emit L \<lparr>le_level = Level_Info, le_fields = [], le_message = msg\<rparr>"

definition logger_log_error ::
  "('f, 're, 'w) log_libs \<Rightarrow> bytes \<Rightarrow> ('f, 're, 'w) process \<Rightarrow> ('f, 're, 'w) process option" where
  "logger_log_error L msg = emit L \<lparr>le_level = Level_Error, le_fields = [], le_message = msg\<rparr>"

definition err_sys_panic :: bytes where
  "err_sys_panic = ascii ''SYS_UNHANDLED_PANIC''"

definition panic_entry :: "bytes \<Rightarrow> log_entry" where
  "panic_entry panic_info =
     \<lparr>le_level = Level_Error,
      le_fields = [(ascii ''error_code'', err_sys_panic), (ascii ''panic_info'', panic_info)],
      le_message = ascii ''FATAL: Unhandled panic occurred. System is going down.''\<rparr>"

text \<open>
  A panic somewhere in the process: the hook of \<open>init\<close>, which logs the \<open>Debug\<close> text of what it is
  given, or the default one, which prints a report of its own.
\<close>

record panic_info =
  pi_debug :: bytes
  pi_report :: bytes

definition on_panic ::
  "('f, 're, 'w) log_libs \<Rightarrow> panic_info \<Rightarrow> ('f, 're, 'w) process \<Rightarrow> ('f, 're, 'w) process option" where
  "on_panic L info p =
     (if pr_panic_hook p then emit L (panic_entry (pi_debug info)) p else Some (eprintln (pi_report info) p))"

section \<open>Runs\<close>

text \<open>The calls the process makes; the level can only be set on the global logger.\<close>

datatype log_call =
    Call_Init "bytes option" bool | Call_Set_Level bytes
  | Call_Info bytes | Call_Error bytes | Call_Panic panic_info

fun run_call ::
  "('f, 're, 'w) log_libs \<Rightarrow> log_call \<Rightarrow> ('f, 're, 'w) process \<Rightarrow> ('f, 're, 'w) process option" where
  "run_call L (Call_Init d live) p = Some (snd (logger_init L d live p))"
| "run_call L (Call_Set_Level s) p = Some (case logger_global p of Ok l \<Rightarrow> set_level L s p | _ \<Rightarrow> p)"
| "run_call L (Call_Info m) p = log_info L m p"
| "run_call L (Call_Error m) p = logger_log_error L m p"
| "run_call L (Call_Panic i) p = on_panic L i p"

fun run_calls ::
  "('f, 're, 'w) log_libs \<Rightarrow> log_call list \<Rightarrow> ('f, 're, 'w) process \<Rightarrow> ('f, 're, 'w) process option" where
  "run_calls L [] p = Some p"
| "run_calls L (c # cs) p = Option.bind (run_call L c p) (run_calls L cs)"

text \<open>The events the calls hand to the subscriber if there is one.\<close>

fun call_events :: "log_call \<Rightarrow> log_entry list" where
  "call_events (Call_Init d live) = []"
| "call_events (Call_Set_Level s) = []"
| "call_events (Call_Info m) = [\<lparr>le_level = Level_Info, le_fields = [], le_message = m\<rparr>]"
| "call_events (Call_Error m) = [\<lparr>le_level = Level_Error, le_fields = [], le_message = m\<rparr>]"
| "call_events (Call_Panic i) = [panic_entry (pi_debug i)]"

section \<open>Only the first initialisation acts\<close>

definition layer_of :: "('f, 're, 'w) process \<Rightarrow> 're layer option" where
  "layer_of p = (case pr_subscriber p of Registry f l \<Rightarrow> Some l | _ \<Rightarrow> None)"

text \<open>What no call after the first initialisation changes.\<close>

definition same_setup :: "('f, 're, 'w) process \<Rightarrow> ('f, 're, 'w) process \<Rightarrow> bool" where
  "same_setup p p' \<longleftrightarrow> pr_init p' = pr_init p \<and> pr_logger p' = pr_logger p \<and>
     pr_panic_hook p' = pr_panic_hook p \<and> layer_of p' = layer_of p"

lemma same_setup_trans: "same_setup p q \<Longrightarrow> same_setup q r \<Longrightarrow> same_setup p r"
  by (simp add: same_setup_def)

lemma emit_setup: "emit L ev p = Some p' \<Longrightarrow> same_setup p p'"
  by (auto simp: emit_def same_setup_def layer_of_def split: subscriber.splits layer.splits if_splits)

lemma set_level_setup: "same_setup p (set_level L s p)"
  by (auto simp: set_level_def eprintln_def same_setup_def layer_of_def split: subscriber.splits option.splits)

lemma init_again: "pr_init p \<noteq> Incomplete \<Longrightarrow>
    logger_init L d live p = (if pr_init p = Complete then Ok () else Panic, p)"
  by (auto simp: logger_init_def call_once_def split: once.splits)

lemma run_call_setup:
  assumes "pr_init p \<noteq> Incomplete" "run_call L c p = Some p'"
  shows "same_setup p p'"
proof (cases c)
  case (Call_Init d live)
  then show ?thesis
    using assms by (auto simp: init_again same_setup_def)
next
  case (Call_Set_Level s)
  then show ?thesis
    using assms(2) set_level_setup [of p L s]
    by (cases "logger_global p") (auto simp: same_setup_def)
next
  case (Call_Panic i)
  then show ?thesis
    using assms(2) emit_setup [of L "panic_entry (pi_debug i)" p p']
    by (auto simp: on_panic_def eprintln_def same_setup_def layer_of_def split: if_splits)
qed (use assms(2) in \<open>auto simp: log_info_def logger_log_error_def intro: emit_setup\<close>)

lemma run_calls_setup:
  "pr_init p \<noteq> Incomplete \<Longrightarrow> run_calls L cs p = Some p' \<Longrightarrow> same_setup p p'"
proof (induction cs arbitrary: p)
  case (Cons c cs)
  then obtain q where q: "run_call L c p = Some q" "run_calls L cs q = Some p'"
    by (auto simp: bind_eq_Some_conv)
  have "same_setup p q"
    by (rule run_call_setup [OF Cons.prems(1) q(1)])
  then show ?case
    using Cons.IH [OF _ q(2)] Cons.prems(1) same_setup_trans [of p q p'] by (simp add: same_setup_def)
qed (simp add: same_setup_def)

lemma init_fresh:
  assumes "logger_init L d live (fresh_process w) = (res, p)"
  shows "pr_init p = (if res = Ok () then Complete else Poisoned)" "res = Ok () \<or> res = Panic"
    "logger_global p = (if res = Ok () then Ok \<lparr>lg_guard = live \<and> d \<noteq> None\<rparr> else Panic)"
  using assms
  by (auto simp: logger_init_def call_once_def init_body_def install_layer_def subscriber_init_def fresh_process_def
      eprintln_def logger_global_def Let_def split: result.splits option.splits if_splits prod.splits)

lemma init_hook:
  assumes "logger_init L d live (fresh_process w) = (res, p)"
  shows "pr_panic_hook p \<longleftrightarrow> res = Ok () \<and> live \<and> d \<noteq> None"
  using assms
  by (auto simp: logger_init_def call_once_def init_body_def install_layer_def subscriber_init_def fresh_process_def
      eprintln_def Let_def split: result.splits option.splits if_splits prod.splits)

section \<open>What reaches the sink\<close>

text \<open>
  The contract of \<open>Write\<close>: \<open>Ok n\<close> means that the first \<open>n\<close> bytes of the buffer went out,
  an error that none did.  A working writer makes progress whenever it is asked.
\<close>

definition honest_writer :: "('w \<Rightarrow> bytes) \<Rightarrow> 'w writer \<Rightarrow> bool" where
  "honest_writer log wr \<longleftrightarrow> (\<forall>buf w res w'. wr buf w = Some (res, w') \<longrightarrow>
     (case res of Ok n \<Rightarrow> n \<le> length buf \<and> log w' = log w @ take n buf | _ \<Rightarrow> log w' = log w))"

definition working_writer :: "('w \<Rightarrow> bytes) \<Rightarrow> 'w writer \<Rightarrow> bool" where
  "working_writer log wr \<longleftrightarrow> (\<forall>buf w. buf \<noteq> [] \<longrightarrow> (\<exists>n w'. wr buf w = Some (Ok n, w') \<and>
     0 < n \<and> n \<le> length buf \<and> log w' = log w @ take n buf))"

lemma honest_cases:
  assumes "honest_writer log wr" "wr buf w = Some (res, w')"
  shows "\<And>n. res = Ok n \<Longrightarrow> n \<le> length buf \<and> log w' = log w @ take n buf"
    "\<forall>n. res \<noteq> Ok n \<Longrightarrow> log w' = log w"
  using assms unfolding honest_writer_def by (fastforce split: result.splits)+

lemma write_all_prefix:
  assumes "write_all wr buf w = Some x" "honest_writer log wr"
  shows "\<exists>piece. prefix piece buf \<and> log (snd x) = log w @ piece \<and> (fst x = Ok () \<longrightarrow> piece = buf) \<and>
    fst x \<noteq> Err Interrupted"
  using assms
proof (induction rule: write_all.raw_induct [rotated, consumes 1, case_names step])
  case (step wa wr buf w x)
  show ?case
  proof (cases "buf = []")
    case True
    with step show ?thesis
      by (auto intro: exI [of _ "[]"])
  next
    case False
    with step(2) obtain res w1 where wr: "wr buf w = Some (res, w1)"
      by (auto simp: bind_eq_Some_conv)
    note law = honest_cases [OF step(3) wr]
    show ?thesis
    proof (cases res)
      case (Ok n)
      show ?thesis
      proof (cases "n = 0")
        case True
        with Ok law(1) step(2) False wr show ?thesis
          by (auto intro: exI [of _ "[]"])
      next
        case n: False
        have n': "n \<le> length buf" "log w1 = log w @ take n buf"
          using law(1) Ok by simp_all
        with step(2) False wr Ok n have "wa wr (drop n buf) w1 = Some x"
          by simp
        from step(1) [OF this step(3)] obtain piece where
          "prefix piece (drop n buf)" "log (snd x) = log w1 @ piece" "fst x = Ok () \<longrightarrow> piece = drop n buf"
          "fst x \<noteq> Err Interrupted"
          by blast
        with n' show ?thesis
          by (intro exI [of _ "take n buf @ piece"]) (metis append_assoc append_take_drop_id same_prefix_prefix)
      qed
    next
      case (Err e)
      have log: "log w1 = log w"
        using law(2) Err by simp
      show ?thesis
      proof (cases "e = Interrupted")
        case True
        with step(2) False wr Err have "wa wr buf w1 = Some x"
          by simp
        from step(1) [OF this step(3)] log show ?thesis
          by simp
      next
        case False
        with step(2) \<open>buf \<noteq> []\<close> wr Err log show ?thesis
          by (auto intro: exI [of _ "[]"])
      qed
    next
      case Panic
      with step(2) False wr law(2) show ?thesis
        by (auto intro: exI [of _ "[]"])
    qed
  qed
qed

lemma write_all_works:
  assumes "working_writer log wr"
  shows "\<exists>w'. write_all wr buf w = Some (Ok (), w') \<and> log w' = log w @ buf"
proof (induction "length buf" arbitrary: buf w rule: less_induct)
  case less
  show ?case
  proof (cases "buf = []")
    case True
    then show ?thesis
      by (simp add: write_all.simps)
  next
    case False
    then obtain n w1 where n: "wr buf w = Some (Ok n, w1)" "0 < n" "n \<le> length buf" "log w1 = log w @ take n buf"
      using assms unfolding working_writer_def by blast
    have "length (drop n buf) < length buf"
      using n(2,3) by simp
    from less [OF this] obtain w' where "write_all wr (drop n buf) w1 = Some (Ok (), w')"
      "log w' = log w1 @ drop n buf"
      by blast
    with n False show ?thesis
      by (subst write_all.simps) simp
  qed
qed

text \<open>Behind the redactor a text goes out redacted, or cut short by an error of the sink.\<close>

lemma redacting_write_prefix:
  assumes "redacting_write L self buf w = Some x" "honest_writer log (rd_inner self)" "valid_utf8 buf"
  shows "\<exists>piece. prefix piece (lib_replace_all L (rd_ip_regex self) buf redacted_mark) \<and>
    log (snd x) = log w @ piece \<and> (\<exists>e. fst x = Err e \<and> e \<noteq> Interrupted \<or> fst x = Ok (length buf) \<or> fst x = Panic)"
proof -
  obtain y where y: "write_all (rd_inner self) (lib_replace_all L (rd_ip_regex self) buf redacted_mark) w = Some y"
    "x = (bind_result (fst y) (\<lambda>_. Ok (length buf)), snd y)"
    using assms(1,3) by (auto simp: redacting_write_def bind_eq_Some_conv)
  from write_all_prefix [OF y(1) assms(2)] show ?thesis
    by (cases "fst y") (auto simp: y(2))
qed

lemma redacted_text:
  assumes "write_all (redacting_write L self) text w = Some x" "honest_writer log (rd_inner self)" "valid_utf8 text"
  shows "\<exists>piece. prefix piece (lib_replace_all L (rd_ip_regex self) text redacted_mark) \<and> log (snd x) = log w @ piece"
proof (cases "text = []")
  case True
  with assms(1) show ?thesis
    by (auto simp: write_all.simps intro: exI [of _ "[]"])
next
  case False
  with assms(1) obtain y where y: "redacting_write L self text w = Some y"
    by (subst (asm) write_all.simps) (auto simp: bind_eq_Some_conv)
  obtain piece where piece: "prefix piece (lib_replace_all L (rd_ip_regex self) text redacted_mark)"
    "log (snd y) = log w @ piece"
    and res: "\<exists>e. fst y = Err e \<and> e \<noteq> Interrupted \<or> fst y = Ok (length text) \<or> fst y = Panic"
    using redacting_write_prefix [OF y assms(2,3)] by blast
  have "snd x = snd y"
    using assms(1) y False res by (cases y) (auto simp: write_all.simps)
  with piece show ?thesis
    by auto
qed

lemma redacted_text_works:
  assumes "working_writer log (rd_inner self)" "valid_utf8 text" "text \<noteq> []"
  shows "\<exists>w'. write_all (redacting_write L self) text w = Some (Ok (), w') \<and>
    log w' = log w @ lib_replace_all L (rd_ip_regex self) text redacted_mark"
proof -
  obtain w' where "write_all (rd_inner self) (lib_replace_all L (rd_ip_regex self) text redacted_mark) w = Some (Ok (), w')"
    "log w' = log w @ lib_replace_all L (rd_ip_regex self) text redacted_mark"
    using write_all_works [OF assms(1)] by blast
  then show ?thesis
    using assms(2,3) by (intro exI [of _ w']) (simp add: write_all.simps redacting_write_def)
qed

section \<open>Production\<close>

definition production_layer :: "('f, 're, 'w) log_libs \<Rightarrow> bytes option \<Rightarrow> (unit, 're layer) result" where
  "production_layer L d = (case d of Some path \<Rightarrow> file_layer L path | None \<Rightarrow> stdout_layer L)"

definition production_sink :: "bytes option \<Rightarrow> sink" where
  "production_sink d = (case d of Some path \<Rightarrow> Non_Blocking (Daily_File path (ascii ''netrunner.json'')) | None \<Rightarrow> Std_Out)"

definition production_options :: "bytes option \<Rightarrow> fmt_option list" where
  "production_options d = (case d of
     Some path \<Rightarrow> [Fmt_Json, Flatten_Event True, With_Current_Span True, With_Span_List True, With_Ansi False]
   | None \<Rightarrow> [Fmt_Json, With_Ansi False])"

lemma production_layer_ok:
  assumes "production_layer L d = Ok l"
  obtains re where "lib_regex_new L pii_ip_pattern = Some re"
    "l = Fmt_Layer (production_options d) (Redacting (production_sink d) re)"
  using assms
  by (auto simp: production_layer_def file_layer_def stdout_layer_def pii_ip_regex_def production_options_def
      production_sink_def Let_def split: option.splits if_splits)

lemma init_production:
  assumes "logger_init L d True (fresh_process w) = (Ok (), p)"
  shows "\<exists>l. production_layer L d = Ok l \<and> layer_of p = Some l" "pr_world p = w" "pr_panic_hook p = (d \<noteq> None)"
    "pr_init p = Complete"
  using assms
  by (auto simp: logger_init_def call_once_def init_body_def install_layer_def subscriber_init_def fresh_process_def
      eprintln_def production_layer_def layer_of_def Let_def split: result.splits option.splits if_splits prod.splits)

definition redacted_entry :: "('f, 're, 'w) log_libs \<Rightarrow> bytes option \<Rightarrow> 're \<Rightarrow> log_entry \<Rightarrow> bytes" where
  "redacted_entry L d re ev = lib_replace_all L re (lib_format L (production_options d) ev) redacted_mark"

text \<open>The sink got pieces of redacted entries, one each for some of the events, in their order.\<close>

definition wrote_redacted ::
  "('f, 're, 'w) log_libs \<Rightarrow> bytes option \<Rightarrow> 're \<Rightarrow> log_entry list \<Rightarrow> bytes \<Rightarrow> bytes \<Rightarrow> bool" where
  "wrote_redacted L d re evs before after \<longleftrightarrow>
     (\<exists>pieces written. after = before @ concat pieces \<and> subseq written evs \<and>
        list_all2 (\<lambda>piece ev. prefix piece (redacted_entry L d re ev)) pieces written)"

lemma wrote_nothing: "wrote_redacted L d re evs before before"
  by (auto simp: wrote_redacted_def intro: exI [of _ "[]"])

lemma wrote_one: "prefix piece (redacted_entry L d re ev) \<Longrightarrow> wrote_redacted L d re [ev] before (before @ piece)"
  unfolding wrote_redacted_def by (intro exI [of _ "[piece]"] exI [of _ "[ev]"]) simp

lemma wrote_append:
  assumes "wrote_redacted L d re evs before mid" "wrote_redacted L d re evs' mid after"
  shows "wrote_redacted L d re (evs @ evs') before after"
proof -
  obtain ps ws ps' ws' where "mid = before @ concat ps" "subseq ws evs"
    "list_all2 (\<lambda>piece ev. prefix piece (redacted_entry L d re ev)) ps ws"
    "after = mid @ concat ps'" "subseq ws' evs'"
    "list_all2 (\<lambda>piece ev. prefix piece (redacted_entry L d re ev)) ps' ws'"
    using assms unfolding wrote_redacted_def by blast
  then show ?thesis
    unfolding wrote_redacted_def
    by (intro exI [of _ "ps @ ps'"] exI [of _ "ws @ ws'"]) (simp add: list_emb_append_mono list_all2_appendI)
qed

text \<open>The layer a production process has, and the writer its entries go through.\<close>

definition in_production :: "('f, 're, 'w) log_libs \<Rightarrow> bytes option \<Rightarrow> 're \<Rightarrow> ('f, 're, 'w) process \<Rightarrow> bool" where
  "in_production L d re p \<longleftrightarrow> pr_init p = Complete \<and>
     layer_of p = Some (Fmt_Layer (production_options d) (Redacting (production_sink d) re))"

lemma emit_production:
  assumes "in_production L d re p" "emit L ev p = Some p'"
    and "honest_writer log (lib_sink_write L (production_sink d))" "\<forall>opts ev. valid_utf8 (lib_format L opts ev)"
  shows "wrote_redacted L d re [ev] (log (pr_world p)) (log (pr_world p'))"
proof -
  obtain f where reg: "pr_subscriber p = Registry f (Fmt_Layer (production_options d) (Redacting (production_sink d) re))"
    using assms(1) by (auto simp: in_production_def layer_of_def split: subscriber.splits)
  let ?rw = "redacting_make_writer L (production_sink d) re"
  show ?thesis
  proof (cases "lib_enabled L f ev")
    case True
    then obtain x where x: "write_all (redacting_write L ?rw) (lib_format L (production_options d) ev) (pr_world p) = Some x"
      "p' = p\<lparr>pr_world := snd x\<rparr>"
      using assms(2) reg by (auto simp: emit_def)
    then obtain piece where "prefix piece (redacted_entry L d re ev)" "log (snd x) = log (pr_world p) @ piece"
      using redacted_text [OF x(1), of log] assms(3,4) by (auto simp: redacting_make_writer_def redacted_entry_def)
    with x(2) show ?thesis
      by (simp add: wrote_one)
  next
    case False
    with assms(2) reg show ?thesis
      by (simp add: emit_def wrote_nothing)
  qed
qed

lemma run_call_production:
  assumes "in_production L d re p" "run_call L c p = Some p'"
    and "honest_writer log (lib_sink_write L (production_sink d))" "\<forall>opts ev. valid_utf8 (lib_format L opts ev)"
  shows "wrote_redacted L d re (call_events c) (log (pr_world p)) (log (pr_world p'))"
proof (cases c)
  case (Call_Init d' live)
  then show ?thesis
    using assms(1,2) by (auto simp: in_production_def init_again wrote_nothing)
next
  case (Call_Set_Level s)
  have "pr_world (set_level L s p) = pr_world p"
    by (auto simp: set_level_def eprintln_def split: option.splits subscriber.splits)
  with Call_Set_Level assms(2) show ?thesis
    by (cases "logger_global p") (auto simp: wrote_nothing)
next
  case (Call_Panic i)
  then show ?thesis
    using assms(2) emit_production [OF assms(1) _ assms(3,4)]
    by (auto simp: on_panic_def eprintln_def wrote_nothing split: if_splits)
qed (use assms(2) in \<open>auto simp: log_info_def logger_log_error_def intro: emit_production [OF assms(1) _ assms(3,4)]\<close>)

lemma run_calls_production:
  assumes "in_production L d re p" "run_calls L cs p = Some p'"
    and "honest_writer log (lib_sink_write L (production_sink d))" "\<forall>opts ev. valid_utf8 (lib_format L opts ev)"
  shows "wrote_redacted L d re (concat (map call_events cs)) (log (pr_world p)) (log (pr_world p'))"
  using assms(1,2)
proof (induction cs arbitrary: p)
  case (Cons c cs)
  then obtain q where q: "run_call L c p = Some q" "run_calls L cs q = Some p'"
    by (auto simp: bind_eq_Some_conv)
  have "in_production L d re q"
    using run_call_setup [OF _ q(1)] Cons.prems(1) by (simp add: in_production_def same_setup_def)
  from wrote_append [OF run_call_production [OF Cons.prems(1) q(1) assms(3,4)] Cons.IH [OF this q(2)]]
  show ?case
    by simp
qed (simp add: wrote_nothing)

text \<open>With a sink that works, an enabled entry arrives complete.\<close>

lemma entry_written:
  assumes "in_production L d re p" "pr_subscriber p = Registry f l" "lib_enabled L f ev"
    and "working_writer log (lib_sink_write L (production_sink d))"
    and "\<forall>opts ev. lib_format L opts ev \<noteq> [] \<and> valid_utf8 (lib_format L opts ev)"
  shows "\<exists>p'. emit L ev p = Some p' \<and> log (pr_world p') = log (pr_world p) @ redacted_entry L d re ev"
proof -
  have l: "l = Fmt_Layer (production_options d) (Redacting (production_sink d) re)"
    using assms(1,2) by (simp add: in_production_def layer_of_def)
  let ?rw = "redacting_make_writer L (production_sink d) re"
  obtain w' where "write_all (redacting_write L ?rw) (lib_format L (production_options d) ev) (pr_world p) = Some (Ok (), w')"
    "log w' = log (pr_world p) @ redacted_entry L d re ev"
    using redacted_text_works [of log ?rw "lib_format L (production_options d) ev" L "pr_world p"] assms(4,5)
    by (auto simp: redacting_make_writer_def redacted_entry_def)
  then show ?thesis
    using assms(2,3) by (simp add: emit_def l)
qed

lemma emit_returns:
  assumes "in_production L d re p" "working_writer log (lib_sink_write L (production_sink d))"
    and "\<forall>opts ev. lib_format L opts ev \<noteq> [] \<and> valid_utf8 (lib_format L opts ev)"
  shows "\<exists>p'. emit L ev p = Some p'"
proof -
  obtain f l where reg: "pr_subscriber p = Registry f l"
    using assms(1) by (auto simp: in_production_def layer_of_def split: subscriber.splits)
  show ?thesis
    using entry_written [OF assms(1) reg _ assms(2,3)] by (cases "lib_enabled L f ev") (auto simp: emit_def reg)
qed

text \<open>So the calls of a production process all return.\<close>

lemma run_calls_return:
  assumes "in_production L d re p" "working_writer log (lib_sink_write L (production_sink d))"
    and "\<forall>opts ev. lib_format L opts ev \<noteq> [] \<and> valid_utf8 (lib_format L opts ev)"
  shows "\<exists>p'. run_calls L cs p = Some p'"
  using assms(1)
proof (induction cs arbitrary: p)
  case (Cons c cs)
  have "\<exists>q. run_call L c p = Some q"
    using emit_returns [OF Cons.prems assms(2,3)]
    by (cases c) (simp_all add: log_info_def logger_log_error_def on_panic_def)
  then obtain q where q: "run_call L c p = Some q"
    by blast
  have "in_production L d re q"
    using run_call_setup [OF _ q] Cons.prems by (simp add: in_production_def same_setup_def)
  with Cons.IH q show ?case
    by simp
qed simp

section \<open>Properties\<close>

text \<open>Libraries for the examples: every sink appends, the formatter keeps the ASCII bytes of the
  message behind a bracket, and the pattern matches a message that is one address.\<close>

definition demo_libs :: "(bool, bytes, sink \<Rightarrow> bytes) log_libs" where
  "demo_libs =
     \<lparr>lib_default_env = None, lib_filter_new = (\<lambda>s. True), lib_filter_try_new = (\<lambda>s. Some (s \<noteq> ascii ''off'')),
      lib_enabled = (\<lambda>f ev. f), lib_regex_new = (\<lambda>pattern. Some pattern),
      lib_replace_all = (\<lambda>re s mark. if s = ascii ''{10.0.0.1'' then ascii ''{'' @ mark else s),
      lib_format = (\<lambda>opts ev. ascii ''{'' @ filter (\<lambda>b. b < 0x80) (le_message ev)),
      lib_daily_ok = (\<lambda>path name. True),
      lib_sink_write = (\<lambda>s buf w. Some (Ok (length buf), w(s := w s @ buf))),
      lib_is_android = False, lib_android_layer = (\<lambda>tag. True), lib_android_event = (\<lambda>tag ev w. w)\<rparr>"

abbreviation demo_process :: "(bool, bytes, sink \<Rightarrow> bytes) process" where
  "demo_process \<equiv> fresh_process (\<lambda>s. [])"

lemma demo_sink_honest: "honest_writer (\<lambda>w. w Std_Out) (lib_sink_write demo_libs Std_Out)"
  by (auto simp: honest_writer_def demo_libs_def)

lemma valid_utf8_ascii: "list_all (\<lambda>b. b < 0x80) bs \<Longrightarrow> valid_utf8 bs"
  by (induction bs) simp_all

lemma demo_format: "valid_utf8 (lib_format demo_libs opts ev)"
  by (rule valid_utf8_ascii) (simp add: demo_libs_def ascii_def list_all_iff of_char_def)

lemma demo_init:
  "logger_init demo_libs None True demo_process =
     (Ok (), \<lparr>pr_init = Complete, pr_logger = Some \<lparr>lg_guard = False\<rparr>,
        pr_subscriber = Registry True (Fmt_Layer [Fmt_Json, With_Ansi False] (Redacting Std_Out pii_ip_pattern)),
        pr_panic_hook = False, pr_stderr = [initialized_line None True], pr_world = (\<lambda>s. [])\<rparr>)"
  by (simp add: logger_init_def call_once_def init_body_def install_layer_def subscriber_init_def fresh_process_def
      stdout_layer_def pii_ip_regex_def init_filter_def eprintln_def demo_libs_def)

definition demo_production :: "(bool, bytes, sink \<Rightarrow> bytes) process" where
  "demo_production = snd (logger_init demo_libs None True demo_process)"

definition demo_calls :: "log_call list" where
  "demo_calls = [Call_Set_Level (ascii ''debug''), Call_Init (Some (ascii ''/var/log'')) True,
     Call_Info (ascii ''10.0.0.1''), Call_Set_Level (ascii ''off''), Call_Error (ascii ''hidden'')]"

definition demo_panic :: panic_info where
  "demo_panic = \<lparr>pi_debug = ascii ''10.0.0.1'', pi_report = ascii ''peer 10.0.0.1''\<rparr>"

lemma demo_output:
  "map_option (\<lambda>p. pr_world p Std_Out) (run_calls demo_libs demo_calls demo_production) = Some (ascii ''{[redacted]'')"
  by code_simp

lemma demo_run:
  obtains p where "run_calls demo_libs demo_calls demo_production = Some p" "pr_world p Std_Out = ascii ''{[redacted]''"
  using demo_output by auto

text \<open>Property C38 (init_acts_once): before the first initialisation there is no global logger; after it, whatever
  the process calls next, a further initialisation has the same outcome (it returns, or panics because the
  first one did) and changes nothing, the layer and the panic hook stay those of the first call, and the global
  logger exists exactly if the first call returned, holding a file guard exactly in production with a directory.\<close>

theorem init_acts_once:
  assumes "logger_init L d live (fresh_process w) = (res, p1)" and "run_calls L cs p1 = Some p2"
  shows "logger_global (fresh_process w) = Panic \<and> logger_init L d' live' p2 = (res, p2) \<and> same_setup p1 p2 \<and>
    logger_global p2 = (if res = Ok () then Ok \<lparr>lg_guard = live \<and> d \<noteq> None\<rparr> else Panic)"
proof -
  note fresh = init_fresh [OF assms(1)]
  have stays: "same_setup p1 p2"
    using run_calls_setup [OF _ assms(2)] fresh(1) by simp
  then have "pr_init p2 = (if res = Ok () then Complete else Poisoned)" "logger_global p2 = logger_global p1"
    using fresh(1) by (simp_all add: same_setup_def logger_global_def)
  with fresh(2,3) stays show ?thesis
    by (auto simp: init_again) (auto simp: logger_global_def fresh_process_def)
qed

lemma init_acts_once_witness:
  "\<exists>p. logger_init demo_libs (Some []) False p = (Ok (), p) \<and> logger_global p = Ok \<lparr>lg_guard = False\<rparr>"
proof -
  obtain p where p: "run_calls demo_libs demo_calls demo_production = Some p"
    by (rule demo_run)
  have "logger_init demo_libs None True demo_process = (Ok (), demo_production)"
    by (simp add: demo_production_def demo_init)
  from init_acts_once [OF this p, of "Some []" False] show ?thesis
    by auto
qed

text \<open>Property C39 (production_redacts): in both production modes, whatever the process calls after the
  initialisation, the file appender or the standard output is handed only text that went through the address pattern:
  one piece for some of the events, in their order, each a prefix (all of it unless the sink fails) of the
  formatted entry with every match replaced.  Assumed are the contract of \<open>Write\<close> for the sink and that the
  formatter produces text.\<close>

theorem production_redacts:
  assumes "logger_init L d True (fresh_process w) = (Ok (), p1)" and "run_calls L cs p1 = Some p2"
    and "honest_writer log (lib_sink_write L (production_sink d))" and "\<forall>opts ev. valid_utf8 (lib_format L opts ev)"
  shows "\<exists>re. lib_regex_new L pii_ip_pattern = Some re \<and>
    wrote_redacted L d re (concat (map call_events cs)) (log w) (log (pr_world p2))"
proof -
  obtain l where l: "production_layer L d = Ok l" "layer_of p1 = Some l"
    using init_production(1) [OF assms(1)] by blast
  obtain re where re: "lib_regex_new L pii_ip_pattern = Some re"
    "l = Fmt_Layer (production_options d) (Redacting (production_sink d) re)"
    by (rule production_layer_ok [OF l(1)])
  have "in_production L d re p1"
    using init_production(4) [OF assms(1)] l(2) re(2) by (simp add: in_production_def)
  from run_calls_production [OF this assms(2-4)] re(1) init_production(2) [OF assms(1)] show ?thesis
    by auto
qed

lemma production_redacts_witness:
  "\<exists>re. wrote_redacted demo_libs None re (concat (map call_events demo_calls)) [] (ascii ''{[redacted]'')"
proof -
  obtain p where p: "run_calls demo_libs demo_calls demo_production = Some p" "pr_world p Std_Out = ascii ''{[redacted]''"
    by (rule demo_run)
  have init: "logger_init demo_libs None True (fresh_process (\<lambda>s. [])) = (Ok (), demo_production)"
    by (simp add: demo_production_def demo_init)
  show ?thesis
    using production_redacts [OF init p(1), of "\<lambda>w. w Std_Out"] demo_sink_honest demo_format p(2)
    by (auto simp: production_sink_def)
qed

text \<open>Property C40 (stdout_panics_not_logged): whatever the mode and the directory of the first initialisation
  and however it ended, and whatever the process calls afterwards, a panic becomes a log entry exactly if that
  call returned and was in production with a directory.  In debug mode, in production on the standard output,
  after an initialisation that panicked, and before any, the hook is not installed, so the report of the panic
  goes to the standard error as it is, neither in JSON nor redacted.\<close>

theorem stdout_panics_not_logged:
  assumes "logger_init L d live (fresh_process w) = (res, p1)" and "run_calls L cs p1 = Some p2"
  shows "on_panic L info p2 =
      (if res = Ok () \<and> live \<and> d \<noteq> None then emit L (panic_entry (pi_debug info)) p2
       else Some (eprintln (pi_report info) p2)) \<and>
    on_panic L info (fresh_process w) = Some (eprintln (pi_report info) (fresh_process w))"
  using run_calls_setup [OF _ assms(2)] init_hook [OF assms(1)] init_fresh(1) [OF assms(1)]
  by (auto simp: on_panic_def same_setup_def fresh_process_def split: if_splits)

lemma stdout_panics_not_logged_witness:
  "\<exists>p q. on_panic demo_libs demo_panic p = Some (eprintln (ascii ''peer 10.0.0.1'') p) \<and>
     run_calls demo_libs demo_calls demo_production = Some p \<and>
     logger_init demo_libs (Some (ascii ''/var/log'')) False demo_process = (Ok (), q) \<and>
     on_panic demo_libs demo_panic q = Some (eprintln (ascii ''peer 10.0.0.1'') q)"
proof -
  obtain p where p: "run_calls demo_libs demo_calls demo_production = Some p"
    by (rule demo_run)
  have init: "logger_init demo_libs None True demo_process = (Ok (), demo_production)"
    by (simp add: demo_production_def demo_init)
  obtain q where q: "logger_init demo_libs (Some (ascii ''/var/log'')) False demo_process = (Ok (), q)"
    by (simp add: logger_init_def call_once_def init_body_def install_layer_def subscriber_init_def
        fresh_process_def debug_layer_def demo_libs_def)
  show ?thesis
    using stdout_panics_not_logged [OF init p, of demo_panic] p
      stdout_panics_not_logged [OF q, of "[]" q demo_panic] q
    by (auto simp: demo_panic_def)
qed

end
