(* ===== verification/Spec2Isabelle.thy ===== *)
theory Spec2Isabelle
  imports Session_Stream Hostile_Stream Fingerprint Datagram_Schedule Decoy Logger
begin

text \<open>
  \<^bold>\<open>nrxp: the masking core of a tunnel.\<close>  The repository \<open>nrxp\<close> (crates \<open>src/engine\<close> and
  \<open>src/logger\<close>) disguises a tunnel as a browser's TLS connection: a client hello whose fields
  carry key material and an authentication tag, a server hello that answers it, then frames
  inside encrypted records, and beside them datagrams with keys of their own.  This
  development translates that code function by function and proves what it promises.

  \<^bold>\<open>Theories, from the ground up\<close> (files under \<open>src/engine/src\<close>):
  \<^item> \<open>Prelude\<close>: machine integers as words, byte buffers, results with an explicit panic,
    big-endian fields, the random source; the arithmetic every layout rests on.
  \<^item> \<open>Errors\<close>: \<open>errors.rs\<close> and \<open>logger/src/error.rs\<close>; \<open>Stream\<close>: the trait of \<open>parser.rs\<close> as the
    locales \<open>stream_decoder\<close> and \<open>incremental_parser\<close> with the reader loop \<open>drain\<close>.
  \<^item> \<open>Frame\<close>: \<open>nrxp/frame.rs\<close>; \<open>Wire_Types\<close>: \<open>tlseng/types.rs\<close>, \<open>tlseng/consts.rs\<close>, \<open>utils/u24.rs\<close>;
    \<open>Tls_Record\<close>: \<open>tlseng/tls_record.rs\<close> and the record handling of \<open>bridge.rs\<close>.
  \<^item> \<open>Crypto\<close>: the cryptographic crates as parameters with their laws; \<open>Chacha\<close>:
    \<open>crypto/chacha.rs\<close>, \<open>crypto/aead.rs\<close>; \<open>Session_Auth\<close>: \<open>net_consts.rs\<close> and the time-window tags of
    \<open>crypto/session.rs\<close>.
  \<^item> \<open>Pad_Shaper\<close> and \<open>Codec\<close>: \<open>nrxp/codec.rs\<close>.
  \<^item> \<open>Datagram_Keys\<close>: \<open>crypto/datagram_keys.rs\<close>, \<open>crypto/hkdf.rs\<close>; \<open>Replay_Window\<close> and \<open>Datagram\<close>:
    \<open>nrxp/datagram.rs\<close>; \<open>Datagram_Net\<close>: both ends with an unreliable network between them;
    \<open>Datagram_Schedule\<close>: the sender over its whole life.
  \<^item> \<open>Extension_Stack\<close> (reading) and \<open>Extension_Builder\<close> (writing): \<open>tlseng/extension.rs\<close>; \<open>Mlkem\<close>:
    \<open>tlseng/mlkem.rs\<close>; \<open>Profile\<close>: \<open>tlseng/grease.rs\<close>, \<open>tlseng/profile.rs\<close>.
  \<^item> \<open>Session_Keys\<close>: \<open>crypto/session.rs\<close>, \<open>crypto/ecdh.rs\<close>, \<open>crypto/identity.rs\<close>; \<open>Hello\<close>:
    \<open>tlseng/handshake.rs\<close>; \<open>Bridge\<close>: \<open>bridge.rs\<close>; \<open>Decoy\<close>: \<open>tlseng/decoy.rs\<close>.
  \<^item> \<open>Shuffle\<close>: the order of the extensions as a function of the bytes drawn; \<open>Fingerprint\<close>: what an
    observer reads in a client hello, specified from the profile and the bytes drawn, and whether
    the server hello is an answer to it.
  \<^item> \<open>Connection\<close>: the byte stream between two codecs as a state machine, joined to the
    handshake; \<open>Session_Stream\<close>: one side reading hello, marker and frames from its first byte on;
    \<open>Hostile_Stream\<close>: the record stream with an attacker in between; this theory: what holds
    across the handshake and the datagram legs.
  \<^item> \<open>Logger\<close>: \<open>logger/src/lib.rs\<close>, beside the protocol.

  \<^bold>\<open>How the code is read.\<close>  A struct is a record, an enum a datatype, an integer a word of its
  width (\<open>usize\<close> is a natural number where only buffer lengths flow into it); integer
  arithmetic wraps, as in a release build.  A function that consumes a \<open>BytesMut\<close> returns what is
  left of it.  \<open>Ok\<close>, \<open>Err\<close> and \<open>Panic\<close> are the ways a call ends; the state a failing call leaves
  behind is part of the result.  Time is an argument, and the random generator an infinite
  sequence of bytes that each draw shortens.  A loop whose end is not evident from its data
  is a \<open>partial_function\<close> into \<open>option\<close>, so that not returning is the value \<open>None\<close>: the clearing loop
  of the replay window (\<open>clear_loop\<close>, which indeed does not end for the last counter), the
  rejection sampler of \<open>Mlkem\<close> (which ends for a \<open>generous\<close> generator, one that keeps offering
  acceptable words), the reader loop (which always ends, \<open>drain_total\<close>), and \<open>write_all\<close> of the
  logger (which ends when the sink makes progress, \<open>write_all_works\<close>).  There is no fuel
  anywhere; every other recursion is structural or has a measure.

  \<^bold>\<open>Parameters.\<close>  ChaCha20-Poly1305, HMAC-SHA256, HKDF, X25519, the hex crate and the standard
  hasher are not in the repository.  The first four are the fields of the record \<open>crypto\<close>; what
  the proofs use of them are the laws of \<open>Crypto\<close> (what is sealed opens, sealing succeeds below
  the length limit, output lengths, commuting Diffie-Hellman).  \<open>toy_crypto\<close> satisfies all of them
  and carries the witnesses.  Unforgeability is never assumed as a law: where it matters, the
  theorem says for which input or run it holds (a record that opens under no key; \<open>unforged\<close>
  reads of the stream and \<open>genuine\<close> reads of datagrams: what opens was sealed so by the sender).  The \<open>regex\<close> and \<open>tracing\<close> crates behind the logger are the fields of \<open>log_libs\<close>.

  \<^bold>\<open>What is shown.\<close>
  \<^item> Formats: frames, records, hellos, extension blocks and counters read back as written; on
    arbitrary bytes the parsers wait, return what the input spells, or fail in a stated way, and
    none of them panics except the client hello, exactly on odd cipher lists.
  \<^item> Streams: the decoders satisfy \<open>stream_decoder\<close>, so cutting the bytes differently changes
    nothing, from the first byte of the hello on (\<open>session_in_chunks\<close>); a link refines a queue of
    frames (\<open>link_refines_fifo\<close>) and can always be emptied; an attacker who feeds the receiver any
    bytes gets it to deliver a prefix of what was sent and nothing else (\<open>hostile_prefix\<close>).
  \<^item> Shape: record lengths are boundaries of the connection's shaper, but for frames too long for a
    record, which go alone and unpadded (\<open>batch_record_lengths\<close>); the padded Chromium
    profiles make a first record of 517 bytes; the GREASE values, the extension order, the padding
    and the lists of a hello are a stated function of the profile and the bytes drawn, and every
    order with fixed ends can be drawn (\<open>hello_as_profile\<close>); the server hello picks from what they offer (\<open>answer_fits_hello\<close>); the filler for the post-quantum
    share passes the modulus check.
  \<^item> Keys: honest sides derive mirrored keys, a tag key and a datagram root; tags are accepted
    exactly in their window; a strict node answers exactly the hellos whose tag its secret made
    (\<open>strict_node_answers\<close>), so there is no downgrade; nonces do not repeat.
  \<^item> Handshake: with any profile within its limits the two hellos arrive, are answered, and lead
    to codecs that carry frames in both directions (\<open>connection_in_order\<close>) and to datagram legs
    (\<open>legs_after_handshake\<close>); no reply is given without a valid tag,
    and a recorded hello is answered again within two minutes (\<open>recorded_hello_answered\<close>).
  \<^item> Datagrams: the bitmap window implements a set of counters; over a network that hands the
    receiver whatever it likes, at any distance from the sender's epoch, nothing is delivered
    unsent or more often than sent (\<open>network_never_duplicates\<close>), and the next datagram is opened
    unless a whole epoch was missed (\<open>network_recovers\<close>); the sender never meets a nonce twice
    under one key (\<open>seal_schedule\<close>), and accepting a counter always returns but for the last one.
  \<^item> Decoy: which names are accepted, with the address parser of the standard library.
  \<^item> Logger: only the first initialisation acts, and what production writes is redacted.
  The findings (truncated lengths of oversize payloads, the panic on odd cipher lists, the
  endless loop on the last counter, stalls on unknown record types, panics that production on
  the standard output does not log, comments that promise something else) are theorems or lemmas of the theories they concern.

  \<^bold>\<open>Interfaces.\<close>  \<open>stream_decoder\<close>, \<open>incremental_parser\<close>, \<open>aead_packer\<close>, \<open>window_check\<close>, \<open>ratchet\<close>,
  \<open>replay_filter\<close> and \<open>parser_then_decoder\<close> (a parser followed by a decoder) are locales, each interpreted on the model's own definitions where these are
  declared.

  \<^bold>\<open>Not modelled.\<close>  What the \<open>tracing\<close> crates do with an event beyond formatting and writing it, log
  calls inside the functions, the texts of \<open>Display\<close> for decoy errors, the wasm and
  native clocks, module declarations and tests.
\<close>

section \<open>Properties across components\<close>

text \<open>Property C10 (legs_after_handshake): after the handshake of \<open>handshake_agrees\<close> both sides derive the
  material of a datagram leg with the same token and receivers can be made from it on both sides.
  In either direction, over the network of \<open>network_never_duplicates\<close> - loss, repetition and delay
  without bound, altered epoch ids, counters and associated data, forgeries, limited only by
  \<open>genuine\<close> reads - no frame is delivered that was not sent, nor more often than it was sent.\<close>

theorem legs_after_handshake:
  assumes "hkdf_lengths P" and "dh_commutes P" and "aead_laws P" and "can_talk P c s"
    and "unat sent \<le> unat now + 120" and "unat now \<le> unat sent + 120"
    and "hello_fits host (public_key_bytes c) profile" and "valid_utf8 host" and "generous r"
  shows "\<exists>wire r' m reply s' m' kc c' lc ls rxc rxs.
    wrap_client_hello P sent profile host c r = Some (wire, r') \<and> unpack_handshake wire = (Ok (Some m), []) \<and>
    wrap_server_hello P now m s sprofile = (Ok (reply, claimed_version c), s') \<and>
    unpack_handshake reply = (Ok (Some m'), []) \<and>
    update_keys P c (msg_random m') (msg_extensions m') False = (Ok kc, c') \<and>
    derive_leg P c' = Some lc \<and> derive_leg P s' = Some ls \<and> dk_leg_token lc = dk_leg_token ls \<and>
    datagram_rx_new P lc = Some rxc \<and> datagram_rx_new P ls = Some rxs \<and>
    (\<forall>net. rtranclp (net_step P) (net_start lc rxs) net \<longrightarrow>
       mset (map dgram_of_frame (nt_got net)) \<subseteq># mset (map se_item (nt_log net))) \<and>
    (\<forall>net. rtranclp (net_step P) (net_start ls rxc) net \<longrightarrow>
       mset (map dgram_of_frame (nt_got net)) \<subseteq># mset (map se_item (nt_log net)))"
proof -
  have laws: "hmac_32 P" "dgram_laws P"
    using assms(1,3) by (simp_all add: aead_laws_def dgram_laws_def)
  obtain wire r' m reply s' m' c' prk where
    w: "\<forall>rest. unpack_handshake (wire @ rest) = (Ok (Some m), rest)"
      "\<forall>rest. unpack_handshake (reply @ rest) = (Ok (Some m'), rest)"
    and *: "wrap_client_hello P sent profile host c r = Some (wire, r')"
      "wrap_server_hello P now m s sprofile = (Ok (reply, claimed_version c), s')"
      "update_keys P c (msg_random m') (msg_extensions m') False = (Ok (schedule P prk False), c')"
    and root: "keys_datagram_root c' = Some prk" "keys_datagram_root s' = Some prk" "length prk = 32"
      "is_initiator c'" "\<not> is_initiator s'"
    by (rule handshake_runs [OF assms(1,2) laws(1) assms(4-9), where sprofile = sprofile])
  have read: "unpack_handshake wire = (Ok (Some m), [])" "unpack_handshake reply = (Ok (Some m'), [])"
    using w(1) [rule_format, of "[]"] w(2) [rule_format, of "[]"] by simp_all
  obtain lc ls where l: "derive_from_root P prk True = Some lc" "derive_from_root P prk False = Some ls"
    "dk_leg_token lc = dk_leg_token ls" "dk_tx lc = dk_rx ls" "dk_rx lc = dk_tx ls"
    "dgram_keys_wf P lc" "dgram_keys_wf P ls"
    using root_mirrored [OF assms(1) root(3)] by blast
  obtain rxs where rxs: "datagram_rx_new P ls = Some rxs"
    by (rule dgram_link_new [OF l(6,7,4)])
  obtain rxc where rxc: "datagram_rx_new P lc = Some rxc"
    by (rule dgram_link_new [OF l(7,6) l(5) [symmetric]])
  have "derive_leg P c' = Some lc" "derive_leg P s' = Some ls"
    using l(1,2) root by (simp_all add: derive_leg_def)
  then show ?thesis
    using read * l(3) rxs rxc
      net_inv_subset [OF net_reachable_inv [OF laws(2) l(6,7,4) rxs]]
      net_inv_subset [OF net_reachable_inv [OF laws(2) l(7,6) l(5) [symmetric] rxc]]
    by blast
qed

lemma legs_after_handshake_witness:
  "\<exists>wire r' m reply s' m' kc c' lc ls rxc rxs.
    wrap_client_hello toy_crypto 1000 chrome_140 (ascii ''example.com'') demo_client_keys (\<lambda>i. 1) = Some (wire, r') \<and>
    unpack_handshake wire = (Ok (Some m), []) \<and>
    wrap_server_hello toy_crypto 1100 m demo_server_keys server_modern = (Ok (reply, claimed_version demo_client_keys), s') \<and>
    unpack_handshake reply = (Ok (Some m'), []) \<and>
    update_keys toy_crypto demo_client_keys (msg_random m') (msg_extensions m') False = (Ok kc, c') \<and>
    derive_leg toy_crypto c' = Some lc \<and> derive_leg toy_crypto s' = Some ls \<and> dk_leg_token lc = dk_leg_token ls \<and>
    datagram_rx_new toy_crypto lc = Some rxc \<and> datagram_rx_new toy_crypto ls = Some rxs \<and>
    (\<forall>net. rtranclp (net_step toy_crypto) (net_start lc rxs) net \<longrightarrow>
       mset (map dgram_of_frame (nt_got net)) \<subseteq># mset (map se_item (nt_log net))) \<and>
    (\<forall>net. rtranclp (net_step toy_crypto) (net_start ls rxc) net \<longrightarrow>
       mset (map dgram_of_frame (nt_got net)) \<subseteq># mset (map se_item (nt_log net)))"
  by (rule legs_after_handshake [OF toy_crypto_laws(5,6) toy_aead_laws demo_can_talk _ _ demo_hello_fits generous_ones]) simp_all

end
